(* ===== verification/Prelude.thy ===== *)
theory Prelude
  imports Main "HOL-Library.Word" "HOL-Library.Signed_Division"
begin

text \<open>
  What every component of the development shares: the machine integers of the C code
  and their conversions, the outcome type that records undefined behaviour, and generic
  lemmas.

  Integers.  \<open>uint32_t\<close> is \<open>u32\<close>, \<open>unsigned long\<close> is \<open>u64\<close> (LP64) and \<open>BYTE\<close>
  (a \<open>char\<close>) is an 8-bit word that is read as signed.  A C \<open>int\<close> is a HOL \<open>int\<close>;
  each place where the code may leave the 32-bit range is wrapped by \<open>i32\<close>, which is
  what the compiled (unoptimised) code does.  Mixed expressions follow C's conversions:
  an \<open>int\<close> that meets an unsigned operand becomes unsigned (\<open>u32_of_int\<close>,
  \<open>u64_of_int\<close>), and an unsigned value stored into an \<open>int\<close> is truncated and read
  as signed (\<open>int_of_u32\<close>, \<open>int_of_u64\<close>).

  Outcomes.  A C function that can run into undefined behaviour returns
  \<open>fault + 'a\<close>: \<open>Inl\<close> names the first undefined step (a null pointer, an index
  outside its array, freed memory, a lock taken twice, a loop that never ends, an
  \<open>exit\<close>), \<open>Inr\<close> holds the result.
\<close>

unbundle bit_operations_syntax

section \<open>Machine integers\<close>

type_synonym u8 = "8 word"
type_synonym u32 = "32 word"
type_synonym u64 = "64 word"

definition i32 :: "int \<Rightarrow> int" where
  "i32 x = sint (word_of_int x :: u32)"

definition int_of_u32 :: "u32 \<Rightarrow> int" where
  "int_of_u32 w = sint w"

definition int_of_u64 :: "u64 \<Rightarrow> int" where
  "int_of_u64 w = sint (ucast w :: u32)"

definition u32_of_int :: "int \<Rightarrow> u32" where
  "u32_of_int x = word_of_int x"

definition u64_of_int :: "int \<Rightarrow> u64" where
  "u64_of_int x = word_of_int x"

definition u64_of_u32 :: "u32 \<Rightarrow> u64" where
  "u64_of_u32 w = ucast w"

text \<open>The value of a \<open>char\<close> stored into an \<open>uint32_t\<close>: sign-extended.\<close>

definition u32_of_byte :: "u8 \<Rightarrow> u32" where
  "u32_of_byte b = scast b"

definition byte_of_u32 :: "u32 \<Rightarrow> u8" where
  "byte_of_u32 w = ucast w"

definition byte_of_int :: "int \<Rightarrow> u8" where
  "byte_of_int x = word_of_int x"

definition in_i32 :: "int \<Rightarrow> bool" where
  "in_i32 x \<longleftrightarrow> - (2 ^ 31) \<le> x \<and> x < 2 ^ 31"

lemma i32_id: "- 2147483648 \<le> x \<Longrightarrow> x < 2147483648 \<Longrightarrow> i32 x = x"
  by (simp add: i32_def sint_sbintrunc' signed_take_bit_int_eq_self)

lemma i32_in_range: "in_i32 (i32 x)"
  using sint_range_size [of "word_of_int x :: u32"]
  by (simp add: i32_def in_i32_def word_size)

lemma in_i32_iff: "in_i32 x \<longleftrightarrow> i32 x = x"
  using i32_in_range [of x] by (auto simp: in_i32_def i32_id)

lemma i32_idem [simp]: "i32 (i32 x) = i32 x"
  using i32_in_range [of x] by (simp add: in_i32_iff)

lemma int_of_u32_range: "- 2147483648 \<le> int_of_u32 w \<and> int_of_u32 w < 2147483648"
  using sint_range_size [of w] by (simp add: int_of_u32_def word_size)

lemma int_of_u64_of_int [simp]: "int_of_u64 (u64_of_int x) = i32 x"
proof -
  have "(ucast (word_of_int x :: u64) :: u32) = word_of_int x"
    by (rule bit_word_eqI) (simp add: bit_simps)
  then show ?thesis
    by (simp add: int_of_u64_def u64_of_int_def i32_def)
qed

lemma uint_u64_of_int: "0 \<le> x \<Longrightarrow> x < 18446744073709551616 \<Longrightarrow> uint (u64_of_int x) = x"
  by (simp add: u64_of_int_def uint_word_of_int)

lemma uint_u32_of_int: "0 \<le> x \<Longrightarrow> x < 4294967296 \<Longrightarrow> uint (u32_of_int x) = x"
  by (simp add: u32_of_int_def uint_word_of_int)

lemma int_of_u64_eq: "int_of_u64 w = i32 (uint w)"
  using int_of_u64_of_int [of "uint w"] by (simp add: u64_of_int_def)

lemma int_of_u64_small: "uint w < 2147483648 \<Longrightarrow> int_of_u64 w = uint w"
  by (simp add: int_of_u64_eq i32_id order_trans [OF _ uint_ge_0])

lemma byte_roundtrip [simp]: "byte_of_u32 (u32_of_byte b) = b"
  unfolding byte_of_u32_def u32_of_byte_def
  by (rule bit_word_eqI) (simp add: bit_simps)

lemma u32_of_byte_inj: "u32_of_byte a = u32_of_byte b \<longleftrightarrow> a = b"
  by (metis byte_roundtrip)


section \<open>Outcomes\<close>

datatype fault =
    NullDeref       \<comment> \<open>a null pointer is dereferenced\<close>
  | OutOfBounds     \<comment> \<open>an array is accessed outside its bounds\<close>
  | UseAfterFree    \<comment> \<open>freed memory is accessed\<close>
  | Deadlock        \<comment> \<open>a thread takes a mutex it already holds\<close>
  | DivByZero       \<comment> \<open>an integer division by zero\<close>
  | Diverges        \<comment> \<open>a loop that never ends\<close>
  | Exits int       \<comment> \<open>the program calls \<open>exit\<close>\<close>

type_synonym 'a outcome = "fault + 'a"

fun rbind :: "'a outcome \<Rightarrow> ('a \<Rightarrow> 'b outcome) \<Rightarrow> 'b outcome" where
  "rbind (Inl e) f = Inl e"
| "rbind (Inr x) f = f x"

definition assert_that :: "bool \<Rightarrow> fault \<Rightarrow> unit outcome" where
  "assert_that b e = (if b then Inr () else Inl e)"

lemma rbind_Inr_iff: "rbind m f = Inr y \<longleftrightarrow> (\<exists>x. m = Inr x \<and> f x = Inr y)"
  by (cases m) auto

lemma rbind_Inl_iff: "rbind m f = Inl e \<longleftrightarrow> m = Inl e \<or> (\<exists>x. m = Inr x \<and> f x = Inl e)"
  by (cases m) auto

lemma rbind_assoc: "rbind (rbind m f) g = rbind m (\<lambda>x. rbind (f x) g)"
  by (cases m) auto

lemma rbind_cong [fundef_cong]:
  "m = m' \<Longrightarrow> (\<And>x. m' = Inr x \<Longrightarrow> f x = f' x) \<Longrightarrow> rbind m f = rbind m' f'"
  by (cases m') auto

lemma assert_that_Inr [simp]: "assert_that b e = Inr u \<longleftrightarrow> b"
  by (simp add: assert_that_def)

lemma assert_that_True [simp]: "assert_that True e = Inr ()"
  by (simp add: assert_that_def)

lemma assert_that_False [simp]: "assert_that False e = Inl e"
  by (simp add: assert_that_def)

lemmas outcome_iffs = rbind_Inr_iff rbind_Inl_iff

end
