(* ===== verification/Pte.thy ===== *)
theory Pte
  imports Prelude
begin

text \<open>
  The bit macros of \<open>include/bitops.h\<close>, the page-table-entry layout of
  \<open>include/mm.h\<close>, and the three functions of \<open>src/mm.c\<close> that set an entry.
  The laws of a bit field (\<open>GENMASK\<close> with \<open>GETVAL\<close> and \<open>SETVAL\<close>) are proved once
  for any field; the facts about frames, swap offsets and addresses are instances.
\<close>

unbundle bit_operations_syntax

section \<open>bitops.h\<close>

definition BITS_PER_LONG :: nat where
  "BITS_PER_LONG = 32"

definition BIT :: "nat \<Rightarrow> u32" where
  "BIT nr = push_bit nr 1"

text \<open>The 64-bit variants, and those on \<open>long\<close> words.\<close>

definition BITS_PER_BYTE :: int where
  "BITS_PER_BYTE = 8"

definition BIT_ULL :: "nat \<Rightarrow> u64" where
  "BIT_ULL nr = push_bit nr 1"

definition BIT_MASK :: "nat \<Rightarrow> u64" where
  "BIT_MASK nr = push_bit (nr mod BITS_PER_LONG) 1"

definition BIT_WORD :: "nat \<Rightarrow> nat" where
  "BIT_WORD nr = nr div BITS_PER_LONG"

definition DIV_ROUND_UP :: "int \<Rightarrow> int \<Rightarrow> int" where
  "DIV_ROUND_UP n d = i32 (n + d - 1) sdiv d"

definition GENMASK :: "nat \<Rightarrow> nat \<Rightarrow> u32" where
  "GENMASK h l = push_bit l (NOT 0) AND drop_bit (BITS_PER_LONG - h - 1) (NOT 0)"

definition NBITS2 :: "u32 \<Rightarrow> nat" where
  "NBITS2 n = (if n AND 2 \<noteq> 0 then 1 else 0)"

definition NBITS4 :: "u32 \<Rightarrow> nat" where
  "NBITS4 n = (if n AND 0xC \<noteq> 0 then 2 + NBITS2 (drop_bit 2 n) else NBITS2 n)"

definition NBITS8 :: "u32 \<Rightarrow> nat" where
  "NBITS8 n = (if n AND 0xF0 \<noteq> 0 then 4 + NBITS4 (drop_bit 4 n) else NBITS4 n)"

definition NBITS16 :: "u32 \<Rightarrow> nat" where
  "NBITS16 n = (if n AND 0xFF00 \<noteq> 0 then 8 + NBITS8 (drop_bit 8 n) else NBITS8 n)"

definition NBITS32 :: "u32 \<Rightarrow> nat" where
  "NBITS32 n = (if n AND 0xFFFF0000 \<noteq> 0 then 16 + NBITS16 (drop_bit 16 n) else NBITS16 n)"

definition NBITS :: "u32 \<Rightarrow> nat" where
  "NBITS n = (if n = 0 then 0 else NBITS32 n)"

definition EXTRACT_NBITS :: "u32 \<Rightarrow> nat \<Rightarrow> nat \<Rightarrow> u32" where
  "EXTRACT_NBITS nr h l = drop_bit l (nr AND GENMASK h l)"

section \<open>mm.h: constants and field macros\<close>

definition PAGING_CPU_BUS_WIDTH :: nat where
  "PAGING_CPU_BUS_WIDTH = 22"

definition PAGING_PAGESZ :: int where
  "PAGING_PAGESZ = 256"

definition PAGING_MAX_PGN :: nat where
  "PAGING_MAX_PGN = nat (DIV_ROUND_UP (uint (BIT PAGING_CPU_BUS_WIDTH)) PAGING_PAGESZ)"

definition PAGING_PAGE_ALIGNSZ :: "int \<Rightarrow> int" where
  "PAGING_PAGE_ALIGNSZ sz = i32 (DIV_ROUND_UP sz PAGING_PAGESZ * PAGING_PAGESZ)"

definition PAGING_MEMRAMSZ :: u32 where
  "PAGING_MEMRAMSZ = BIT 21"

definition PAGING_MEMSWPSZ :: u32 where
  "PAGING_MEMSWPSZ = BIT 29"

definition PAGING_SWPFPN_OFFSET :: nat where
  "PAGING_SWPFPN_OFFSET = 5"

definition PAGING_SBRK_INIT_SZ :: int where
  "PAGING_SBRK_INIT_SZ = PAGING_PAGESZ"

definition PAGING_PTE_PRESENT_MASK :: u32 where
  "PAGING_PTE_PRESENT_MASK = BIT 31"

definition PAGING_PTE_SWAPPED_MASK :: u32 where
  "PAGING_PTE_SWAPPED_MASK = BIT 30"

definition PAGING_PTE_RESERVE_MASK :: u32 where
  "PAGING_PTE_RESERVE_MASK = BIT 29"

definition PAGING_PTE_DIRTY_MASK :: u32 where
  "PAGING_PTE_DIRTY_MASK = BIT 28"

definition PAGING_PTE_EMPTY01_MASK :: u32 where
  "PAGING_PTE_EMPTY01_MASK = BIT 14"

definition PAGING_PTE_EMPTY02_MASK :: u32 where
  "PAGING_PTE_EMPTY02_MASK = BIT 13"

text \<open>The lowest and highest bits of the fields.\<close>

definition PAGING_PTE_USRNUM_LOBIT :: nat where "PAGING_PTE_USRNUM_LOBIT = 15"
definition PAGING_PTE_USRNUM_HIBIT :: nat where "PAGING_PTE_USRNUM_HIBIT = 27"
definition PAGING_PTE_FPN_LOBIT :: nat where "PAGING_PTE_FPN_LOBIT = 0"
definition PAGING_PTE_FPN_HIBIT :: nat where "PAGING_PTE_FPN_HIBIT = 12"
definition PAGING_PTE_SWPTYP_LOBIT :: nat where "PAGING_PTE_SWPTYP_LOBIT = 0"
definition PAGING_PTE_SWPTYP_HIBIT :: nat where "PAGING_PTE_SWPTYP_HIBIT = 4"
definition PAGING_PTE_SWPOFF_LOBIT :: nat where "PAGING_PTE_SWPOFF_LOBIT = 5"
definition PAGING_PTE_SWPOFF_HIBIT :: nat where "PAGING_PTE_SWPOFF_HIBIT = 25"
definition PAGING_ADDR_OFFST_LOBIT :: nat where "PAGING_ADDR_OFFST_LOBIT = 0"

lemmas field_bits [simp] = PAGING_SWPFPN_OFFSET_def PAGING_PTE_USRNUM_LOBIT_def PAGING_PTE_USRNUM_HIBIT_def
  PAGING_PTE_FPN_LOBIT_def PAGING_PTE_FPN_HIBIT_def PAGING_PTE_SWPTYP_LOBIT_def PAGING_PTE_SWPTYP_HIBIT_def
  PAGING_PTE_SWPOFF_LOBIT_def PAGING_PTE_SWPOFF_HIBIT_def PAGING_ADDR_OFFST_LOBIT_def

definition PAGING_PTE_USRNUM_MASK :: u32 where
  "PAGING_PTE_USRNUM_MASK = GENMASK PAGING_PTE_USRNUM_HIBIT PAGING_PTE_USRNUM_LOBIT"

definition PAGING_PTE_FPN_MASK :: u32 where
  "PAGING_PTE_FPN_MASK = GENMASK PAGING_PTE_FPN_HIBIT PAGING_PTE_FPN_LOBIT"

definition PAGING_PTE_SWPTYP_MASK :: u32 where
  "PAGING_PTE_SWPTYP_MASK = GENMASK PAGING_PTE_SWPTYP_HIBIT PAGING_PTE_SWPTYP_LOBIT"

definition PAGING_PTE_SWPOFF_MASK :: u32 where
  "PAGING_PTE_SWPOFF_MASK = GENMASK PAGING_PTE_SWPOFF_HIBIT PAGING_PTE_SWPOFF_LOBIT"

definition PAGING_ADDR_OFFST_HIBIT :: nat where
  "PAGING_ADDR_OFFST_HIBIT = NBITS (u32_of_int PAGING_PAGESZ) - 1"

definition PAGING_ADDR_PGN_LOBIT :: nat where
  "PAGING_ADDR_PGN_LOBIT = NBITS (u32_of_int PAGING_PAGESZ)"

definition PAGING_ADDR_PGN_HIBIT :: nat where
  "PAGING_ADDR_PGN_HIBIT = PAGING_CPU_BUS_WIDTH - 1"

definition PAGING_ADDR_FPN_LOBIT :: nat where
  "PAGING_ADDR_FPN_LOBIT = NBITS (u32_of_int PAGING_PAGESZ)"

definition PAGING_OFFST_MASK :: u32 where
  "PAGING_OFFST_MASK = GENMASK PAGING_ADDR_OFFST_HIBIT PAGING_ADDR_OFFST_LOBIT"

definition PAGING_PGN_MASK :: u32 where
  "PAGING_PGN_MASK = GENMASK PAGING_ADDR_PGN_HIBIT PAGING_ADDR_PGN_LOBIT"

definition PAGING_ADDR_FPN_HIBIT :: nat where
  "PAGING_ADDR_FPN_HIBIT = NBITS PAGING_MEMRAMSZ - 1"

definition PAGING_SWP_LOBIT :: nat where
  "PAGING_SWP_LOBIT = NBITS (u32_of_int PAGING_PAGESZ)"

definition PAGING_SWP_HIBIT :: nat where
  "PAGING_SWP_HIBIT = NBITS PAGING_MEMSWPSZ - 1"

definition PAGING_FPN_MASK :: u32 where
  "PAGING_FPN_MASK = GENMASK PAGING_ADDR_FPN_HIBIT PAGING_ADDR_FPN_LOBIT"

definition PAGING_SWP_MASK :: u32 where
  "PAGING_SWP_MASK = GENMASK PAGING_SWP_HIBIT PAGING_SWP_LOBIT"

definition SETBIT :: "u32 \<Rightarrow> u32 \<Rightarrow> u32" where
  "SETBIT v m = v OR m"

definition CLRBIT :: "u32 \<Rightarrow> u32 \<Rightarrow> u32" where
  "CLRBIT v m = v AND NOT m"

definition SETVAL :: "u32 \<Rightarrow> u32 \<Rightarrow> u32 \<Rightarrow> nat \<Rightarrow> u32" where
  "SETVAL v val m offst = (v AND NOT m) OR (push_bit offst val AND m)"

definition GETVAL :: "u32 \<Rightarrow> u32 \<Rightarrow> nat \<Rightarrow> u32" where
  "GETVAL v m offst = drop_bit offst (v AND m)"

definition PAGING_PAGE_PRESENT :: "u32 \<Rightarrow> bool" where
  "PAGING_PAGE_PRESENT pte \<longleftrightarrow> pte AND PAGING_PTE_PRESENT_MASK \<noteq> 0"

definition PAGING_FPN :: "u32 \<Rightarrow> int" where
  "PAGING_FPN pte = uint (GETVAL pte PAGING_PTE_FPN_MASK PAGING_PTE_FPN_LOBIT)"

definition PAGING_PTE_SWP :: "u32 \<Rightarrow> int" where
  "PAGING_PTE_SWP pte = uint (GETVAL pte PAGING_PTE_SWPOFF_MASK PAGING_SWPFPN_OFFSET)"

definition PAGING_PGN :: "u32 \<Rightarrow> int" where
  "PAGING_PGN x = uint (GETVAL x PAGING_PGN_MASK PAGING_ADDR_PGN_LOBIT)"

definition PAGING_OFFST :: "u32 \<Rightarrow> int" where
  "PAGING_OFFST x = uint (GETVAL x PAGING_OFFST_MASK PAGING_ADDR_OFFST_LOBIT)"

text \<open>The macros of \<open>mm.h\<close> that no function uses.\<close>

definition PAGING_PTE_SET_PRESENT :: "u32 \<Rightarrow> u32" where
  "PAGING_PTE_SET_PRESENT pte = pte OR PAGING_PTE_PRESENT_MASK"

definition PAGING_PTE_OFFST :: "u32 \<Rightarrow> u32" where
  "PAGING_PTE_OFFST pte = GETVAL pte PAGING_OFFST_MASK PAGING_ADDR_OFFST_LOBIT"

definition PAGING_PTE_PGN :: "u32 \<Rightarrow> u32" where
  "PAGING_PTE_PGN pte = GETVAL pte PAGING_PGN_MASK PAGING_ADDR_PGN_LOBIT"

definition PAGING_PTE_FPN :: "u32 \<Rightarrow> u32" where
  "PAGING_PTE_FPN pte = GETVAL pte PAGING_PTE_FPN_MASK PAGING_PTE_FPN_LOBIT"

definition PAGING_SWP :: "u32 \<Rightarrow> u32" where
  "PAGING_SWP pte = drop_bit PAGING_SWPFPN_OFFSET (pte AND PAGING_PTE_SWPOFF_MASK)"

definition INCLUDE :: "int \<Rightarrow> int \<Rightarrow> int \<Rightarrow> int \<Rightarrow> bool" where
  "INCLUDE x1 x2 y1 y2 \<longleftrightarrow> y1 \<ge> x1 \<and> y2 \<le> x2"

definition OVERLAP :: "int \<Rightarrow> int \<Rightarrow> int \<Rightarrow> int \<Rightarrow> bool" where
  "OVERLAP x1 x2 y1 y2 \<longleftrightarrow> x1 \<le> y2 \<and> x2 \<ge> y1"

definition PAGING_PAGE_SWAPPED :: "u32 \<Rightarrow> bool" where
  "PAGING_PAGE_SWAPPED pte \<longleftrightarrow> pte AND PAGING_PTE_SWAPPED_MASK \<noteq> 0"

section \<open>mm.c: setting an entry\<close>

definition init_pte :: "u32 \<Rightarrow> int \<Rightarrow> int \<Rightarrow> int \<Rightarrow> int \<Rightarrow> int \<Rightarrow> int \<Rightarrow> int \<times> u32" where
  "init_pte pte pre fpn drt swp swptyp swpoff =
    (if pre \<noteq> 0 then
       if swp = 0 then
         if fpn = 0 then (-1, pte)
         else
           (let p = SETBIT pte PAGING_PTE_PRESENT_MASK;
                p = CLRBIT p PAGING_PTE_SWAPPED_MASK;
                p = CLRBIT p PAGING_PTE_DIRTY_MASK
            in (0, SETVAL p (u32_of_int fpn) PAGING_PTE_FPN_MASK PAGING_PTE_FPN_LOBIT))
       else
         (let p = SETBIT pte PAGING_PTE_PRESENT_MASK;
              p = SETBIT p PAGING_PTE_SWAPPED_MASK;
              p = CLRBIT p PAGING_PTE_DIRTY_MASK;
              p = SETVAL p (u32_of_int swptyp) PAGING_PTE_SWPTYP_MASK PAGING_PTE_SWPTYP_LOBIT
          in (0, SETVAL p (u32_of_int swpoff) PAGING_PTE_SWPOFF_MASK PAGING_PTE_SWPOFF_LOBIT))
     else (0, pte))"

text \<open>\<open>pte_set_swap\<close> and \<open>pte_set_fpn\<close> always return 0: the models return the entry.\<close>

definition pte_set_swap :: "u32 \<Rightarrow> int \<Rightarrow> int \<Rightarrow> u32" where
  "pte_set_swap pte swptyp swpoff =
    (let p = SETBIT pte PAGING_PTE_PRESENT_MASK;
         p = SETBIT p PAGING_PTE_SWAPPED_MASK;
         p = SETVAL p (u32_of_int swptyp) PAGING_PTE_SWPTYP_MASK PAGING_PTE_SWPTYP_LOBIT
     in SETVAL p (u32_of_int swpoff) PAGING_PTE_SWPOFF_MASK PAGING_PTE_SWPOFF_LOBIT)"

definition pte_set_fpn :: "u32 \<Rightarrow> int \<Rightarrow> u32" where
  "pte_set_fpn pte fpn =
    (let p = SETBIT pte PAGING_PTE_PRESENT_MASK;
         p = CLRBIT p PAGING_PTE_SWAPPED_MASK
     in SETVAL p (u32_of_int fpn) PAGING_PTE_FPN_MASK PAGING_PTE_FPN_LOBIT)"

section \<open>Laws of a bit field\<close>

lemma bit_GENMASK: "h < 32 \<Longrightarrow> bit (GENMASK h l) n \<longleftrightarrow> l \<le> n \<and> n \<le> h"
  by (auto simp: GENMASK_def BITS_PER_LONG_def bit_simps)

lemma bit_BIT: "bit (BIT nr) n \<longleftrightarrow> n = nr \<and> nr < 32"
  by (auto simp: BIT_def bit_simps)

lemma AND_BIT_nonzero: "nr < 32 \<Longrightarrow> v AND BIT nr \<noteq> 0 \<longleftrightarrow> bit v nr"
proof -
  assume nr: "nr < 32"
  have "v AND BIT nr = 0 \<longleftrightarrow> \<not> bit v nr"
  proof
    assume "v AND BIT nr = 0"
    then have "\<not> bit (v AND BIT nr) nr" by simp
    then show "\<not> bit v nr" using nr by (simp add: bit_simps bit_BIT)
  next
    assume "\<not> bit v nr"
    then show "v AND BIT nr = 0"
      by (intro bit_word_eqI) (auto simp: bit_simps bit_BIT)
  qed
  then show ?thesis by blast
qed

lemma bit_SETVAL:
  "h < 32 \<Longrightarrow> bit (SETVAL v x (GENMASK h l) l) n \<longleftrightarrow>
     (if l \<le> n \<and> n \<le> h then bit x (n - l) else bit v n)"
  using bit_imp_le_length [of v n]
  by (cases "n < 32") (auto simp: SETVAL_def bit_simps bit_GENMASK)

lemma GETVAL_SETVAL:
  "h < 32 \<Longrightarrow> l \<le> h \<Longrightarrow>
    GETVAL (SETVAL v x (GENMASK h l) l) (GENMASK h l) l = take_bit (Suc h - l) x"
  by (rule bit_word_eqI) (auto simp: GETVAL_def bit_simps bit_SETVAL bit_GENMASK)

lemma GETVAL_SETVAL_other:
  "h < 32 \<Longrightarrow> h' < 32 \<Longrightarrow> h < l' \<or> h' < l \<Longrightarrow>
    GETVAL (SETVAL v x (GENMASK h l) l) (GENMASK h' l') l' = GETVAL v (GENMASK h' l') l'"
  by (rule bit_word_eqI) (auto simp: GETVAL_def bit_simps bit_SETVAL bit_GENMASK)

lemma GETVAL_range: "h < 32 \<Longrightarrow> l \<le> h \<Longrightarrow> uint (GETVAL v (GENMASK h l) l) < 2 ^ (Suc h - l)"
proof -
  assume h: "h < 32" "l \<le> h"
  have "GETVAL v (GENMASK h l) l = take_bit (Suc h - l) (drop_bit l v)"
    using h by (intro bit_word_eqI) (auto simp: GETVAL_def bit_simps bit_GENMASK)
  then show ?thesis
    by (simp add: unsigned_take_bit_eq)
qed

lemma GETVAL_low: "h < 32 \<Longrightarrow> l \<le> h \<Longrightarrow>
  uint (GETVAL v (GENMASK h l) l) = (uint v mod 2 ^ Suc h) div 2 ^ l"
proof -
  assume h: "h < 32" "l \<le> h"
  have "GETVAL v (GENMASK h l) l = take_bit (Suc h - l) (drop_bit l v)"
    using h by (intro bit_word_eqI) (auto simp: GETVAL_def bit_simps bit_GENMASK)
  then have "uint (GETVAL v (GENMASK h l) l) = take_bit (Suc h - l) (drop_bit l (uint v))"
    using take_bit_int_eq_self [of "uint v" 32] uint_lt2p [of v]
    by (simp only: unsigned_take_bit_eq unsigned_drop_bit_eq) simp
  also have "\<dots> = drop_bit l (take_bit (Suc h) (uint v))"
    by (rule drop_bit_take_bit [symmetric])
  finally show ?thesis
    by (simp only: take_bit_eq_mod drop_bit_eq_div)
qed

section \<open>Frames, swap offsets and addresses\<close>

lemma NBITS_PAGESZ [simp]: "NBITS 256 = 8"
  by (simp add: NBITS_def NBITS32_def NBITS16_def NBITS8_def NBITS4_def NBITS2_def)

lemma PAGING_ADDR_FPN_LOBIT_eq [simp]: "PAGING_ADDR_FPN_LOBIT = 8"
  by (simp add: PAGING_ADDR_FPN_LOBIT_def PAGING_PAGESZ_def u32_of_int_def)

lemma PAGING_MAX_PGN_eq [simp]: "PAGING_MAX_PGN = 16384"
  by (simp add: PAGING_MAX_PGN_def DIV_ROUND_UP_def BIT_def PAGING_CPU_BUS_WIDTH_def
      PAGING_PAGESZ_def i32_id signed_divide_int_def)

lemma PAGING_PGN_MASK_eq: "PAGING_PGN_MASK = GENMASK 21 8"
  by (simp add: PAGING_PGN_MASK_def PAGING_ADDR_PGN_HIBIT_def PAGING_CPU_BUS_WIDTH_def
      PAGING_ADDR_PGN_LOBIT_def PAGING_PAGESZ_def u32_of_int_def)

lemma PAGING_OFFST_MASK_eq: "PAGING_OFFST_MASK = GENMASK 7 0"
  by (simp add: PAGING_OFFST_MASK_def PAGING_ADDR_OFFST_HIBIT_def PAGING_PAGESZ_def u32_of_int_def)

lemma PAGING_PGN_eq: "PAGING_PGN x = (uint x mod 4194304) div 256"
  using GETVAL_low [of 21 8 x]
  by (simp add: PAGING_PGN_def PAGING_PGN_MASK_eq PAGING_ADDR_PGN_LOBIT_def PAGING_PAGESZ_def
      u32_of_int_def)

lemma PAGING_OFFST_eq: "PAGING_OFFST x = uint x mod 256"
  using GETVAL_low [of 7 0 x] by (simp add: PAGING_OFFST_def PAGING_OFFST_MASK_eq)

lemma PAGING_FPN_eq: "PAGING_FPN x = uint x mod 8192"
  using GETVAL_low [of 12 0 x] by (simp add: PAGING_FPN_def PAGING_PTE_FPN_MASK_def)

lemma PAGING_PGN_int: "PAGING_PGN (u32_of_int a) = (a mod 4194304) div 256"
  by (simp add: PAGING_PGN_eq u32_of_int_def uint_word_of_int mod_mod_cancel)

lemma PAGING_OFFST_int: "PAGING_OFFST (u32_of_int a) = a mod 256"
  by (simp add: PAGING_OFFST_eq u32_of_int_def uint_word_of_int mod_mod_cancel)

lemma PAGING_PGN_range [simp]: "0 \<le> PAGING_PGN x" "PAGING_PGN x < 16384"
  using pos_mod_bound [of 4194304 "uint x"] pos_mod_sign [of 4194304 "uint x"]
  by (simp_all add: PAGING_PGN_eq pos_imp_zdiv_nonneg_iff zdiv_mono1 [THEN order_le_less_trans])

lemma PAGING_OFFST_range [simp]: "0 \<le> PAGING_OFFST x" "PAGING_OFFST x < 256"
  by (simp_all add: PAGING_OFFST_eq)

lemma PAGING_FPN_range [simp]: "0 \<le> PAGING_FPN x" "PAGING_FPN x < 8192"
  by (simp_all add: PAGING_FPN_eq)

lemma PAGING_PAGE_PRESENT_iff: "PAGING_PAGE_PRESENT pte \<longleftrightarrow> bit pte 31"
  by (simp add: PAGING_PAGE_PRESENT_def PAGING_PTE_PRESENT_MASK_def AND_BIT_nonzero)

lemma PAGING_PAGE_SWAPPED_iff: "PAGING_PAGE_SWAPPED pte \<longleftrightarrow> bit pte 30"
  by (simp add: PAGING_PAGE_SWAPPED_def PAGING_PTE_SWAPPED_MASK_def AND_BIT_nonzero)

lemmas pte_masks = PAGING_PTE_PRESENT_MASK_def PAGING_PTE_SWAPPED_MASK_def
  PAGING_PTE_DIRTY_MASK_def PAGING_PTE_FPN_MASK_def PAGING_PTE_SWPTYP_MASK_def
  PAGING_PTE_SWPOFF_MASK_def PAGING_PTE_USRNUM_MASK_def

lemma bit_SETBIT: "bit (SETBIT v (BIT k)) n \<longleftrightarrow> bit v n \<or> (n = k \<and> k < 32)"
  by (auto simp: SETBIT_def bit_simps bit_BIT)

lemma bit_CLRBIT: "bit (CLRBIT v (BIT k)) n \<longleftrightarrow> bit v n \<and> n \<noteq> k"
  using bit_imp_le_length [of v n]
  by (auto simp: CLRBIT_def bit_simps bit_BIT)

text \<open>Which bit of an updated entry comes from where.\<close>

lemma bit_pte_set_fpn:
  "bit (pte_set_fpn pte f) n \<longleftrightarrow>
    (if n \<le> 12 then bit (u32_of_int f) n
     else n = 31 \<or> (bit pte n \<and> n \<noteq> 30))"
  by (auto simp: pte_set_fpn_def pte_masks bit_SETVAL bit_CLRBIT bit_SETBIT)

lemma bit_pte_set_swap:
  "bit (pte_set_swap pte t off) n \<longleftrightarrow>
    (if 5 \<le> n \<and> n \<le> 25 then bit (u32_of_int off) (n - 5)
     else if n \<le> 4 then bit (u32_of_int t) n
     else n = 30 \<or> n = 31 \<or> bit pte n)"
  by (auto simp: pte_set_swap_def pte_masks bit_SETVAL bit_SETBIT)

lemma pte_set_fpn_flags [simp]:
  "PAGING_PAGE_PRESENT (pte_set_fpn pte f)" "\<not> PAGING_PAGE_SWAPPED (pte_set_fpn pte f)"
  by (simp_all add: PAGING_PAGE_PRESENT_iff PAGING_PAGE_SWAPPED_iff bit_pte_set_fpn)

lemma pte_set_swap_flags [simp]:
  "PAGING_PAGE_PRESENT (pte_set_swap pte t off)" "PAGING_PAGE_SWAPPED (pte_set_swap pte t off)"
  by (simp_all add: PAGING_PAGE_PRESENT_iff PAGING_PAGE_SWAPPED_iff bit_pte_set_swap)

lemma uint_take_bit_of_int:
  assumes "n \<le> 32"
  shows "uint (take_bit n (u32_of_int f)) = f mod 2 ^ n"
proof -
  have "(2 :: int) ^ n dvd 2 ^ 32"
    using assms by (rule le_imp_power_dvd)
  then have "f mod 2 ^ 32 mod 2 ^ n = f mod 2 ^ n"
    by (rule mod_mod_cancel)
  then show ?thesis
    unfolding unsigned_take_bit_eq u32_of_int_def uint_word_of_int
    by (simp only: take_bit_eq_mod len_num1 len_bit0) simp
qed

lemma PAGING_FPN_set_fpn: "PAGING_FPN (pte_set_fpn pte f) = f mod 8192"
  using GETVAL_SETVAL [of 12 0] uint_take_bit_of_int [of 13 f]
  by (simp add: PAGING_FPN_def pte_set_fpn_def PAGING_PTE_FPN_MASK_def)

lemma PAGING_PTE_SWP_set_swap: "PAGING_PTE_SWP (pte_set_swap pte t off) = off mod 2097152"
  using GETVAL_SETVAL [of 25 5] uint_take_bit_of_int [of 21 off]
  by (simp add: PAGING_PTE_SWP_def pte_set_swap_def PAGING_PTE_SWPOFF_MASK_def)

text \<open>
  A swapped-out entry keeps the PRESENT flag, and its frame field (bits 0 to 12) then
  holds the swap type and the low bits of the swap offset.
\<close>

lemma PAGING_FPN_set_swap: "PAGING_FPN (pte_set_swap pte t off) = t mod 32 + 32 * (off mod 256)"
proof -
  let ?p = "pte_set_swap pte t off"
  have "GETVAL ?p (GENMASK 4 0) 0 = take_bit 5 (u32_of_int t)"
    by (rule bit_word_eqI) (auto simp: GETVAL_def bit_simps bit_GENMASK bit_pte_set_swap)
  then have lo: "uint ?p mod 32 = t mod 32"
    using GETVAL_low [of 4 0 ?p] uint_take_bit_of_int [of 5 t] by simp
  have "GETVAL ?p (GENMASK 12 5) 5 = take_bit 8 (u32_of_int off)"
    by (rule bit_word_eqI) (auto simp: GETVAL_def bit_simps bit_GENMASK bit_pte_set_swap)
  then have hi: "uint ?p mod 8192 div 32 = off mod 256"
    using GETVAL_low [of 12 5 ?p] uint_take_bit_of_int [of 8 off] by simp
  have "uint ?p mod 8192 = uint ?p mod 8192 div 32 * 32 + uint ?p mod 8192 mod 32"
    by (rule div_mult_mod_eq [symmetric])
  then show ?thesis
    using lo hi by (simp add: PAGING_FPN_eq mod_mod_cancel)
qed

section \<open>The layout\<close>

text \<open>The address masks, the two names of the swap field, and which fields share bits.\<close>

lemma PAGING_FPN_MASK_eq: "PAGING_FPN_MASK = GENMASK 20 8"
  by (simp add: PAGING_FPN_MASK_def PAGING_ADDR_FPN_HIBIT_def PAGING_MEMRAMSZ_def BIT_def NBITS_def NBITS32_def
      NBITS16_def NBITS8_def NBITS4_def NBITS2_def)

lemma PAGING_SWP_MASK_eq: "PAGING_SWP_MASK = GENMASK 28 8"
  by (simp add: PAGING_SWP_MASK_def PAGING_SWP_HIBIT_def PAGING_SWP_LOBIT_def PAGING_MEMSWPSZ_def BIT_def PAGING_PAGESZ_def
      u32_of_int_def NBITS_def NBITS32_def NBITS16_def NBITS8_def NBITS4_def NBITS2_def)

lemma PAGING_SWP_eq: "PAGING_PTE_SWP pte = uint (PAGING_SWP pte)"
  by (simp add: PAGING_PTE_SWP_def PAGING_SWP_def GETVAL_def)

lemma EXTRACT_NBITS_eq: "EXTRACT_NBITS nr h l = GETVAL nr (GENMASK h l) l"
  by (simp add: EXTRACT_NBITS_def GETVAL_def)

lemma flag_outside_field: "h < k \<Longrightarrow> h < 32 \<Longrightarrow> BIT k AND GENMASK h l = 0"
  by (rule bit_word_eqI) (auto simp: bit_simps bit_BIT bit_GENMASK)

lemma flags_disjoint_fields:
  assumes "flag \<in> {PAGING_PTE_PRESENT_MASK, PAGING_PTE_SWAPPED_MASK, PAGING_PTE_RESERVE_MASK, PAGING_PTE_DIRTY_MASK}"
  shows "flag AND PAGING_PTE_FPN_MASK = 0 \<and> flag AND PAGING_PTE_SWPOFF_MASK = 0 \<and> flag AND PAGING_PTE_SWPTYP_MASK = 0 \<and>
    flag AND PAGING_PTE_USRNUM_MASK = 0"
  using assms
  by (auto simp: PAGING_PTE_PRESENT_MASK_def PAGING_PTE_SWAPPED_MASK_def PAGING_PTE_RESERVE_MASK_def
      PAGING_PTE_DIRTY_MASK_def PAGING_PTE_FPN_MASK_def PAGING_PTE_SWPOFF_MASK_def PAGING_PTE_SWPTYP_MASK_def
      PAGING_PTE_USRNUM_MASK_def flag_outside_field)

lemma usrnum_overlaps_swpoff: "PAGING_PTE_USRNUM_MASK AND PAGING_PTE_SWPOFF_MASK \<noteq> 0"
proof
  assume "PAGING_PTE_USRNUM_MASK AND PAGING_PTE_SWPOFF_MASK = 0"
  then have "\<not> bit (PAGING_PTE_USRNUM_MASK AND PAGING_PTE_SWPOFF_MASK) 15" by simp
  then show False by (simp add: bit_and_iff PAGING_PTE_SWPOFF_MASK_def PAGING_PTE_USRNUM_MASK_def bit_GENMASK)
qed

lemma OVERLAP_iff:
  assumes "x1 \<le> x2" and "y1 \<le> y2"
  shows "OVERLAP x1 x2 y1 y2 \<longleftrightarrow> (\<exists>z. x1 \<le> z \<and> z \<le> x2 \<and> y1 \<le> z \<and> z \<le> y2)"
proof
  assume "OVERLAP x1 x2 y1 y2"
  then show "\<exists>z. x1 \<le> z \<and> z \<le> x2 \<and> y1 \<le> z \<and> z \<le> y2"
    using assms by (intro exI [of _ "max x1 y1"]) (auto simp: OVERLAP_def)
qed (auto simp: OVERLAP_def)

lemma INCLUDE_OVERLAP: "INCLUDE x1 x2 y1 y2 \<Longrightarrow> y1 \<le> y2 \<Longrightarrow> OVERLAP x1 x2 y1 y2"
  by (simp add: INCLUDE_def OVERLAP_def)

end
