(* ===== verification/Memphy.thy ===== *)
theory Memphy
  imports Pte
begin

text \<open>
  Physical memory devices (\<open>src/mm-memphy.c\<close>): RAM and the swap devices.  A device is
  its byte array, whose bounds \<open>maxsz\<close> each access checks (an access outside is
  undefined behaviour, \<open>OutOfBounds\<close>), its access mode, its cursor and its list of
  free frames.  Device pointers are never null in this program (they are the addresses of
  \<open>main\<close>'s structs), so the devices are passed themselves and the \<open>mp == NULL\<close> guards
  have no counterpart.

  The interfaces that other components rely on are the locales \<open>byte_device\<close> (what a
  store promises a later load) and \<open>frame_pool\<close> (what the free-frame list promises its
  clients); both are interpreted here on the model of the code.
\<close>

section \<open>State and operations\<close>

record memphy_struct =
  storage :: "int \<Rightarrow> u8"
  maxsz :: int
  rdmflg :: int
  cursor :: int
  free_fp_list :: "int list"

text \<open>One round of the loop of \<open>MEMPHY_mv_csr\<close>, and the loop.\<close>

function mv_csr_loop :: "int \<Rightarrow> int \<Rightarrow> memphy_struct \<Rightarrow> memphy_struct" where
  "mv_csr_loop numstep offset mp =
    (if numstep < offset \<and> numstep < maxsz mp
     then mv_csr_loop (numstep + 1) offset
            (mp\<lparr>cursor := (cursor mp + 1) smod maxsz mp\<rparr>)
     else mp)"
  by pat_completeness auto
termination
  by (relation "measure (\<lambda>(numstep, offset, mp). nat (offset - numstep))") auto

declare mv_csr_loop.simps [simp del]

definition MEMPHY_mv_csr :: "memphy_struct \<Rightarrow> int \<Rightarrow> memphy_struct" where
  "MEMPHY_mv_csr mp offset = mv_csr_loop 0 offset (mp\<lparr>cursor := 0\<rparr>)"

definition in_storage :: "memphy_struct \<Rightarrow> int \<Rightarrow> bool" where
  "in_storage mp addr \<longleftrightarrow> 0 \<le> addr \<and> addr < maxsz mp"

text \<open>
  The read functions return the C result, the byte the \<open>value\<close> argument points to
  afterwards (\<open>v\<close> is what it held before) and the device.
\<close>

definition MEMPHY_seq_read :: "memphy_struct \<Rightarrow> int \<Rightarrow> u8 \<Rightarrow> (int \<times> u8 \<times> memphy_struct) outcome" where
  "MEMPHY_seq_read mp addr v =
    (if rdmflg mp = 0 then Inr (-1, v, mp)
     else let mp' = MEMPHY_mv_csr mp addr
          in rbind (assert_that (in_storage mp' addr) OutOfBounds)
               (\<lambda>_. Inr (0, storage mp' addr, mp')))"

definition MEMPHY_read :: "memphy_struct \<Rightarrow> int \<Rightarrow> u8 \<Rightarrow> (int \<times> u8 \<times> memphy_struct) outcome" where
  "MEMPHY_read mp addr v =
    (if rdmflg mp \<noteq> 0
     then rbind (assert_that (in_storage mp addr) OutOfBounds)
            (\<lambda>_. Inr (0, storage mp addr, mp))
     else MEMPHY_seq_read mp addr v)"

definition MEMPHY_seq_write :: "memphy_struct \<Rightarrow> int \<Rightarrow> u8 \<Rightarrow> (int \<times> memphy_struct) outcome" where
  "MEMPHY_seq_write mp addr v =
    (if rdmflg mp = 0 then Inr (-1, mp)
     else let mp' = MEMPHY_mv_csr mp addr
          in rbind (assert_that (in_storage mp' addr) OutOfBounds)
               (\<lambda>_. Inr (0, mp'\<lparr>storage := (storage mp')(addr := v)\<rparr>)))"

definition MEMPHY_write :: "memphy_struct \<Rightarrow> int \<Rightarrow> u8 \<Rightarrow> (int \<times> memphy_struct) outcome" where
  "MEMPHY_write mp addr data =
    (if rdmflg mp \<noteq> 0
     then rbind (assert_that (in_storage mp addr) OutOfBounds)
            (\<lambda>_. Inr (0, mp\<lparr>storage := (storage mp)(addr := data)\<rparr>))
     else MEMPHY_seq_write mp addr data)"

text \<open>
  \<open>MEMPHY_format\<close> never writes the \<open>fp_next\<close> field of the first node unless it appends
  a second one; \<open>junk\<close> is the list that field happens to point to.
\<close>

fun format_loop :: "nat \<Rightarrow> int \<Rightarrow> int list" where
  "format_loop 0 iter = []"
| "format_loop (Suc k) iter = iter # format_loop k (iter + 1)"

definition MEMPHY_format :: "int list \<Rightarrow> memphy_struct \<Rightarrow> int \<Rightarrow> int \<times> memphy_struct" where
  "MEMPHY_format junk mp pagesz =
    (let numfp = maxsz mp sdiv pagesz
     in if numfp \<le> 0 then (-1, mp)
        else (0, mp\<lparr>free_fp_list :=
                 0 # (if numfp = 1 then junk else format_loop (nat (numfp - 1)) 1)\<rparr>))"

definition MEMPHY_get_freefp :: "memphy_struct \<Rightarrow> int \<Rightarrow> int \<times> int \<times> memphy_struct" where
  "MEMPHY_get_freefp mp retfpn =
    (case free_fp_list mp of
       [] \<Rightarrow> (-1, retfpn, mp)
     | fp # rest \<Rightarrow> (0, fp, mp\<lparr>free_fp_list := rest\<rparr>))"

definition MEMPHY_put_freefp :: "memphy_struct \<Rightarrow> int \<Rightarrow> memphy_struct" where
  "MEMPHY_put_freefp mp fpn = mp\<lparr>free_fp_list := fpn # free_fp_list mp\<rparr>"

text \<open>
  \<open>init_memphy\<close> on an uninitialised struct \<open>mp\<close>: the fields it does not write keep
  what the struct held.
\<close>

definition init_memphy :: "int list \<Rightarrow> memphy_struct \<Rightarrow> int \<Rightarrow> int \<Rightarrow> memphy_struct" where
  "init_memphy junk mp max_size randomflg =
    (let mp = mp\<lparr>storage := (\<lambda>_. 0), maxsz := max_size\<rparr>;
         mp = snd (MEMPHY_format junk mp PAGING_PAGESZ);
         mp = mp\<lparr>rdmflg := (if randomflg \<noteq> 0 then 1 else 0)\<rparr>
     in if rdmflg mp = 0 then mp\<lparr>cursor := 0\<rparr> else mp)"

section \<open>The cursor\<close>

lemma smod_nonneg: "0 \<le> a \<Longrightarrow> 0 < b \<Longrightarrow> a smod b = (a mod b :: int)"
  by (cases "a = 0") (simp_all add: signed_modulo_int_def)

lemma mv_csr_loop_other [simp]:
  "storage (mv_csr_loop n offset mp) = storage mp"
  "maxsz (mv_csr_loop n offset mp) = maxsz mp"
  "rdmflg (mv_csr_loop n offset mp) = rdmflg mp"
  "free_fp_list (mv_csr_loop n offset mp) = free_fp_list mp"
proof (induction n offset mp rule: mv_csr_loop.induct)
  case (1 n offset mp)
  {
    case 1 then show ?case using "1.IH"(1) by (subst mv_csr_loop.simps) auto
  next
    case 2 then show ?case using "1.IH"(2) by (subst mv_csr_loop.simps) auto
  next
    case 3 then show ?case using "1.IH"(3) by (subst mv_csr_loop.simps) auto
  next
    case 4 then show ?case using "1.IH"(4) by (subst mv_csr_loop.simps) auto
  }
qed

lemma mv_csr_loop_cursor:
  "0 \<le> n \<Longrightarrow> n \<le> min offset (maxsz mp) \<Longrightarrow> 0 < maxsz mp \<Longrightarrow> cursor mp = n mod maxsz mp \<Longrightarrow>
    cursor (mv_csr_loop n offset mp) = min offset (maxsz mp) mod maxsz mp"
proof (induction n offset mp rule: mv_csr_loop.induct)
  case (1 n offset mp)
  show ?case
  proof (cases "n < offset \<and> n < maxsz mp")
    case True
    then have "(n mod maxsz mp + 1) smod maxsz mp = (n + 1) mod maxsz mp"
      using "1.prems" by (simp add: smod_nonneg mod_add_left_eq)
    then show ?thesis
      using "1.IH" "1.prems" True by (subst mv_csr_loop.simps) simp
  next
    case False
    then have "n = min offset (maxsz mp)"
      using "1.prems" by linarith
    moreover have "mv_csr_loop n offset mp = mp"
      using False by (subst mv_csr_loop.simps) (simp only: if_False)
    ultimately show ?thesis
      using "1.prems" by simp
  qed
qed

lemma MEMPHY_mv_csr_other [simp]:
  "storage (MEMPHY_mv_csr mp a) = storage mp" "maxsz (MEMPHY_mv_csr mp a) = maxsz mp"
  "rdmflg (MEMPHY_mv_csr mp a) = rdmflg mp"
  "free_fp_list (MEMPHY_mv_csr mp a) = free_fp_list mp"
  by (simp_all add: MEMPHY_mv_csr_def)

lemma cursor_MEMPHY_mv_csr:
  "0 \<le> a \<Longrightarrow> a < maxsz mp \<Longrightarrow> cursor (MEMPHY_mv_csr mp a) = a"
  using mv_csr_loop_cursor [of 0 a "mp\<lparr>cursor := 0\<rparr>"] by (simp add: MEMPHY_mv_csr_def)

section \<open>Loads and stores\<close>

lemma in_storage_upd [simp]:
  "in_storage (mp\<lparr>storage := f\<rparr>) a = in_storage mp a"
  "in_storage (mp\<lparr>free_fp_list := l\<rparr>) a = in_storage mp a"
  by (simp_all add: in_storage_def)

lemma MEMPHY_read_random [simp]:
  "rdmflg mp \<noteq> 0 \<Longrightarrow> in_storage mp a \<Longrightarrow> MEMPHY_read mp a v = Inr (0, storage mp a, mp)"
  by (simp add: MEMPHY_read_def)

lemma MEMPHY_write_random [simp]:
  "rdmflg mp \<noteq> 0 \<Longrightarrow> in_storage mp a \<Longrightarrow>
    MEMPHY_write mp a d = Inr (0, mp\<lparr>storage := (storage mp)(a := d)\<rparr>)"
  by (simp add: MEMPHY_write_def)

lemma MEMPHY_read_outside:
  "rdmflg mp \<noteq> 0 \<Longrightarrow> \<not> in_storage mp a \<Longrightarrow> MEMPHY_read mp a v = Inl OutOfBounds"
  by (simp add: MEMPHY_read_def)

lemma MEMPHY_write_outside:
  "rdmflg mp \<noteq> 0 \<Longrightarrow> \<not> in_storage mp a \<Longrightarrow> MEMPHY_write mp a d = Inl OutOfBounds"
  by (simp add: MEMPHY_write_def)

lemma MEMPHY_read_sequential:
  "rdmflg mp = 0 \<Longrightarrow> MEMPHY_read mp a v = Inr (-1, v, mp)"
  by (simp add: MEMPHY_read_def MEMPHY_seq_read_def)

lemma MEMPHY_write_sequential:
  "rdmflg mp = 0 \<Longrightarrow> MEMPHY_write mp a d = Inr (-1, mp)"
  by (simp add: MEMPHY_write_def MEMPHY_seq_write_def)

text \<open>
  The contract of a byte device, over its load and store as total functions on the
  addresses it accepts, and the page copy that any such pair of devices supports.
\<close>

locale byte_device =
  fixes rd :: "'d \<Rightarrow> int \<Rightarrow> 'b"
    and wr :: "'d \<Rightarrow> int \<Rightarrow> 'b \<Rightarrow> 'd"
    and ok :: "'d \<Rightarrow> int \<Rightarrow> bool"
  assumes rd_wr_same: "ok d a \<Longrightarrow> rd (wr d a x) a = x"
    and rd_wr_other: "ok d a \<Longrightarrow> b \<noteq> a \<Longrightarrow> rd (wr d a x) b = rd d b"
    and ok_wr: "ok d a \<Longrightarrow> ok (wr d a x) b = ok d b"
begin

fun copy_block :: "'d \<Rightarrow> int \<Rightarrow> 'd \<Rightarrow> int \<Rightarrow> nat \<Rightarrow> 'd" where
  "copy_block s src d dst 0 = d"
| "copy_block s src d dst (Suc n) =
    wr (copy_block s src d dst n) (dst + int n) (rd s (src + int n))"

lemma ok_copy_block:
  "(\<And>i. i < n \<Longrightarrow> ok d (dst + int i)) \<Longrightarrow> ok (copy_block s src d dst n) b = ok d b"
  by (induction n arbitrary: b) (simp_all add: ok_wr)

lemma rd_copy_block:
  assumes "\<And>i. i < n \<Longrightarrow> ok d (dst + int i)"
  shows "rd (copy_block s src d dst n) a =
    (if dst \<le> a \<and> a < dst + int n then rd s (src + (a - dst)) else rd d a)"
  using assms
proof (induction n)
  case 0
  then show ?case by auto
next
  case (Suc n)
  have ok: "ok (copy_block s src d dst n) (dst + int n)"
    using Suc.prems by (simp add: ok_copy_block)
  show ?case
  proof (cases "a = dst + int n")
    case True
    then show ?thesis using ok by (simp add: rd_wr_same)
  next
    case False
    then show ?thesis using ok Suc by (auto simp: rd_wr_other)
  qed
qed

end

text \<open>
  The store of a random-access device, read off the model of the C function; its load is
  the byte array itself (\<open>MEMPHY_read_random\<close>).
\<close>

definition dev_store :: "memphy_struct \<Rightarrow> int \<Rightarrow> u8 \<Rightarrow> memphy_struct" where
  "dev_store mp a v = (case MEMPHY_write mp a v of Inr (_, mp') \<Rightarrow> mp' | Inl _ \<Rightarrow> mp)"

definition dev_ok :: "memphy_struct \<Rightarrow> int \<Rightarrow> bool" where
  "dev_ok mp a \<longleftrightarrow> rdmflg mp \<noteq> 0 \<and> in_storage mp a"

lemma dev_store_ok:
  "dev_ok mp a \<Longrightarrow> dev_store mp a v = mp\<lparr>storage := (storage mp)(a := v)\<rparr>"
  by (simp add: dev_store_def dev_ok_def)

interpretation dev: byte_device storage dev_store dev_ok
  by unfold_locales
    (auto simp: dev_store_def dev_ok_def MEMPHY_write_def
       MEMPHY_seq_write_def assert_that_def Let_def in_storage_def)

section \<open>The free-frame list\<close>

lemma format_loop_eq: "format_loop n i = map (\<lambda>k. i + int k) [0..<n]"
proof (induction n arbitrary: i)
  case (Suc n)
  have "[0..<Suc n] = 0 # map Suc [0..<n]"
    by (simp add: upt_conv_Cons map_Suc_upt del: upt_Suc)
  then show ?case
    using Suc [of "i + 1"] by (simp add: comp_def algebra_simps del: upt_Suc)
qed simp

lemma MEMPHY_format_frames:
  assumes "256 \<le> maxsz mp" and "junk = [] \<or> 512 \<le> maxsz mp"
  shows "free_fp_list (snd (MEMPHY_format junk mp 256)) = map int [0..<nat (maxsz mp div 256)]"
proof -
  let ?n = "maxsz mp div 256"
  have n: "maxsz mp sdiv 256 = ?n" "1 \<le> ?n" "?n = 1 \<Longrightarrow> junk = []"
    using assms by (auto simp: signed_divide_int_eq_divide_int)
  have upt: "[0..<nat ?n] = 0 # map Suc [0..<nat (?n - 1)]"
    using n(2) by (cases "nat ?n") (simp_all add: upt_conv_Cons map_Suc_upt nat_diff_distrib del: upt_Suc)
  have "format_loop (nat (?n - 1)) 1 = map int (map Suc [0..<nat (?n - 1)])"
    by (simp add: format_loop_eq comp_def)
  then show ?thesis
    using n by (auto simp: MEMPHY_format_def Let_def upt)
qed

lemma MEMPHY_format_too_small: "maxsz mp < 256 \<Longrightarrow> -256 < maxsz mp \<Longrightarrow> MEMPHY_format junk mp 256 = (-1, mp)"
  by (auto simp: MEMPHY_format_def Let_def signed_divide_int_def sgn_if)

text \<open>
  The contract of a pool of frames, and what taking several frames from one yields: the
  loop of \<open>alloc_pages_range\<close> (in \<open>Vm\<close>) is this loop on the model of a device.
\<close>

locale frame_pool =
  fixes get :: "'p \<Rightarrow> ('f \<times> 'p) option"
    and put :: "'p \<Rightarrow> 'f \<Rightarrow> 'p"
    and frames :: "'p \<Rightarrow> 'f list"
  assumes get_None_iff: "get p = None \<longleftrightarrow> frames p = []"
    and get_Some: "get p = Some (f, q) \<Longrightarrow> frames p = f # frames q"
    and frames_put: "frames (put p f) = f # frames p"
begin

fun grab :: "nat \<Rightarrow> 'p \<Rightarrow> 'f list \<Rightarrow> bool \<times> 'f list \<times> 'p" where
  "grab 0 p acc = (True, acc, p)"
| "grab (Suc n) p acc =
    (case get p of None \<Rightarrow> (False, acc, p) | Some (f, q) \<Rightarrow> grab n q (f # acc))"

lemma frames_grab:
  "grab n p acc = (b, fs, q) \<Longrightarrow>
     b = (n \<le> length (frames p)) \<and> fs = rev (take n (frames p)) @ acc \<and> frames q = drop n (frames p)"
proof (induction n arbitrary: p acc)
  case (Suc n)
  show ?case
  proof (cases "get p")
    case None
    then show ?thesis using Suc.prems get_None_iff [of p] by auto
  next
    case (Some fq)
    then obtain f p' where fq: "get p = Some (f, p')" by (cases fq) auto
    with Suc.prems have "grab n p' (f # acc) = (b, fs, q)" by simp
    from Suc.IH [OF this] show ?thesis using get_Some [OF fq] by auto
  qed
qed auto

lemma get_put: "\<exists>q. get (put p f) = Some (f, q) \<and> frames q = frames p"
proof (cases "get (put p f)")
  case None
  then show ?thesis using get_None_iff [of "put p f"] by (simp add: frames_put)
next
  case (Some gq)
  then show ?thesis using get_Some [of "put p f"] by (cases gq) (auto simp: frames_put)
qed

end

definition pool_get :: "memphy_struct \<Rightarrow> (int \<times> memphy_struct) option" where
  "pool_get mp = (case MEMPHY_get_freefp mp 0 of
     (ret, f, mp') \<Rightarrow> if ret = 0 then Some (f, mp') else None)"

interpretation pool: frame_pool pool_get MEMPHY_put_freefp free_fp_list
  by unfold_locales
    (auto simp: pool_get_def MEMPHY_get_freefp_def MEMPHY_put_freefp_def split: list.splits)

lemma MEMPHY_get_freefp_Nil [simp]: "free_fp_list mp = [] \<Longrightarrow> MEMPHY_get_freefp mp r = (-1, r, mp)"
  by (simp add: MEMPHY_get_freefp_def)

lemma MEMPHY_get_freefp_Cons [simp]:
  "free_fp_list mp = f # fs \<Longrightarrow> MEMPHY_get_freefp mp r = (0, f, mp\<lparr>free_fp_list := fs\<rparr>)"
  by (simp add: MEMPHY_get_freefp_def)

lemma pool_get_Nil [simp]: "free_fp_list mp = [] \<Longrightarrow> pool_get mp = None"
  by (simp add: pool_get_def)

lemma pool_get_Cons [simp]:
  "free_fp_list mp = f # fs \<Longrightarrow> pool_get mp = Some (f, mp\<lparr>free_fp_list := fs\<rparr>)"
  by (simp add: pool_get_def)

end
