(* ===== verification/Vm.thy ===== *)
theory Vm
  imports Memphy
begin

text \<open>
  Virtual memory areas and page mapping (\<open>src/mm.c\<close> below the entry functions, and
  \<open>src/mm-vm.c\<close>).  A C linked list whose nodes nothing else points to is a HOL list; an
  array is a function with its bound checked at every access.  The memory context
  \<open>vmctx\<close> is what these functions reach through \<open>caller\<close>: the process's own
  \<open>mm_struct\<close>, the RAM and the active swap device, and the mutex \<open>mmvm_lock\<close> of
  \<open>libmem.c\<close>.
\<close>

section \<open>State\<close>

record vm_rg_struct =
  rg_vmaid :: u64
  rg_start :: u64
  rg_end :: u64

record vm_area_struct =
  vm_id :: u64
  vm_start :: u64
  vm_end :: u64
  sbrk :: u64
  vm_freerg_list :: "vm_rg_struct list"

record mm_struct =
  pgd :: "int \<Rightarrow> u32"
  mmap :: "vm_area_struct list"
  symrgtbl :: "int \<Rightarrow> vm_rg_struct"
  fifo_pgn :: "int list"

record vmctx =
  c_mm :: mm_struct
  c_mram :: memphy_struct
  c_mswp :: memphy_struct
  c_lock :: bool

text \<open>
  What memory that the code reads before it writes it happens to hold: local variables
  of each type, and the \<open>vm_freerg_list\<close> field of a fresh \<open>vm_area_struct\<close>.
\<close>

record uninit =
  u_int :: int
  u_byte :: u8
  u_rg :: vm_rg_struct
  u_freerg :: "vm_rg_struct list"

definition PAGING_MAX_SYMTBL_SZ :: int where
  "PAGING_MAX_SYMTBL_SZ = 30"

section \<open>mm.c\<close>

definition init_vm_rg :: "uninit \<Rightarrow> int \<Rightarrow> int \<Rightarrow> vm_rg_struct" where
  "init_vm_rg u start end' =
    \<lparr>rg_vmaid = rg_vmaid (u_rg u), rg_start = u64_of_int start, rg_end = u64_of_int end'\<rparr>"

definition enlist_vm_rg_node :: "vm_rg_struct list \<Rightarrow> vm_rg_struct \<Rightarrow> vm_rg_struct list" where
  "enlist_vm_rg_node rglist rgnode = rgnode # rglist"

definition enlist_pgn_node :: "int list \<Rightarrow> int \<Rightarrow> int list" where
  "enlist_pgn_node plist pgn = pgn # plist"

text \<open>
  \<open>init_mm\<close> on a fresh \<open>mm_struct\<close>: \<open>m\<close> holds what the allocated page table, symbol
  table and page list contain, which the code does not clear.
\<close>

definition init_mm :: "uninit \<Rightarrow> mm_struct \<Rightarrow> mm_struct" where
  "init_mm u m =
    (let first_rg = init_vm_rg u 0 0;
         vma0 = \<lparr>vm_id = 0, vm_start = 0, vm_end = 0, sbrk = 0,
                 vm_freerg_list = enlist_vm_rg_node (u_freerg u) first_rg\<rparr>
     in m\<lparr>mmap := [vma0]\<rparr>)"

fun vmap_loop :: "int \<Rightarrow> int \<Rightarrow> int \<Rightarrow> int list \<Rightarrow> mm_struct \<Rightarrow> (int \<times> mm_struct) outcome" where
  "vmap_loop start_pgn pgnum pgit [] m = Inr (pgit, m)"
| "vmap_loop start_pgn pgnum pgit (fpn # fpit) m =
    (if pgit < pgnum then
       (let pgn = i32 (start_pgn + pgit) in
        rbind (assert_that (0 \<le> pgn \<and> pgn < int PAGING_MAX_PGN) OutOfBounds) (\<lambda>_.
        vmap_loop start_pgn pgnum (pgit + 1) fpit
          (m\<lparr>pgd := (pgd m)(pgn := pte_set_fpn (pgd m pgn) fpn),
             fifo_pgn := enlist_pgn_node (fifo_pgn m) pgn\<rparr>)))
     else Inr (pgit, m))"

definition vmap_page_range ::
  "mm_struct \<Rightarrow> int \<Rightarrow> int \<Rightarrow> int list \<Rightarrow> (vm_rg_struct \<times> mm_struct) outcome" where
  "vmap_page_range m addr pgnum frames =
    (let vmaid = (case mmap m of [] \<Rightarrow> u64_of_int (-1) | v # _ \<Rightarrow> vm_id v) in
     rbind (vmap_loop (PAGING_PGN (u32_of_int addr)) pgnum 0 frames m) (\<lambda>(pgit, m').
     Inr (\<lparr>rg_vmaid = vmaid, rg_start = u64_of_int addr,
           rg_end = u64_of_int (i32 (addr + pgit * PAGING_PAGESZ))\<rparr>, m')))"

fun alloc_pages_loop :: "nat \<Rightarrow> memphy_struct \<Rightarrow> int list \<Rightarrow> int \<times> int list \<times> memphy_struct" where
  "alloc_pages_loop 0 mp frm_lst = (0, frm_lst, mp)"
| "alloc_pages_loop (Suc n) mp frm_lst =
    (case MEMPHY_get_freefp mp 0 of
       (ret, fpn, mp') \<Rightarrow>
         if ret = 0 then alloc_pages_loop n mp' (fpn # frm_lst) else (-1, frm_lst, mp'))"

definition alloc_pages_range :: "vmctx \<Rightarrow> int \<Rightarrow> int list \<Rightarrow> int \<times> int list \<times> vmctx" where
  "alloc_pages_range caller req_pgnum frm_lst =
    (case alloc_pages_loop (nat req_pgnum) (c_mram caller) frm_lst of
       (ret, fl, mp) \<Rightarrow> (ret, fl, caller\<lparr>c_mram := mp\<rparr>))"

definition vm_map_ram ::
  "vmctx \<Rightarrow> int \<Rightarrow> int \<Rightarrow> int \<Rightarrow> int \<Rightarrow> vm_rg_struct \<Rightarrow> (int \<times> vm_rg_struct \<times> vmctx) outcome" where
  "vm_map_ram caller astart aend mapstart incpgnum ret_rg =
    (case alloc_pages_range caller incpgnum [] of
       (ret_alloc, frm_lst, caller') \<Rightarrow>
         if ret_alloc < 0 \<and> ret_alloc \<noteq> -3000 then Inr (-1, ret_rg, caller')
         else if ret_alloc = -3000 then Inr (-1, ret_rg, caller')
         else
           rbind (vmap_page_range (c_mm caller') mapstart incpgnum frm_lst) (\<lambda>(rg, m).
           Inr (0, rg, caller'\<lparr>c_mm := m\<rparr>)))"

function swap_cp_loop :: "u8 \<Rightarrow> int \<Rightarrow> memphy_struct \<Rightarrow> int \<Rightarrow> memphy_struct \<Rightarrow> int \<Rightarrow>
    (memphy_struct \<times> memphy_struct) outcome" where
  "swap_cp_loop junk cellidx mpsrc srcfpn mpdst dstfpn =
    (if cellidx < PAGING_PAGESZ then
       (let addrsrc = i32 (srcfpn * PAGING_PAGESZ + cellidx);
            addrdst = i32 (dstfpn * PAGING_PAGESZ + cellidx)
        in rbind (MEMPHY_read mpsrc addrsrc junk) (\<lambda>(_, data, mpsrc').
           rbind (MEMPHY_write mpdst addrdst data) (\<lambda>(_, mpdst').
           swap_cp_loop junk (cellidx + 1) mpsrc' srcfpn mpdst' dstfpn)))
     else Inr (mpsrc, mpdst))"
  by pat_completeness auto
termination
  by (relation "measure (\<lambda>(_, cellidx, _). nat (PAGING_PAGESZ - cellidx))") auto

declare swap_cp_loop.simps [simp del]

definition swap_cp_page :: "u8 \<Rightarrow> memphy_struct \<Rightarrow> int \<Rightarrow> memphy_struct \<Rightarrow> int \<Rightarrow>
    (memphy_struct \<times> memphy_struct) outcome" where
  "swap_cp_page junk mpsrc srcfpn mpdst dstfpn = swap_cp_loop junk 0 mpsrc srcfpn mpdst dstfpn"

section \<open>mm-vm.c\<close>

text \<open>
  \<open>get_vma_by_num\<close> returns the position of the area in the list, \<open>None\<close> for the null
  pointer.  The loop reads \<open>vm_id\<close> of the next area before it tests the pointer, so it
  faults when it runs off the list.
\<close>

fun vma_walk :: "vm_area_struct list \<Rightarrow> int \<Rightarrow> nat \<Rightarrow> nat outcome" where
  "vma_walk [] vmaid i = Inl NullDeref"
| "vma_walk (v # vs) vmaid i =
    (if int_of_u64 (vm_id v) < vmaid then vma_walk vs vmaid (Suc i) else Inr i)"

definition get_vma_by_num :: "mm_struct \<Rightarrow> int \<Rightarrow> nat option outcome" where
  "get_vma_by_num m vmaid =
    (if mmap m = [] then Inr None
     else rbind (vma_walk (mmap m) vmaid 0) (\<lambda>i. Inr (Some i)))"

text \<open>A pointer that is dereferenced without a test.\<close>

definition deref :: "'a option \<Rightarrow> 'a outcome" where
  "deref p = (case p of None \<Rightarrow> Inl NullDeref | Some x \<Rightarrow> Inr x)"

definition upd_vma :: "nat \<Rightarrow> (vm_area_struct \<Rightarrow> vm_area_struct) \<Rightarrow> mm_struct \<Rightarrow> mm_struct" where
  "upd_vma i f m = m\<lparr>mmap := (mmap m)[i := f (mmap m ! i)]\<rparr>"

definition mm_swap_page :: "u8 \<Rightarrow> vmctx \<Rightarrow> int \<Rightarrow> int \<Rightarrow> (int \<times> vmctx) outcome" where
  "mm_swap_page junk caller vicfpn swpfpn =
    rbind (swap_cp_page junk (c_mram caller) vicfpn (c_mswp caller) swpfpn) (\<lambda>(r, s).
    Inr (0, caller\<lparr>c_mram := r, c_mswp := s\<rparr>))"

definition get_vm_area_node_at_brk ::
  "uninit \<Rightarrow> vmctx \<Rightarrow> int \<Rightarrow> int \<Rightarrow> int \<Rightarrow> (vm_rg_struct option \<times> vmctx) outcome" where
  "get_vm_area_node_at_brk u caller vmaid size' alignedsz =
    rbind (get_vma_by_num (c_mm caller) vmaid) (\<lambda>p.
    case p of
      None \<Rightarrow> Inr (None, caller)
    | Some i \<Rightarrow>
        (let start = sbrk (mmap (c_mm caller) ! i);
             newrg = \<lparr>rg_vmaid = rg_vmaid (u_rg u), rg_start = start,
                      rg_end = start + u64_of_int alignedsz\<rparr>
         in Inr (Some newrg,
                 caller\<lparr>c_mm := upd_vma i (\<lambda>v. v\<lparr>sbrk := rg_end newrg\<rparr>) (c_mm caller)\<rparr>)))"

fun overlap_loop :: "vm_area_struct list \<Rightarrow> u64 \<Rightarrow> u64 \<Rightarrow> int" where
  "overlap_loop [] vmastart vmaend = 0"
| "overlap_loop (vma # rest) vmastart vmaend =
    (if vm_start vma = vm_end vma then overlap_loop rest vmastart vmaend
     else if (vm_start vma \<le> vmastart \<and> vmastart \<le> vm_end vma) \<or>
             (vm_start vma \<le> vmaend \<and> vmaend \<le> vm_end vma) \<or>
             (vmastart \<le> vm_start vma \<and> vm_end vma \<le> vmaend) \<or>
             (vm_start vma \<le> vmastart \<and> vmaend \<le> vm_end vma)
     then -1
     else overlap_loop rest vmastart vmaend)"

definition validate_overlap_vm_area :: "mm_struct \<Rightarrow> int \<Rightarrow> int \<Rightarrow> int \<Rightarrow> int" where
  "validate_overlap_vm_area m vmaid vmastart vmaend =
    overlap_loop (mmap m) (u64_of_int vmastart) (u64_of_int vmaend)"

definition inc_vma_limit :: "uninit \<Rightarrow> vmctx \<Rightarrow> int \<Rightarrow> int \<Rightarrow> (int \<times> vmctx) outcome" where
  "inc_vma_limit u caller vmaid inc_sz =
    (let inc_amt = PAGING_PAGE_ALIGNSZ inc_sz;
         incnumpage = inc_amt sdiv PAGING_PAGESZ
     in rbind (get_vm_area_node_at_brk u caller vmaid inc_sz inc_amt) (\<lambda>(area, caller).
        rbind (rbind (get_vma_by_num (c_mm caller) vmaid) deref) (\<lambda>i.
        let old_end = int_of_u64 (vm_end (mmap (c_mm caller) ! i)) in
        case area of
          None \<Rightarrow> Inr (-1, caller)
        | Some rg \<Rightarrow>
            if validate_overlap_vm_area (c_mm caller) vmaid
                 (int_of_u64 (rg_start rg)) (int_of_u64 (rg_end rg)) < 0
            then Inr (-1, caller)
            else
              (let caller = caller\<lparr>c_mm := upd_vma i
                     (\<lambda>v. v\<lparr>vm_end := u64_of_int (i32 (old_end + inc_amt))\<rparr>) (c_mm caller)\<rparr>
               in rbind (vm_map_ram caller (int_of_u64 (rg_start rg)) (int_of_u64 (rg_end rg))
                          old_end incnumpage (u_rg u)) (\<lambda>(ret, _, caller).
                  if ret < 0 then Inr (-1, caller) else Inr (0, caller))))))"

section \<open>Printing the page table\<close>

text \<open>
  \<open>print_pgtbl\<close> prints a line per page of the range: its byte offset in the table and
  the entry.  The model returns the lines.
\<close>

definition pgtbl_rows :: "mm_struct \<Rightarrow> int \<Rightarrow> int \<Rightarrow> (int \<times> u32) list" where
  "pgtbl_rows m a b = map (\<lambda>pg. (4 * pg, pgd m pg)) [a..b - 1]"

definition print_pgtbl :: "mm_struct \<Rightarrow> u32 \<Rightarrow> u32 \<Rightarrow> (int \<times> u32) list outcome" where
  "print_pgtbl m start end' =
    rbind (if end' = u32_of_int (-1)
           then rbind (rbind (get_vma_by_num m 0) deref) (\<lambda>i. Inr (ucast (vm_end (mmap m ! i))))
           else Inr end') (\<lambda>e.
    Inr (pgtbl_rows m (PAGING_PGN start) (PAGING_PGN e)))"

section \<open>Sizes\<close>

lemma PAGING_PAGE_ALIGNSZ_eq:
  "0 \<le> sz \<Longrightarrow> sz \<le> 1073741824 \<Longrightarrow> PAGING_PAGE_ALIGNSZ sz = (sz + 255) div 256 * 256"
  by (simp add: PAGING_PAGE_ALIGNSZ_def DIV_ROUND_UP_def PAGING_PAGESZ_def i32_id
      signed_divide_int_eq_divide_int algebra_simps)

lemma PAGING_PAGE_ALIGNSZ_bounds:
  assumes "0 \<le> sz" and "sz \<le> 1073741824"
  shows "sz \<le> PAGING_PAGE_ALIGNSZ sz" "PAGING_PAGE_ALIGNSZ sz < sz + 256"
    "PAGING_PAGE_ALIGNSZ sz mod 256 = 0" "0 \<le> PAGING_PAGE_ALIGNSZ sz"
  using assms by (simp_all add: PAGING_PAGE_ALIGNSZ_eq)

lemma PAGING_PAGE_ALIGNSZ_multiple:
  assumes "0 \<le> q" and "q \<le> 4194303"
  shows "PAGING_PAGE_ALIGNSZ (q * 256) = q * 256"
proof -
  have "(q * 256 + 255) div 256 = q" by simp
  then show ?thesis using assms by (simp add: PAGING_PAGE_ALIGNSZ_eq)
qed

lemma PAGING_PAGE_ALIGNSZ_idem:
  assumes "0 \<le> sz" and "sz \<le> 1073741568"
  shows "PAGING_PAGE_ALIGNSZ (PAGING_PAGE_ALIGNSZ sz) = PAGING_PAGE_ALIGNSZ sz"
proof -
  define q where "q = (sz + 255) div 256"
  have "0 \<le> q" "q \<le> 4194303" "PAGING_PAGE_ALIGNSZ sz = q * 256"
    using assms by (simp_all add: q_def PAGING_PAGE_ALIGNSZ_eq)
  then show ?thesis
    using PAGING_PAGE_ALIGNSZ_multiple by simp
qed

section \<open>Taking frames and mapping them\<close>

lemma alloc_pages_loop_grab:
  "alloc_pages_loop n mp fl = (case pool.grab n mp fl of (b, fs, q) \<Rightarrow> (if b then 0 else -1, fs, q))"
proof (induction n mp fl rule: alloc_pages_loop.induct)
  case (2 n mp fl)
  then show ?case by (cases "free_fp_list mp") simp_all
qed simp

lemma alloc_pages_loop_result:
  assumes "alloc_pages_loop n mp fl = (ret, fs, q)"
  shows "ret = (if n \<le> length (free_fp_list mp) then 0 else -1)"
    and "fs = rev (take n (free_fp_list mp)) @ fl"
    and "free_fp_list q = drop n (free_fp_list mp)"
  using assms pool.frames_grab [of n mp fl]
  by (auto simp: alloc_pages_loop_grab split: prod.splits)

lemma alloc_pages_loop_device:
  "alloc_pages_loop n mp fl = (ret, fs, q) \<Longrightarrow> q = mp\<lparr>free_fp_list := free_fp_list q\<rparr>"
  by (induction n mp fl rule: alloc_pages_loop.induct)
    (auto simp: MEMPHY_get_freefp_def split: list.splits if_splits)

lemma alloc_pages_loop_eq:
  "alloc_pages_loop n mp fl =
    (if n \<le> length (free_fp_list mp) then 0 else -1, rev (take n (free_fp_list mp)) @ fl,
     mp\<lparr>free_fp_list := drop n (free_fp_list mp)\<rparr>)"
proof -
  obtain ret fs q where eq: "alloc_pages_loop n mp fl = (ret, fs, q)"
    by (cases "alloc_pages_loop n mp fl") auto
  show ?thesis
    using alloc_pages_loop_result [OF eq] alloc_pages_loop_device [OF eq] eq by metis
qed

lemma vmap_loop_Cons:
  assumes "0 \<le> sp" "0 \<le> k" "sp + k < 16384" "k < n"
  shows "vmap_loop sp n k (f # fs) m = vmap_loop sp n (k + 1) fs
    (m\<lparr>pgd := (pgd m)(sp + k := pte_set_fpn (pgd m (sp + k)) f), fifo_pgn := (sp + k) # fifo_pgn m\<rparr>)"
  using assms by (simp add: Let_def i32_id enlist_pgn_node_def)

text \<open>The entries after the loop: the pages from \<open>sp + k\<close> on map the given frames in order.\<close>

definition mapped_pgd :: "(int \<Rightarrow> u32) \<Rightarrow> int \<Rightarrow> int list \<Rightarrow> int \<Rightarrow> u32" where
  "mapped_pgd pg sp fs p =
    (if sp \<le> p \<and> p < sp + int (length fs) then pte_set_fpn (pg p) (fs ! nat (p - sp)) else pg p)"

lemma mapped_pgd_Nil [simp]: "mapped_pgd pg sp [] = pg"
  by (rule ext) (auto simp: mapped_pgd_def)

lemma mapped_pgd_Cons:
  "mapped_pgd (pg(sp := pte_set_fpn (pg sp) f)) (sp + 1) fs = mapped_pgd pg sp (f # fs)"
proof
  fix p
  have "(f # fs) ! nat (p - sp) = fs ! nat (p - (sp + 1))" if "sp < p"
  proof -
    have "nat (p - sp) = Suc (nat (p - (sp + 1)))" using that by simp
    then show ?thesis by simp
  qed
  then show "mapped_pgd (pg(sp := pte_set_fpn (pg sp) f)) (sp + 1) fs p = mapped_pgd pg sp (f # fs) p"
    by (auto simp: mapped_pgd_def)
qed

lemma vmap_loop_result:
  assumes "0 \<le> k" and "0 \<le> sp"
    and "sp + k + int (length fs) \<le> 16384" and "k + int (length fs) \<le> n"
  shows "vmap_loop sp n k fs m = Inr (k + int (length fs),
    m\<lparr>pgd := mapped_pgd (pgd m) (sp + k) fs,
       fifo_pgn := rev (map (\<lambda>i. sp + k + int i) [0..<length fs]) @ fifo_pgn m\<rparr>)"
  using assms
proof (induction fs arbitrary: k m)
  case (Cons f fs)
  have upt: "map (\<lambda>i. sp + k + int i) [0..<length (f # fs)] =
      (sp + k) # map (\<lambda>i. sp + (k + 1) + int i) [0..<length fs]"
    by (simp add: upt_conv_Cons map_Suc_upt [symmetric] comp_def algebra_simps del: upt_Suc)
  show ?case
    using Cons.IH [of "k + 1"] Cons.prems mapped_pgd_Cons [of "pgd m" "sp + k" f fs]
    unfolding upt by (simp add: vmap_loop_Cons add.assoc del: vmap_loop.simps)
qed simp

section \<open>Copying a page between devices\<close>

definition page_in :: "memphy_struct \<Rightarrow> int \<Rightarrow> bool" where
  "page_in mp f \<longleftrightarrow> 0 \<le> f \<and> (f + 1) * 256 \<le> maxsz mp \<and> maxsz mp < 2147483648"

lemma page_in_storage: "page_in mp f \<Longrightarrow> 0 \<le> i \<Longrightarrow> i < 256 \<Longrightarrow> in_storage mp (f * 256 + i)"
  by (auto simp: page_in_def in_storage_def)

lemma page_in_i32: "page_in mp f \<Longrightarrow> 0 \<le> i \<Longrightarrow> i < 256 \<Longrightarrow> i32 (f * 256 + i) = f * 256 + i"
  by (auto simp: page_in_def i32_id)

lemma swap_cp_loop_copy_block:
  assumes "0 \<le> k" "k \<le> 256"
    and "rdmflg src \<noteq> 0" and "rdmflg dst \<noteq> 0" and "page_in src f" and "page_in dst g"
  shows "swap_cp_loop j k src f (dev.copy_block src (f * 256) dst (g * 256) (nat k)) g =
    Inr (src, dev.copy_block src (f * 256) dst (g * 256) 256)"
  using assms(1,2)
proof (induction "nat (256 - k)" arbitrary: k)
  case 0
  then have "k = 256" by simp
  then show ?case by (simp add: swap_cp_loop.simps PAGING_PAGESZ_def)
next
  case (Suc n)
  let ?c = "\<lambda>n. dev.copy_block src (f * 256) dst (g * 256) n"
  have ok: "dev_ok (?c n) b = dev_ok dst b" if "n \<le> 256" for n b
    using that assms page_in_storage [of dst g]
    by (intro dev.ok_copy_block) (simp add: dev_ok_def)
  have ks: "k < 256" "nat (k + 1) = Suc (nat k)" "int (nat k) = k"
    using Suc by auto
  have rw: "MEMPHY_read src (f * 256 + k) j = Inr (0, storage src (f * 256 + k), src)"
    "MEMPHY_write (?c (nat k)) (g * 256 + k) (storage src (f * 256 + k)) = Inr (0, ?c (Suc (nat k)))"
    using assms ks page_in_storage [of src f k] page_in_storage [of dst g k] ok [of "nat k" "g * 256 + k"]
    by (simp_all add: dev_ok_def dev_store_def)
  show ?case
    using Suc.hyps(1) [of "k + 1"] Suc.hyps(2) Suc.prems ks rw assms
    by (subst swap_cp_loop.simps)
      (simp add: PAGING_PAGESZ_def Let_def page_in_i32)
qed

lemma copy_block_device:
  assumes "\<And>i. i < n \<Longrightarrow> dev_ok dst (b + int i)"
  shows "dev.copy_block src a dst b n = dst\<lparr>storage := storage (dev.copy_block src a dst b n)\<rparr>"
  using assms
proof (induction n)
  case (Suc n)
  let ?d = "dev.copy_block src a dst b n"
  have "dev_ok ?d (b + int n)"
    using Suc.prems [of n] dev.ok_copy_block [of n dst b] Suc.prems by simp
  then have "dev.copy_block src a dst b (Suc n) =
      ?d\<lparr>storage := (storage ?d)(b + int n := storage src (a + int n))\<rparr>"
    by (simp add: dev_store_ok)
  moreover have "?d = dst\<lparr>storage := storage ?d\<rparr>"
    using Suc by simp
  ultimately show ?case
    by (metis memphy_struct.update_convs(1) memphy_struct.select_convs(1) memphy_struct.surjective)
qed simp

lemma swap_cp_page_eq:
  assumes "rdmflg src \<noteq> 0" and "rdmflg dst \<noteq> 0" and "page_in src f" and "page_in dst g"
  shows "swap_cp_page j src f dst g = Inr (src, dst\<lparr>storage := (\<lambda>a.
    if g * 256 \<le> a \<and> a < g * 256 + 256 then storage src (f * 256 + (a - g * 256))
    else storage dst a)\<rparr>)"
proof -
  let ?c = "dev.copy_block src (f * 256) dst (g * 256) 256"
  have run: "swap_cp_page j src f dst g = Inr (src, ?c)"
    using swap_cp_loop_copy_block [of 0 src dst f g j] assms by (simp add: swap_cp_page_def)
  have ok: "dev_ok dst (g * 256 + int i)" if "i < 256" for i
    using assms that page_in_storage [of dst g "int i"] by (simp add: dev_ok_def)
  have "storage ?c = (\<lambda>a. if g * 256 \<le> a \<and> a < g * 256 + 256
      then storage src (f * 256 + (a - g * 256)) else storage dst a)"
    by (rule ext, rule dev.rd_copy_block [OF ok, where n = 256, simplified of_nat_numeral]) simp
  moreover have "?c = dst\<lparr>storage := storage ?c\<rparr>"
    by (rule copy_block_device [OF ok])
  ultimately show ?thesis
    using run by simp
qed

section \<open>A process with its single area\<close>

text \<open>
  Only \<open>init_mm\<close> creates an area, so a process has exactly one, with number 0 and
  start 0.
\<close>

definition one_vma :: "mm_struct \<Rightarrow> vm_area_struct \<Rightarrow> bool" where
  "one_vma m v \<longleftrightarrow> mmap m = [v] \<and> vm_id v = 0 \<and> vm_start v = 0"

lemma one_vma_mmap: "one_vma m v \<Longrightarrow> mmap m = [v]"
  by (simp add: one_vma_def)

lemma get_vma_by_num_one: "one_vma m v \<Longrightarrow> vmaid \<le> 0 \<Longrightarrow> get_vma_by_num m vmaid = Inr (Some 0)"
  by (simp add: one_vma_def get_vma_by_num_def int_of_u64_def)

lemma get_vma_by_num_beyond: "one_vma m v \<Longrightarrow> 0 < vmaid \<Longrightarrow> get_vma_by_num m vmaid = Inl NullDeref"
  by (simp add: one_vma_def get_vma_by_num_def int_of_u64_def)

lemma upd_vma_one: "mmap m = [v] \<Longrightarrow> upd_vma 0 f m = m\<lparr>mmap := [f v]\<rparr>"
  by (simp add: upd_vma_def)

lemma deref_Some [simp]: "deref (Some x) = Inr x"
  by (simp add: deref_def)

lemma uint_add_of_int:
  assumes "0 \<le> x" and "uint w + x < 18446744073709551616"
  shows "uint (w + u64_of_int x) = uint w + x"
proof -
  have "0 \<le> uint w + x" "x < 18446744073709551616"
    using assms uint_ge_0 [of w] by linarith+
  then have "x mod 18446744073709551616 = x" "(uint w + x) mod 18446744073709551616 = uint w + x"
    using assms by (auto intro!: mod_pos_pos_trivial)
  then show ?thesis
    by (simp add: u64_of_int_def uint_word_ariths uint_word_of_int)
qed

lemma u64_of_int_uint [simp]: "u64_of_int (uint w) = w"
  by (simp add: u64_of_int_def)

lemma u64_of_int_of_u64: "uint w < 2147483648 \<Longrightarrow> u64_of_int (int_of_u64 w) = w"
  by (simp add: int_of_u64_small)

lemma overlap_one:
  assumes "mmap m = [v]" and "vm_start v = 0"
    and "0 \<le> a" and "a < b" and "b < 18446744073709551616"
  shows "validate_overlap_vm_area m vmaid a b < 0 \<longleftrightarrow> vm_end v \<noteq> 0 \<and> a \<le> uint (vm_end v)"
  using assms
  by (auto simp: validate_overlap_vm_area_def word_le_def uint_u64_of_int)

text \<open>What \<open>inc_vma_limit\<close> does to area 0 when it grows by \<open>q\<close> pages.\<close>

definition grown_vma :: "vm_area_struct \<Rightarrow> int \<Rightarrow> vm_area_struct" where
  "grown_vma v n = v\<lparr>sbrk := sbrk v + u64_of_int n, vm_end := u64_of_int (uint (vm_end v) + n)\<rparr>"

lemma inc_vma_limit_one:
  assumes v: "one_vma (c_mm c) v"
    and q: "0 < q" "uint (vm_end v) + q * 256 \<le> 4194304"
    and al: "uint (vm_end v) mod 256 = 0"
    and b: "uint (sbrk v) + q * 256 < 2147483648"
  defines "fs \<equiv> rev (take (nat q) (free_fp_list (c_mram c)))"
    and "m \<equiv> c_mm c" and "e \<equiv> uint (vm_end v)"
  shows "inc_vma_limit u c 0 (q * 256) =
    (if e \<noteq> 0 \<and> uint (sbrk v) \<le> e then
       Inr (-1, c\<lparr>c_mm := m\<lparr>mmap := [v\<lparr>sbrk := sbrk v + u64_of_int (q * 256)\<rparr>]\<rparr>\<rparr>)
     else if int (length (free_fp_list (c_mram c))) < q then
       Inr (-1, c\<lparr>c_mm := m\<lparr>mmap := [grown_vma v (q * 256)]\<rparr>,
                  c_mram := (c_mram c)\<lparr>free_fp_list := []\<rparr>\<rparr>)
     else
       Inr (0, c\<lparr>c_mm := m\<lparr>mmap := [grown_vma v (q * 256)],
                            pgd := mapped_pgd (pgd m) (e div 256) fs,
                            fifo_pgn := rev (map (\<lambda>i. e div 256 + int i) [0..<nat q]) @ fifo_pgn m\<rparr>,
                 c_mram := (c_mram c)\<lparr>free_fp_list := drop (nat q) (free_fp_list (c_mram c))\<rparr>\<rparr>))"
proof -
  have mm: "mmap (c_mm c) = [v]" "vm_start v = 0" using v by (simp_all add: one_vma_def)
  have "q \<le> 4194303" using q uint_ge_0 [of "vm_end v"] by linarith
  then have al': "PAGING_PAGE_ALIGNSZ (q * 256) = q * 256" "(q * 256) sdiv 256 = q"
    using q \<open>q \<le> 4194303\<close>
    by (auto simp: PAGING_PAGE_ALIGNSZ_multiple signed_divide_int_eq_divide_int)
  have e: "0 \<le> e" "int_of_u64 (vm_end v) = e" "e + q * 256 \<le> 4194304"
    using q unfolding e_def by (auto intro!: int_of_u64_small)
  have i32e: "i32 (e + q * 256) = e + q * 256" using e q by (simp add: i32_id)
  have rg: "uint (sbrk v + u64_of_int (q * 256)) = uint (sbrk v) + q * 256"
    using b q by (simp add: uint_add_of_int)
  have ints: "int_of_u64 (sbrk v) = uint (sbrk v)"
    "int_of_u64 (sbrk v + u64_of_int (q * 256)) = uint (sbrk v) + q * 256"
    using b q rg by (simp_all add: int_of_u64_small)
  let ?m1 = "(c_mm c)\<lparr>mmap := [v\<lparr>sbrk := sbrk v + u64_of_int (q * 256)\<rparr>]\<rparr>"
  have ov: "validate_overlap_vm_area ?m1 0 (uint (sbrk v)) (uint (sbrk v) + q * 256) < 0
      \<longleftrightarrow> e \<noteq> 0 \<and> uint (sbrk v) \<le> e"
    using overlap_one [of ?m1 "v\<lparr>sbrk := sbrk v + u64_of_int (q * 256)\<rparr>"] mm b q
    by (simp add: e_def uint_0_iff)
  have pgn: "PAGING_PGN (u32_of_int e) = e div 256" if "e < 4194304"
    using that e by (simp add: PAGING_PGN_int)
  have loop: "vmap_loop (e div 256) q 0 fs n = Inr (q, n\<lparr>pgd := mapped_pgd (pgd n) (e div 256) fs,
       fifo_pgn := rev (map (\<lambda>i. e div 256 + int i) [0..<nat q]) @ fifo_pgn n\<rparr>)"
    if "q \<le> int (length (free_fp_list (c_mram c)))" for n
  proof -
    have "length fs = nat q" using that q by (simp add: fs_def)
    moreover have "e div 256 + q \<le> 16384" using e by linarith
    ultimately show ?thesis
      using vmap_loop_result [of 0 "e div 256" fs q n] e q by simp
  qed
  have one: "get_vma_by_num (c_mm c) 0 = Inr (Some 0)" "get_vma_by_num ?m1 0 = Inr (Some 0)"
    using v get_vma_by_num_one [of "c_mm c" v 0]
      get_vma_by_num_one [of ?m1 "v\<lparr>sbrk := sbrk v + u64_of_int (q * 256)\<rparr>" 0]
    by (simp_all add: one_vma_def)
  show ?thesis
  proof (cases "e \<noteq> 0 \<and> uint (sbrk v) \<le> e")
    case True
    then show ?thesis
      using ov by (simp add: inc_vma_limit_def Let_def al' PAGING_PAGESZ_def
          get_vm_area_node_at_brk_def one mm upd_vma_def ints m_def)
  next
    case False
    have un: "inc_vma_limit u c 0 (q * 256) =
      rbind (vm_map_ram (c\<lparr>c_mm := m\<lparr>mmap := [grown_vma v (q * 256)]\<rparr>\<rparr>)
        (uint (sbrk v)) (uint (sbrk v) + q * 256) e q (u_rg u))
      (\<lambda>(ret, _, caller). if ret < 0 then Inr (-1, caller) else Inr (0, caller))"
      using ov False by (simp add: inc_vma_limit_def Let_def al' PAGING_PAGESZ_def
          get_vm_area_node_at_brk_def one mm upd_vma_def ints m_def e i32e grown_vma_def
          e_def [symmetric])
    show ?thesis
    proof (cases "int (length (free_fp_list (c_mram c))) < q")
      case True
      then show ?thesis
        using False by (auto simp: un vm_map_ram_def alloc_pages_range_def alloc_pages_loop_eq)
    next
      case enough: False
      moreover have "e < 4194304" using e q by linarith
      ultimately show ?thesis
        using False loop
        by (simp add: un vm_map_ram_def alloc_pages_range_def alloc_pages_loop_eq
            vmap_page_range_def pgn fs_def m_def Let_def)
    qed
  qed
qed

section \<open>The overlap test\<close>

text \<open>Its four cases are the macro \<open>OVERLAP\<close> of \<open>mm.h\<close>, over the areas that are not empty.\<close>

lemma overlap_loop_OVERLAP:
  assumes "\<forall>v \<in> set vs. vm_start v \<le> vm_end v" and "a \<le> b"
  shows "overlap_loop vs a b < 0 \<longleftrightarrow>
    (\<exists>v \<in> set vs. vm_start v \<noteq> vm_end v \<and> OVERLAP (uint (vm_start v)) (uint (vm_end v)) (uint a) (uint b))"
  using assms
proof (induction vs)
  case (Cons v vs)
  have "(vm_start v \<le> a \<and> a \<le> vm_end v) \<or> (vm_start v \<le> b \<and> b \<le> vm_end v) \<or> (a \<le> vm_start v \<and> vm_end v \<le> b) \<or>
      (vm_start v \<le> a \<and> b \<le> vm_end v) \<longleftrightarrow> OVERLAP (uint (vm_start v)) (uint (vm_end v)) (uint a) (uint b)"
    using Cons.prems by (auto simp: OVERLAP_def word_le_def)
  then show ?case using Cons by auto
qed simp

lemma validate_overlap_OVERLAP:
  assumes "\<forall>v \<in> set (mmap m). vm_start v \<le> vm_end v" and "0 \<le> a" "a \<le> b" "b < 2 ^ 31"
  shows "validate_overlap_vm_area m vmaid a b < 0 \<longleftrightarrow>
    (\<exists>v \<in> set (mmap m). vm_start v \<noteq> vm_end v \<and> OVERLAP (uint (vm_start v)) (uint (vm_end v)) a b)"
proof -
  have "uint (u64_of_int a) = a" "uint (u64_of_int b) = b" using assms(2-4) by (simp_all add: uint_u64_of_int)
  moreover have "u64_of_int a \<le> u64_of_int b" using calculation assms(3) by (simp add: word_le_def)
  ultimately show ?thesis
    using overlap_loop_OVERLAP [OF assms(1)] by (simp add: validate_overlap_vm_area_def)
qed

end
