(* ===== verification/Libmem.thy ===== *)
theory Libmem
  imports Vm
begin

text \<open>
  The memory library of a process (\<open>src/libmem.c\<close>): allocation and release of regions,
  the free-region list, demand paging with a FIFO victim, and byte access through the page
  table.  \<open>__alloc\<close>, \<open>__free\<close>, \<open>__read\<close> and \<open>__write\<close> of the source are
  \<open>rg_alloc\<close>, \<open>rg_free\<close>, \<open>rg_read\<close> and \<open>rg_write\<close> here.
\<close>

section \<open>The symbol table and the free-region list\<close>

text \<open>
  A pointer into \<open>symrgtbl\<close> is an index.  The guard of the source admits the index 30 of
  a 30-element array; reading or writing through that pointer is \<open>OutOfBounds\<close>.
\<close>

definition get_symrg_byid :: "mm_struct \<Rightarrow> int \<Rightarrow> int option" where
  "get_symrg_byid m rgid =
    (if rgid < 0 \<or> rgid > PAGING_MAX_SYMTBL_SZ then None else Some rgid)"

definition symrg_ref :: "mm_struct \<Rightarrow> int \<Rightarrow> vm_rg_struct outcome" where
  "symrg_ref m i =
    rbind (assert_that (0 \<le> i \<and> i < PAGING_MAX_SYMTBL_SZ) OutOfBounds) (\<lambda>_. Inr (symrgtbl m i))"

definition set_symrg :: "int \<Rightarrow> vm_rg_struct \<Rightarrow> vmctx \<Rightarrow> vmctx outcome" where
  "set_symrg i rg caller =
    rbind (assert_that (0 \<le> i \<and> i < PAGING_MAX_SYMTBL_SZ) OutOfBounds) (\<lambda>_.
    Inr (caller\<lparr>c_mm := (c_mm caller)\<lparr>symrgtbl := (symrgtbl (c_mm caller))(i := rg)\<rparr>\<rparr>))"

definition enlist_vm_freerg_list ::
  "mm_struct \<Rightarrow> vm_rg_struct \<Rightarrow> vm_rg_struct list \<Rightarrow> (int \<times> mm_struct) outcome" where
  "enlist_vm_freerg_list m rg_elmt rg_next =
    (case mmap m of
       [] \<Rightarrow> Inl NullDeref
     | v # _ \<Rightarrow>
         if rg_start rg_elmt \<ge> rg_end rg_elmt then Inr (-1, m)
         else
           (let rest = (if vm_freerg_list v \<noteq> [] then vm_freerg_list v else rg_next)
            in Inr (0, upd_vma 0 (\<lambda>v. v\<lparr>vm_freerg_list := rg_elmt # rest\<rparr>) m)))"

text \<open>
  The search loop of \<open>get_free_vmrg_area\<close>: \<open>pre\<close> are the nodes already passed,
  \<open>rgit\<close> the current node and those behind it.  A region that fits exactly is replaced
  by its successor (or emptied, when it is the last) and the loop goes on from the same
  node.  The first component of the result tells whether the loop left with
  \<open>return 0\<close>.  \<open>None\<close>: the loop never ends.
\<close>

partial_function (option) free_rg_loop ::
  "u64 \<Rightarrow> u64 \<Rightarrow> vm_rg_struct list \<Rightarrow> vm_rg_struct list \<Rightarrow> vm_rg_struct \<Rightarrow>
    (bool \<times> vm_rg_struct \<times> vm_rg_struct list) option" where
  "free_rg_loop vmaid sz pre rgit newrg =
    (case rgit of
       [] \<Rightarrow> Some (False, newrg, pre)
     | rg # nxt \<Rightarrow>
         if rg_vmaid rg \<noteq> vmaid then Some (False, newrg, pre @ rg # nxt)
         else if rg_start rg + sz \<le> rg_end rg then
           (let newrg' = newrg\<lparr>rg_start := rg_start rg, rg_end := rg_start rg + sz\<rparr> in
            if rg_start rg + sz < rg_end rg
            then Some (True, newrg', pre @ rg\<lparr>rg_start := rg_start rg + sz\<rparr> # nxt)
            else
              (case nxt of
                 nx # nxt' \<Rightarrow>
                   free_rg_loop vmaid sz pre
                     (rg\<lparr>rg_start := rg_start nx, rg_end := rg_end nx\<rparr> # nxt') newrg'
               | [] \<Rightarrow> free_rg_loop vmaid sz pre [rg\<lparr>rg_start := rg_end rg\<rparr>] newrg'))
         else free_rg_loop vmaid sz (pre @ [rg]) nxt newrg)"

definition get_free_vmrg_area ::
  "vmctx \<Rightarrow> int \<Rightarrow> int \<Rightarrow> vm_rg_struct \<Rightarrow> (int \<times> vm_rg_struct \<times> vmctx) outcome" where
  "get_free_vmrg_area caller vmaid size' newrg =
    rbind (rbind (get_vma_by_num (c_mm caller) vmaid) deref) (\<lambda>i.
    let rgit = vm_freerg_list (mmap (c_mm caller) ! i) in
    if rgit = [] then Inr (-1, newrg, caller)
    else
      (case free_rg_loop (u64_of_int vmaid) (u64_of_int size') [] rgit
              (newrg\<lparr>rg_start := u64_of_int (-1), rg_end := u64_of_int (-1)\<rparr>) of
         None \<Rightarrow> Inl Diverges
       | Some (returned, rg, l) \<Rightarrow>
           Inr (if returned then 0 else if rg_start rg = u64_of_int (-1) then -1 else 0, rg,
                caller\<lparr>c_mm := upd_vma i (\<lambda>v. v\<lparr>vm_freerg_list := l\<rparr>) (c_mm caller)\<rparr>)))"

section \<open>Allocating and releasing a region\<close>

definition lock_mmvm :: "vmctx \<Rightarrow> vmctx outcome" where
  "lock_mmvm caller = (if c_lock caller then Inl Deadlock else Inr (caller\<lparr>c_lock := True\<rparr>))"

definition unlock_mmvm :: "vmctx \<Rightarrow> vmctx" where
  "unlock_mmvm caller = caller\<lparr>c_lock := False\<rparr>"

text \<open>The result is the return value, the address written to \<open>alloc_addr\<close> and the state.\<close>

definition rg_alloc :: "uninit \<Rightarrow> vmctx \<Rightarrow> int \<Rightarrow> int \<Rightarrow> int \<Rightarrow> (int \<times> int \<times> vmctx) outcome" where
  "rg_alloc u caller vmaid rgid size' =
    rbind (lock_mmvm caller) (\<lambda>caller.
    if rgid < 0 \<or> rgid > PAGING_MAX_SYMTBL_SZ then Inr (-1, u_int u, unlock_mmvm caller)
    else
      rbind (get_free_vmrg_area caller vmaid size' ((u_rg u)\<lparr>rg_vmaid := u64_of_int vmaid\<rparr>))
        (\<lambda>(ret, rgnode, caller).
      if ret = 0 then
        rbind (set_symrg rgid rgnode caller) (\<lambda>caller.
        Inr (0, int_of_u64 (rg_start rgnode), unlock_mmvm caller))
      else
        rbind (rbind (get_vma_by_num (c_mm caller) vmaid) deref) (\<lambda>i.
        let cur_vma = mmap (c_mm caller) ! i;
            inc_sz = PAGING_PAGE_ALIGNSZ size';
            old_sbrk = int_of_u64 (sbrk cur_vma)
        in
        if vmaid = 0 then
          (let gap_size = int_of_u64 (vm_end cur_vma - u64_of_int old_sbrk);
               rg = \<lparr>rg_vmaid = u64_of_int vmaid, rg_start = u64_of_int old_sbrk,
                     rg_end = u64_of_int (i32 (old_sbrk + size'))\<rparr>
           in
           if gap_size \<ge> size' then
             (let caller = caller\<lparr>c_mm :=
                    upd_vma i (\<lambda>v. v\<lparr>sbrk := sbrk v + u64_of_int size'\<rparr>) (c_mm caller)\<rparr>
              in rbind (set_symrg rgid rg caller) (\<lambda>caller.
                 Inr (0, int_of_u64 (rg_start rgnode), unlock_mmvm caller)))
           else
             rbind (inc_vma_limit u caller vmaid inc_sz) (\<lambda>(_, caller).
             rbind (set_symrg rgid rg caller) (\<lambda>caller.
             let caller = caller\<lparr>c_mm :=
                    upd_vma i (\<lambda>v. v\<lparr>sbrk := sbrk v + u64_of_int size'\<rparr>) (c_mm caller)\<rparr>
             in Inr (0, int_of_u64 (rg_start rgnode), unlock_mmvm caller))))
        else if vmaid = 1 then
          (let gap_size = int_of_u64 (u64_of_int old_sbrk - vm_end cur_vma);
               rg = \<lparr>rg_vmaid = u64_of_int vmaid,
                     rg_start = u64_of_int (i32 (old_sbrk - size')),
                     rg_end = u64_of_int old_sbrk\<rparr>
           in
           if gap_size \<ge> size' then
             rbind (set_symrg rgid rg caller) (\<lambda>caller.
             Inr (0, int_of_u64 (rg_end rgnode), unlock_mmvm caller))
           else
             rbind (inc_vma_limit u caller vmaid inc_sz) (\<lambda>(_, caller).
             rbind (set_symrg rgid rg caller) (\<lambda>caller.
             let caller = caller\<lparr>c_mm :=
                    upd_vma i (\<lambda>v. v\<lparr>sbrk := sbrk v - u64_of_int size'\<rparr>) (c_mm caller)\<rparr>
             in Inr (0, int_of_u64 (rg_start rgnode), unlock_mmvm caller))))
        else Inr (-1, u_int u, unlock_mmvm caller))))"

definition rg_free :: "vmctx \<Rightarrow> int \<Rightarrow> int \<Rightarrow> (int \<times> vmctx) outcome" where
  "rg_free caller vmaid rgid =
    (if rgid < 0 \<or> rgid > PAGING_MAX_SYMTBL_SZ then Inr (-1, caller)
     else
       rbind (deref (get_symrg_byid (c_mm caller) rgid)) (\<lambda>i.
       rbind (symrg_ref (c_mm caller) i) (\<lambda>free_reg.
       rbind (set_symrg rgid
                (free_reg\<lparr>rg_start := u64_of_int (-1), rg_end := u64_of_int (-1)\<rparr>) caller) (\<lambda>caller.
       rbind (enlist_vm_freerg_list (c_mm caller) free_reg []) (\<lambda>(flag, m).
       Inr (if flag \<noteq> 0 then -1 else 0, caller\<lparr>c_mm := m\<rparr>))))))"

section \<open>Demand paging\<close>

text \<open>The walk to the last node of the page list, for a list that has one.\<close>

fun victim_walk :: "int list \<Rightarrow> int \<times> int list" where
  "victim_walk [] = (-1, [])"
| "victim_walk [pg] = (pg, [])"
| "victim_walk (prev # pg # rest) =
    (case victim_walk (pg # rest) of (v, rest') \<Rightarrow> (v, prev # rest'))"

definition find_victim_page :: "mm_struct \<Rightarrow> int \<times> int \<times> mm_struct" where
  "find_victim_page m =
    (case fifo_pgn m of
       [] \<Rightarrow> (-1, -1, m)
     | pg # rest \<Rightarrow>
         (case victim_walk (pg # rest) of (v, l) \<Rightarrow> (0, v, m\<lparr>fifo_pgn := l\<rparr>)))"

definition pgd_ref :: "mm_struct \<Rightarrow> int \<Rightarrow> u32 outcome" where
  "pgd_ref m p = rbind (assert_that (0 \<le> p \<and> p < int PAGING_MAX_PGN) OutOfBounds) (\<lambda>_. Inr (pgd m p))"

definition set_pte :: "int \<Rightarrow> u32 \<Rightarrow> mm_struct \<Rightarrow> mm_struct" where
  "set_pte p e m = m\<lparr>pgd := (pgd m)(p := e)\<rparr>"

text \<open>The swap-in branch of \<open>pg_getpage\<close>, for a page whose entry is not present.\<close>

definition pg_swapin :: "uninit \<Rightarrow> int \<Rightarrow> vmctx \<Rightarrow> (int \<times> vmctx) outcome" where
  "pg_swapin u pgn caller =
    (let tgtfpn = PAGING_PTE_SWP (pgd (c_mm caller) pgn) in
     case find_victim_page (c_mm caller) of (ret, vicpgn, m) \<Rightarrow>
       if ret \<noteq> 0 then Inr (-1, caller\<lparr>c_mm := m\<rparr>)
       else
         rbind (pgd_ref m vicpgn) (\<lambda>vicpte.
         let vicframe_num = PAGING_FPN vicpte in
         case MEMPHY_get_freefp (c_mswp caller) (u_int u) of (_, swpfpn, swp) \<Rightarrow>
           rbind (swap_cp_page (u_byte u) (c_mram caller) vicframe_num swp swpfpn) (\<lambda>(ram, swp).
           rbind (swap_cp_page (u_byte u) swp tgtfpn ram vicframe_num) (\<lambda>(swp, ram).
           let m = set_pte vicpgn (pte_set_swap (pgd m vicpgn) 0 swpfpn) m;
               m = set_pte pgn (pte_set_fpn (pgd m pgn) vicframe_num) m;
               m = m\<lparr>fifo_pgn := enlist_pgn_node (fifo_pgn m) pgn\<rparr>
           in Inr (0, caller\<lparr>c_mm := m, c_mram := ram, c_mswp := swp\<rparr>)))))"

text \<open>The result is the return value, what \<open>fpn\<close> points to afterwards and the state.\<close>

definition pg_getpage :: "uninit \<Rightarrow> int \<Rightarrow> int \<Rightarrow> vmctx \<Rightarrow> (int \<times> int \<times> vmctx) outcome" where
  "pg_getpage u pgn fpn caller =
    (if pgn < 0 \<or> pgn \<ge> int PAGING_MAX_PGN then Inr (-1, fpn, caller)
     else
       rbind (if \<not> PAGING_PAGE_PRESENT (pgd (c_mm caller) pgn) then pg_swapin u pgn caller
              else Inr (0, caller)) (\<lambda>(ret, caller).
       if ret \<noteq> 0 then Inr (-1, fpn, caller)
       else Inr (0, PAGING_FPN (pgd (c_mm caller) pgn), caller)))"

section \<open>Access to a byte of a process\<close>

definition phy_addr :: "int \<Rightarrow> int \<Rightarrow> int" where
  "phy_addr fpn off = i32 (push_bit PAGING_ADDR_FPN_LOBIT fpn + off)"

definition pg_getval :: "uninit \<Rightarrow> int \<Rightarrow> u8 \<Rightarrow> vmctx \<Rightarrow> (int \<times> u8 \<times> vmctx) outcome" where
  "pg_getval u addr data caller =
    (let pgn = PAGING_PGN (u32_of_int addr);
         off = PAGING_OFFST (u32_of_int addr)
     in rbind (pg_getpage u pgn (u_int u) caller) (\<lambda>(ret, fpn, caller).
        if ret \<noteq> 0 then Inr (-1, data, caller)
        else
          rbind (MEMPHY_read (c_mram caller) (phy_addr fpn off) data) (\<lambda>(_, data, ram).
          Inr (0, data, caller\<lparr>c_mram := ram\<rparr>))))"

definition pg_setval :: "uninit \<Rightarrow> int \<Rightarrow> u8 \<Rightarrow> vmctx \<Rightarrow> (int \<times> vmctx) outcome" where
  "pg_setval u addr value' caller =
    (let pgn = PAGING_PGN (u32_of_int addr);
         off = PAGING_OFFST (u32_of_int addr)
     in rbind (pg_getpage u pgn (u_int u) caller) (\<lambda>(ret, fpn, caller).
        if ret \<noteq> 0 then Inr (-1, caller)
        else
          rbind (MEMPHY_write (c_mram caller) (phy_addr fpn off) value') (\<lambda>(_, ram).
          Inr (0, caller\<lparr>c_mram := ram\<rparr>))))"

text \<open>The address \<open>currg->rg_start + offset\<close>, as the \<open>int\<close> that is passed on.\<close>

definition rg_addr :: "vm_rg_struct \<Rightarrow> int \<Rightarrow> int" where
  "rg_addr rg offset = int_of_u64 (rg_start rg + u64_of_int offset)"

definition rg_read :: "uninit \<Rightarrow> vmctx \<Rightarrow> int \<Rightarrow> int \<Rightarrow> int \<Rightarrow> u8 \<Rightarrow> (int \<times> u8 \<times> vmctx) outcome" where
  "rg_read u caller vmaid rgid offset data =
    rbind (get_vma_by_num (c_mm caller) vmaid) (\<lambda>cur_vma.
    case (get_symrg_byid (c_mm caller) rgid, cur_vma) of
      (Some i, Some _) \<Rightarrow>
        rbind (symrg_ref (c_mm caller) i) (\<lambda>currg.
        rbind (pg_getval u (rg_addr currg offset) data caller) (\<lambda>(_, data, caller).
        Inr (0, data, caller)))
    | _ \<Rightarrow> Inr (-1, data, caller))"

definition rg_write :: "uninit \<Rightarrow> vmctx \<Rightarrow> int \<Rightarrow> int \<Rightarrow> int \<Rightarrow> u8 \<Rightarrow> (int \<times> vmctx) outcome" where
  "rg_write u caller vmaid rgid offset value' =
    rbind (get_vma_by_num (c_mm caller) vmaid) (\<lambda>cur_vma.
    case (get_symrg_byid (c_mm caller) rgid, cur_vma) of
      (Some i, Some _) \<Rightarrow>
        rbind (symrg_ref (c_mm caller) i) (\<lambda>currg.
        rbind (pg_setval u (rg_addr currg offset) value' caller) (\<lambda>(_, caller).
        Inr (0, caller)))
    | _ \<Rightarrow> Inr (-1, caller))"

section \<open>The library calls of an instruction\<close>

text \<open>
  The dump each call prints under \<open>IODUMP\<close>: the rows of the page table and the pages
  marked present with their frame field.  The printed text is not part of the state; the
  calls keep the accesses it makes (the first area is dereferenced).
\<close>

definition present_pages :: "mm_struct \<Rightarrow> (int \<times> int) list" where
  "present_pages m =
    map (\<lambda>i. (i, PAGING_FPN (pgd m i)))
      (filter (\<lambda>i. PAGING_PAGE_PRESENT (pgd m i)) [0..int PAGING_MAX_PGN - 1])"

definition io_dump :: "mm_struct \<Rightarrow> u32 outcome \<Rightarrow> ((int \<times> u32) list \<times> (int \<times> int) list) outcome" where
  "io_dump m e = rbind e (\<lambda>e. rbind (print_pgtbl m 0 e) (\<lambda>rows. Inr (rows, present_pages m)))"

definition mmap_end :: "mm_struct \<Rightarrow> u32 outcome" where
  "mmap_end m = (case mmap m of [] \<Rightarrow> Inl NullDeref | v # _ \<Rightarrow> Inr (ucast (vm_end v)))"

definition liballoc :: "uninit \<Rightarrow> vmctx \<Rightarrow> u32 \<Rightarrow> u32 \<Rightarrow> (int \<times> vmctx) outcome" where
  "liballoc u proc size' reg_index =
    rbind (rg_alloc u proc 0 (int_of_u32 reg_index) (int_of_u32 size')) (\<lambda>(ret, _, proc).
    rbind (io_dump (c_mm proc) (mmap_end (c_mm proc))) (\<lambda>_.
    Inr (ret, proc)))"

definition libfree :: "vmctx \<Rightarrow> u32 \<Rightarrow> (int \<times> vmctx) outcome" where
  "libfree proc reg_index =
    rbind (rg_free proc 0 (int_of_u32 reg_index)) (\<lambda>(ret, proc).
    rbind (io_dump (c_mm proc) (mmap_end (c_mm proc))) (\<lambda>_.
    Inr (ret, proc)))"

definition libread :: "uninit \<Rightarrow> vmctx \<Rightarrow> u32 \<Rightarrow> u32 \<Rightarrow> (int \<times> u32 \<times> vmctx) outcome" where
  "libread u proc source offset =
    rbind (rg_read u proc 0 (int_of_u32 source) (int_of_u32 offset) (u_byte u)) (\<lambda>(val, data, proc).
    rbind (io_dump (c_mm proc) (Inr (u32_of_int (-1)))) (\<lambda>_.
    Inr (val, u32_of_byte data, proc)))"

definition libwrite :: "uninit \<Rightarrow> vmctx \<Rightarrow> u8 \<Rightarrow> u32 \<Rightarrow> u32 \<Rightarrow> (int \<times> vmctx) outcome" where
  "libwrite u proc data destination offset =
    rbind (rg_write u proc 0 (int_of_u32 destination) (int_of_u32 offset) data) (\<lambda>(ret, proc).
    rbind (io_dump (c_mm proc) (Inr (u32_of_int (-1)))) (\<lambda>_.
    Inr (ret, proc)))"

text \<open>\<open>free_pcb_memph\<close>: one round of its loop per page number.\<close>

fun free_memph_loop :: "int list \<Rightarrow> vmctx \<Rightarrow> vmctx" where
  "free_memph_loop [] caller = caller"
| "free_memph_loop (pagenum # rest) caller =
    (let pte = pgd (c_mm caller) pagenum in
     free_memph_loop rest
       (if \<not> PAGING_PAGE_PRESENT pte
        then caller\<lparr>c_mram := MEMPHY_put_freefp (c_mram caller) (PAGING_FPN pte)\<rparr>
        else caller\<lparr>c_mswp := MEMPHY_put_freefp (c_mswp caller) (PAGING_PTE_SWP pte)\<rparr>))"

definition free_pcb_memph :: "vmctx \<Rightarrow> int \<times> vmctx" where
  "free_pcb_memph caller = (0, free_memph_loop [0..int PAGING_MAX_PGN - 1] caller)"

section \<open>The page list is a FIFO queue\<close>

lemma victim_walk_eq: "l \<noteq> [] \<Longrightarrow> victim_walk l = (last l, butlast l)"
  by (induction l rule: victim_walk.induct) auto

lemma find_victim_page_Nil: "fifo_pgn m = [] \<Longrightarrow> find_victim_page m = (-1, -1, m)"
  by (simp add: find_victim_page_def)

lemma find_victim_page_eq:
  "fifo_pgn m \<noteq> [] \<Longrightarrow>
    find_victim_page m = (0, last (fifo_pgn m), m\<lparr>fifo_pgn := butlast (fifo_pgn m)\<rparr>)"
  by (auto simp: find_victim_page_def victim_walk_eq simp del: victim_walk.simps split: list.splits)

text \<open>
  The contract of a FIFO queue over the list of its items, newest first, and what it
  gives: items leave in the order they came.
\<close>

locale fifo_queue =
  fixes enq :: "'q \<Rightarrow> 'a \<Rightarrow> 'q"
    and deq :: "'q \<Rightarrow> ('a \<times> 'q) option"
    and items :: "'q \<Rightarrow> 'a list"
  assumes items_enq: "items (enq q x) = x # items q"
    and deq_None_iff: "deq q = None \<longleftrightarrow> items q = []"
    and items_deq: "deq q = Some (x, q') \<Longrightarrow> items q = items q' @ [x]"
begin

fun enq_all :: "'q \<Rightarrow> 'a list \<Rightarrow> 'q" where
  "enq_all q [] = q"
| "enq_all q (x # xs) = enq_all (enq q x) xs"

fun drain :: "nat \<Rightarrow> 'q \<Rightarrow> 'a list \<times> 'q" where
  "drain 0 q = ([], q)"
| "drain (Suc n) q =
    (case deq q of None \<Rightarrow> ([], q) | Some (x, q') \<Rightarrow> (case drain n q' of (xs, q'') \<Rightarrow> (x # xs, q'')))"

lemma items_enq_all: "items (enq_all q xs) = rev xs @ items q"
  by (induction xs arbitrary: q) (simp_all add: items_enq)

lemma fst_drain: "fst (drain n q) = take n (rev (items q))"
proof (induction n arbitrary: q)
  case (Suc n)
  show ?case
  proof (cases "deq q")
    case None
    then show ?thesis using deq_None_iff [of q] by simp
  next
    case (Some xq)
    then obtain x q' where xq: "deq q = Some (x, q')" by (cases xq) auto
    then show ?thesis using Suc [of q'] items_deq [OF xq] by (auto split: prod.splits)
  qed
qed simp

lemma first_in_first_out:
  "items q = [] \<Longrightarrow> n \<le> length xs \<Longrightarrow> fst (drain n (enq_all q xs)) = take n xs"
  by (simp add: fst_drain items_enq_all)

end

definition enlist_page :: "mm_struct \<Rightarrow> int \<Rightarrow> mm_struct" where
  "enlist_page m p = m\<lparr>fifo_pgn := enlist_pgn_node (fifo_pgn m) p\<rparr>"

definition take_victim :: "mm_struct \<Rightarrow> (int \<times> mm_struct) option" where
  "take_victim m = (case find_victim_page m of (ret, p, m') \<Rightarrow> if ret = 0 then Some (p, m') else None)"

interpretation victims: fifo_queue enlist_page take_victim fifo_pgn
proof unfold_locales
  show "fifo_pgn (enlist_page m p) = p # fifo_pgn m" for m p
    by (simp add: enlist_page_def enlist_pgn_node_def)
  show "take_victim m = None \<longleftrightarrow> fifo_pgn m = []" for m
    by (cases "fifo_pgn m = []") (simp_all add: take_victim_def find_victim_page_Nil find_victim_page_eq)
  show "take_victim m = Some (p, m') \<Longrightarrow> fifo_pgn m = fifo_pgn m' @ [p]" for m p m'
    by (cases "fifo_pgn m = []")
      (auto simp: take_victim_def find_victim_page_Nil find_victim_page_eq)
qed

text \<open>What repeated calls of \<open>find_victim_page\<close> hand out after a list of arrivals.\<close>

fun victims_of :: "nat \<Rightarrow> mm_struct \<Rightarrow> int list" where
  "victims_of 0 m = []"
| "victims_of (Suc n) m = (case find_victim_page m of (ret, p, m') \<Rightarrow> if ret = 0 then p # victims_of n m' else [])"

fun enlist_pages :: "mm_struct \<Rightarrow> int list \<Rightarrow> mm_struct" where
  "enlist_pages m [] = m"
| "enlist_pages m (p # ps) = enlist_pages (m\<lparr>fifo_pgn := enlist_pgn_node (fifo_pgn m) p\<rparr>) ps"

lemma victims_of_drain: "victims_of n m = fst (victims.drain n m)"
  by (induction n arbitrary: m) (auto simp: take_victim_def split: prod.splits)

lemma enlist_pages_enq: "enlist_pages m ps = victims.enq_all m ps"
  by (induction ps arbitrary: m) (simp_all add: enlist_page_def)

end
