(* ===== verification/Pcb.thy ===== *)
theory Pcb
  imports Libmem "HOL-Library.List_Lexorder"
begin

text \<open>
  Processes (\<open>include/common.h\<close>): instructions, code segments and process control
  blocks, and the heap that holds the PCBs.  A \<open>struct pcb_t *\<close> is a number (the null
  pointer is \<open>None\<close> where a pointer may be null); a block that was freed is no longer
  in the heap.  The memory devices, which every PCB points to, are part of the kernel
  state of \<open>Kernel\<close>.
\<close>

section \<open>Instructions and programs\<close>

datatype ins_opcode_t = CALC | ALLOC | FREE | READ | WRITE | SYSCALL

text \<open>The enumeration's values, in the order of its declaration.\<close>

fun opcode_number :: "ins_opcode_t \<Rightarrow> nat" where
  "opcode_number CALC = 0"
| "opcode_number ALLOC = 1"
| "opcode_number FREE = 2"
| "opcode_number READ = 3"
| "opcode_number WRITE = 4"
| "opcode_number SYSCALL = 5"

lemma opcode_number_inj: "opcode_number a = opcode_number b \<Longrightarrow> a = b"
  by (cases a; cases b) simp_all

instantiation ins_opcode_t :: linorder
begin

definition less_eq_ins_opcode_t :: "ins_opcode_t \<Rightarrow> ins_opcode_t \<Rightarrow> bool" where
  "less_eq_ins_opcode_t a b \<longleftrightarrow> opcode_number a \<le> opcode_number b"

definition less_ins_opcode_t :: "ins_opcode_t \<Rightarrow> ins_opcode_t \<Rightarrow> bool" where
  "less_ins_opcode_t a b \<longleftrightarrow> opcode_number a < opcode_number b"

instance
  by standard (auto simp: less_eq_ins_opcode_t_def less_ins_opcode_t_def opcode_number_inj)

end

record inst_t =
  opcode :: ins_opcode_t
  arg_0 :: u32
  arg_1 :: u32
  arg_2 :: u32
  arg_3 :: u32

record code_seg_t =
  code_text :: "inst_t list"
  code_size :: u32

section \<open>Process control blocks\<close>

text \<open>The scheduler's queues that a PCB points to.\<close>

datatype queue_ptr = ReadyQueue | RunningList | MlqReadyQueue

type_synonym pcb_ptr = nat

record pcb_t =
  pid :: u32
  priority :: u32
  path :: string
  pcb_code :: code_seg_t
  regs :: "nat \<Rightarrow> u32"
  pc :: u32
  p_ready_queue :: "queue_ptr option"
  p_running_list :: "queue_ptr option"
  p_mlq_ready_queue :: "queue_ptr option"
  prio :: u32
  mm :: mm_struct
  page_table_size :: int
  bp :: u32

type_synonym heap = "pcb_ptr \<Rightarrow> pcb_t option"

text \<open>Reading the block a pointer leads to.\<close>

definition pcb_at :: "heap \<Rightarrow> pcb_ptr \<Rightarrow> pcb_t outcome" where
  "pcb_at h p = (case h p of None \<Rightarrow> Inl UseAfterFree | Some b \<Rightarrow> Inr b)"

lemma pcb_at_Some [simp]: "h p = Some b \<Longrightarrow> pcb_at h p = Inr b"
  by (simp add: pcb_at_def)

lemma pcb_at_None [simp]: "h p = None \<Longrightarrow> pcb_at h p = Inl UseAfterFree"
  by (simp add: pcb_at_def)

lemma pcb_at_Inr: "pcb_at h p = Inr b \<longleftrightarrow> h p = Some b"
  by (simp add: pcb_at_def split: option.split)

text \<open>The key by which \<open>dequeue\<close> orders the processes of one queue.\<close>

definition pcb_key :: "heap \<Rightarrow> pcb_ptr \<Rightarrow> u32" where
  "pcb_key h p = (case h p of None \<Rightarrow> 0 | Some b \<Rightarrow> priority b)"

end
