(* ===== verification/Queue.thy ===== *)
theory Queue
  imports Pcb "HOL-Library.Multiset"
begin

text \<open>
  The process queues (\<open>src/queue.c\<close>): an array of ten pointers with its fill count.
  \<open>dequeue\<close> (the \<open>MLQ_SCHED\<close> version, which is the one compiled) removes the process
  whose \<open>priority\<close> field is least, the first of them on a tie.  The queue refines the
  list of its entries, and the locale \<open>bounded_pqueue\<close> states what its clients rely on.
  Queue pointers are the addresses of the scheduler's static queues and never null.
\<close>

section \<open>State and operations\<close>

definition MAX_QUEUE_SIZE :: nat where
  "MAX_QUEUE_SIZE = 10"

record queue_t =
  q_proc :: "nat \<Rightarrow> pcb_ptr"
  q_size :: nat

definition empty :: "queue_t \<Rightarrow> bool" where
  "empty q \<longleftrightarrow> q_size q = 0"

definition enqueue :: "queue_t \<Rightarrow> pcb_ptr option \<Rightarrow> queue_t" where
  "enqueue q proc =
    (case proc of
       None \<Rightarrow> q
     | Some p \<Rightarrow>
         if q_size q \<ge> MAX_QUEUE_SIZE then q
         else q\<lparr>q_proc := (q_proc q)(q_size q := p), q_size := q_size q + 1\<rparr>)"

definition queue_traversal :: "queue_t \<Rightarrow> int option \<Rightarrow> (pcb_ptr option \<times> int option) outcome" where
  "queue_traversal q idx =
    (if q_size q = 0 then Inr (None, idx)
     else case idx of
       None \<Rightarrow> Inr (None, None)
     | Some i \<Rightarrow>
         if i \<ge> int (q_size q) then Inr (None, Some i)
         else rbind (assert_that (0 \<le> i \<and> i < int MAX_QUEUE_SIZE) OutOfBounds) (\<lambda>_.
              Inr (Some (q_proc q (nat i)), Some (i + 1))))"

definition q_entry :: "queue_t \<Rightarrow> nat \<Rightarrow> pcb_ptr outcome" where
  "q_entry q i = rbind (assert_that (i < MAX_QUEUE_SIZE) OutOfBounds) (\<lambda>_. Inr (q_proc q i))"

text \<open>The first loop of \<open>dequeue\<close>, from index \<open>i\<close> on.\<close>

function highest_loop :: "heap \<Rightarrow> queue_t \<Rightarrow> nat \<Rightarrow> pcb_ptr \<Rightarrow> nat \<Rightarrow> (pcb_ptr \<times> nat) outcome" where
  "highest_loop h q i highest highest_index =
    (if i < q_size q then
       rbind (q_entry q i) (\<lambda>p.
       rbind (pcb_at h p) (\<lambda>b.
       rbind (pcb_at h highest) (\<lambda>bh.
       if priority b < priority bh then highest_loop h q (i + 1) p i
       else highest_loop h q (i + 1) highest highest_index)))
     else Inr (highest, highest_index))"
  by pat_completeness auto
termination
  by (relation "measure (\<lambda>(h, q, i, _). q_size q - i)") auto

declare highest_loop.simps [simp del]

text \<open>The second loop: the entries behind the removed one move up.\<close>

function shift_loop :: "nat \<Rightarrow> nat \<Rightarrow> (nat \<Rightarrow> pcb_ptr) \<Rightarrow> nat \<Rightarrow> pcb_ptr" where
  "shift_loop size' i proc =
    (if i < size' - 1 then shift_loop size' (i + 1) (proc(i := proc (i + 1))) else proc)"
  by pat_completeness auto
termination
  by (relation "measure (\<lambda>(size', i, _). size' - i)") auto

declare shift_loop.simps [simp del]

definition dequeue :: "heap \<Rightarrow> queue_t \<Rightarrow> (pcb_ptr option \<times> queue_t) outcome" where
  "dequeue h q =
    (if q_size q = 0 then Inr (None, q)
     else
       rbind (q_entry q 0) (\<lambda>p0.
       rbind (highest_loop h q 1 p0 0) (\<lambda>(highest, highest_index).
       Inr (Some highest,
            q\<lparr>q_proc := shift_loop (q_size q) highest_index (q_proc q), q_size := q_size q - 1\<rparr>))))"

text \<open>The version for \<open>MLQ_SCHED\<close> undefined: first in, first out.\<close>

definition dequeue_fifo :: "queue_t \<Rightarrow> pcb_ptr option \<times> queue_t" where
  "dequeue_fifo q =
    (if q_size q = 0 then (None, q)
     else (Some (q_proc q 0), q\<lparr>q_proc := shift_loop (q_size q) 0 (q_proc q), q_size := q_size q - 1\<rparr>))"

section \<open>The list of entries\<close>

definition q_list :: "queue_t \<Rightarrow> pcb_ptr list" where
  "q_list q = map (q_proc q) [0..<q_size q]"

definition q_wf :: "queue_t \<Rightarrow> bool" where
  "q_wf q \<longleftrightarrow> q_size q \<le> MAX_QUEUE_SIZE"

definition q_live :: "heap \<Rightarrow> queue_t \<Rightarrow> bool" where
  "q_live h q \<longleftrightarrow> (\<forall>p \<in> set (q_list q). h p \<noteq> None)"

text \<open>The number of entries as the size of a queue.\<close>

instantiation queue_t_ext :: (type) size
begin

definition size_queue_t_ext :: "'a queue_t_ext \<Rightarrow> nat" where
  "size_queue_t_ext q = q_size (queue_t.truncate q)"

instance ..

end

lemma size_queue [simp]: "size (q :: queue_t) = length (q_list q)"
  by (simp add: size_queue_t_ext_def q_list_def queue_t.defs)

lemma length_q_list [simp]: "length (q_list q) = q_size q"
  by (simp add: q_list_def)

lemma nth_q_list [simp]: "i < q_size q \<Longrightarrow> q_list q ! i = q_proc q i"
  by (simp add: q_list_def)

lemma empty_iff: "empty q \<longleftrightarrow> q_list q = []"
  by (simp add: empty_def q_list_def)

lemma enqueue_None [simp]: "enqueue q None = q"
  by (simp add: enqueue_def)

lemma q_list_enqueue:
  "q_list (enqueue q (Some p)) = (if q_size q < MAX_QUEUE_SIZE then q_list q @ [p] else q_list q)"
  by (auto simp: enqueue_def q_list_def)

lemma enqueue_full: "MAX_QUEUE_SIZE \<le> q_size q \<Longrightarrow> enqueue q p = q"
  by (auto simp: enqueue_def split: option.split)

lemma q_size_enqueue:
  "q_size (enqueue q (Some p)) = (if q_size q < MAX_QUEUE_SIZE then q_size q + 1 else q_size q)"
  by (simp add: enqueue_def)

lemma q_wf_enqueue: "q_wf q \<Longrightarrow> q_wf (enqueue q p)"
  by (cases p) (auto simp: q_wf_def q_size_enqueue)

section \<open>dequeue finds the least priority value\<close>

lemma shift_loop_eq:
  "i \<le> n \<Longrightarrow> shift_loop (Suc n) i f = (\<lambda>k. if i \<le> k \<and> k < n then f (k + 1) else f k)"
proof (induction "n - i" arbitrary: i f)
  case 0
  then show ?case by (subst shift_loop.simps) (auto simp: fun_eq_iff)
next
  case (Suc d)
  have "i < n" using Suc.hyps(2) by linarith
  then have "shift_loop (Suc n) i f = shift_loop (Suc n) (i + 1) (f(i := f (i + 1)))"
    by (subst shift_loop.simps) simp
  also have "\<dots> = (\<lambda>k. if i + 1 \<le> k \<and> k < n then (f(i := f (i + 1))) (k + 1) else (f(i := f (i + 1))) k)"
    using Suc.hyps(2) \<open>i < n\<close> by (intro Suc.hyps(1)) linarith+
  also have "\<dots> = (\<lambda>k. if i \<le> k \<and> k < n then f (k + 1) else f k)"
    using \<open>i < n\<close> by (auto simp: fun_eq_iff)
  finally show ?case .
qed

lemma shift_removes:
  assumes "k < q_size q"
  shows "q_list (q\<lparr>q_proc := shift_loop (q_size q) k (q_proc q), q_size := q_size q - 1\<rparr>) =
    take k (q_list q) @ drop (Suc k) (q_list q)"
proof -
  obtain n where n: "q_size q = Suc n" using assms by (cases "q_size q") simp_all
  show ?thesis
    using assms unfolding n
    by (intro nth_equalityI) (auto simp: q_list_def shift_loop_eq n nth_append intro!: arg_cong [where f = "q_proc q"])
qed

text \<open>The index of the least priority value among the first \<open>n\<close> entries, the first on a tie.\<close>

definition least_entry :: "heap \<Rightarrow> pcb_ptr list \<Rightarrow> nat \<Rightarrow> nat \<Rightarrow> bool" where
  "least_entry h l n k \<longleftrightarrow> k < n \<and> (\<forall>j < k. pcb_key h (l ! k) < pcb_key h (l ! j)) \<and>
    (\<forall>j < n. pcb_key h (l ! k) \<le> pcb_key h (l ! j))"

lemma least_entry_step:
  assumes "least_entry h l n k"
  shows "least_entry h l (Suc n) (if pcb_key h (l ! n) < pcb_key h (l ! k) then n else k)"
  using assms by (auto simp: least_entry_def less_Suc_eq intro: order_less_le_trans order_less_imp_le)

lemma highest_loop_ok:
  assumes wf: "q_wf q" and live: "q_live h q"
    and "i \<le> q_size q" and "least_entry h (q_list q) i k"
  shows "\<exists>k'. highest_loop h q i (q_proc q k) k = Inr (q_proc q k', k') \<and> least_entry h (q_list q) (q_size q) k'"
  using assms(3,4)
proof (induction "q_size q - i" arbitrary: i k)
  case 0
  then show ?case by (subst highest_loop.simps) (auto intro!: exI [of _ k])
next
  case (Suc d)
  have lt: "i < q_size q" and k: "k < i" using Suc.hyps(2) Suc.prems by (auto simp: least_entry_def)
  have alive: "\<exists>b. h (q_proc q j) = Some b \<and> pcb_key h (q_proc q j) = priority b" if "j < q_size q" for j
  proof -
    have "q_proc q j \<in> set (q_list q)" using that by (simp add: q_list_def)
    then show ?thesis using live by (auto simp: q_live_def pcb_key_def)
  qed
  obtain b where b: "h (q_proc q i) = Some b" "pcb_key h (q_proc q i) = priority b"
    using alive [OF lt] by blast
  obtain bk where bk: "h (q_proc q k) = Some bk" "pcb_key h (q_proc q k) = priority bk"
    using alive [of k] lt k by auto
  let ?k = "if priority b < priority bk then i else k"
  have "highest_loop h q i (q_proc q k) k = highest_loop h q (i + 1) (q_proc q ?k) ?k"
    using lt wf b(1) bk(1) by (subst highest_loop.simps) (simp add: q_entry_def q_wf_def)
  moreover have "least_entry h (q_list q) (i + 1) ?k"
    using least_entry_step [OF Suc.prems(2)] lt k b bk by simp
  ultimately show ?case
    using Suc.hyps(1) [of "i + 1" ?k] Suc.hyps(2) lt by simp
qed

lemma dequeue_ok:
  assumes "q_wf q" and "q_live h q" and "q_size q \<noteq> 0"
  shows "\<exists>k q'. dequeue h q = Inr (Some (q_list q ! k), q') \<and> least_entry h (q_list q) (q_size q) k \<and>
    q_list q' = take k (q_list q) @ drop (Suc k) (q_list q) \<and> q_size q = Suc (q_size q')"
proof -
  have "least_entry h (q_list q) 1 0" by (simp add: least_entry_def)
  then obtain k where k: "highest_loop h q 1 (q_proc q 0) 0 = Inr (q_proc q k, k)"
    "least_entry h (q_list q) (q_size q) k"
    using highest_loop_ok [OF assms(1,2), of 1 0] assms(3) by auto
  let ?q = "q\<lparr>q_proc := shift_loop (q_size q) k (q_proc q), q_size := q_size q - 1\<rparr>"
  have "k < q_size q" using k(2) by (simp add: least_entry_def)
  moreover have "dequeue h q = Inr (Some (q_list q ! k), ?q)"
    using assms k \<open>k < q_size q\<close> by (simp add: dequeue_def q_entry_def MAX_QUEUE_SIZE_def)
  ultimately show ?thesis
    using k(2) shift_removes [of k q] assms(3) by (intro exI [of _ k] exI [of _ ?q]) simp
qed

lemma dequeue_empty [simp]: "q_size q = 0 \<Longrightarrow> dequeue h q = Inr (None, q)"
  by (simp add: dequeue_def)

lemma q_wf_dequeue:
  assumes "q_wf q" and "dequeue h q = Inr (p, q')"
  shows "q_wf q'"
  using assms by (auto simp: dequeue_def q_wf_def rbind_Inr_iff split: if_splits)

lemma dequeue_fifo_ok:
  "q_size q \<noteq> 0 \<Longrightarrow> dequeue_fifo q =
    (Some (hd (q_list q)), q\<lparr>q_proc := shift_loop (q_size q) 0 (q_proc q), q_size := q_size q - 1\<rparr>) \<and>
    q_list (snd (dequeue_fifo q)) = tl (q_list q)"
  using shift_removes [of 0 q] by (simp add: dequeue_fifo_def hd_conv_nth drop_Suc flip: length_0_conv)

section \<open>The contract of a bounded priority queue\<close>

text \<open>
  What the scheduler relies on: entries join at the end while there is room and are
  refused otherwise; \<open>get\<close> removes the first entry with the least key.  A queue of
  equal keys is then a FIFO, and emptying a queue sorts its entries, keeping the order of
  those with equal keys.
\<close>

locale bounded_pqueue =
  fixes put :: "'q \<Rightarrow> 'a \<Rightarrow> 'q"
    and get :: "'q \<Rightarrow> ('a \<times> 'q) option"
    and items :: "'q \<Rightarrow> 'a list"
    and valid :: "'q \<Rightarrow> bool"
    and alive :: "'a \<Rightarrow> bool"
    and key :: "'a \<Rightarrow> 'k :: linorder"
    and cap :: nat
  assumes items_put: "length (items q) < cap \<Longrightarrow> items (put q x) = items q @ [x]"
    and put_full: "cap \<le> length (items q) \<Longrightarrow> put q x = q"
    and valid_put: "valid q \<Longrightarrow> alive x \<Longrightarrow> valid (put q x)"
    and get_None_iff: "valid q \<Longrightarrow> get q = None \<longleftrightarrow> items q = []"
    and get_Some: "valid q \<Longrightarrow> get q = Some (x, q') \<Longrightarrow> valid q' \<and>
      (\<exists>pre post. items q = pre @ x # post \<and> items q' = pre @ post \<and>
        (\<forall>y \<in> set pre. key x < key y) \<and> (\<forall>y \<in> set post. key x \<le> key y))"
begin

fun drain :: "nat \<Rightarrow> 'q \<Rightarrow> 'a list \<times> 'q" where
  "drain 0 q = ([], q)"
| "drain (Suc n) q =
    (case get q of None \<Rightarrow> ([], q) | Some (x, q') \<Rightarrow> (case drain n q' of (xs, q'') \<Rightarrow> (x # xs, q'')))"

lemma get_mset: "valid q \<Longrightarrow> get q = Some (x, q') \<Longrightarrow> mset (items q) = add_mset x (mset (items q'))"
  using get_Some by fastforce

lemma get_least: "valid q \<Longrightarrow> get q = Some (x, q') \<Longrightarrow> y \<in> set (items q) \<Longrightarrow> key x \<le> key y"
  using get_Some [of q x q'] by (fastforce dest: order_less_imp_le)

lemma sort_key_remove:
  assumes "\<forall>y \<in> set pre. key x < key y" and "\<forall>y \<in> set post. key x \<le> key y"
  shows "sort_key key (pre @ x # post) = x # sort_key key (pre @ post)"
proof (rule properties_for_sort_key)
  fix k assume "k \<in> set (x # sort_key key (pre @ post))"
  have "filter (\<lambda>y. key k = key y) pre = []" if "key k = key x"
    using assms(1) that by (auto simp: filter_empty_conv)
  then show "filter (\<lambda>y. key k = key y) (x # sort_key key (pre @ post)) =
      filter (\<lambda>y. key k = key y) (pre @ x # post)"
    using sort_key_stable [of key "key k" "pre @ post"] by (auto simp: eq_commute [of "key k"])
next
  show "sorted (map key (x # sort_key key (pre @ post)))"
    using assms by (auto intro: order_less_imp_le)
qed simp

lemma drain_sorts: "valid q \<Longrightarrow> fst (drain (length (items q)) q) = sort_key key (items q)"
proof (induction "length (items q)" arbitrary: q)
  case 0
  then show ?case by simp
next
  case (Suc n)
  have "items q \<noteq> []" using Suc.hyps(2) by auto
  then obtain x q' where g: "get q = Some (x, q')"
    using get_None_iff [OF Suc.prems] by (cases "get q") auto
  obtain pre post where s: "items q = pre @ x # post" "items q' = pre @ post" "valid q'"
    "\<forall>y \<in> set pre. key x < key y" "\<forall>y \<in> set post. key x \<le> key y"
    using get_Some [OF Suc.prems g] by blast
  then have "n = length (items q')" using Suc.hyps(2) by simp
  moreover have "length (items q) = Suc n" using Suc.hyps(2) by simp
  ultimately show ?case
    using Suc.hyps(1) [of q'] s g sort_key_remove [of pre x post]
    by (cases "drain n q'") simp
qed

lemma same_key_fifo:
  assumes "valid q" and "\<forall>x \<in> set (items q). key x = k"
  shows "fst (drain (length (items q)) q) = items q"
proof -
  have "sorted (map key (items q))"
    using assms(2) by (simp add: sorted_wrt_map sorted_wrt_iff_nth_less)
  then show ?thesis
    using drain_sorts [OF assms(1)] by (simp add: sorted_sort_id sort_key_id_if_sorted)
qed

end

definition q_get :: "heap \<Rightarrow> queue_t \<Rightarrow> (pcb_ptr \<times> queue_t) option" where
  "q_get h q = (case dequeue h q of Inr (Some p, q') \<Rightarrow> Some (p, q') | _ \<Rightarrow> None)"

definition q_put :: "queue_t \<Rightarrow> pcb_ptr \<Rightarrow> queue_t" where
  "q_put q p = enqueue q (Some p)"

lemma q_get_Some:
  "q_wf q \<Longrightarrow> q_live h q \<Longrightarrow> q_get h q = Some (p, q') \<Longrightarrow> dequeue h q = Inr (Some p, q')"
  by (auto simp: q_get_def split: sum.splits option.splits prod.splits)

lemma least_entry_split:
  assumes "least_entry h l (length l) k"
  shows "l = take k l @ l ! k # drop (Suc k) l"
    and "\<forall>y \<in> set (take k l). pcb_key h (l ! k) < pcb_key h y"
    and "\<forall>y \<in> set (drop (Suc k) l). pcb_key h (l ! k) \<le> pcb_key h y"
  using assms
  by (auto simp: least_entry_def in_set_conv_nth id_take_nth_drop)

interpretation pq: bounded_pqueue q_put "q_get h" q_list "\<lambda>q. q_wf q \<and> q_live h q"
  "\<lambda>p. h p \<noteq> None" "pcb_key h" MAX_QUEUE_SIZE for h
proof unfold_locales
  fix q x q' assume q: "q_wf q \<and> q_live h q"
  show "q_get h q = None \<longleftrightarrow> q_list q = []"
    using q dequeue_ok [of q h] by (cases "q_size q = 0") (auto simp: q_get_def q_list_def)
  assume "q_get h q = Some (x, q')"
  then have d: "dequeue h q = Inr (Some x, q')" using q q_get_Some by blast
  then have "q_size q \<noteq> 0" by (cases "q_size q = 0") auto
  then obtain k where k: "x = q_list q ! k" "least_entry h (q_list q) (length (q_list q)) k"
    "q_list q' = take k (q_list q) @ drop (Suc k) (q_list q)"
    using dequeue_ok [of q h] q d by auto
  then have "q_live h q'"
    using q by (auto simp: q_live_def dest: in_set_takeD in_set_dropD)
  then show "(q_wf q' \<and> q_live h q') \<and> (\<exists>pre post. q_list q = pre @ x # post \<and> q_list q' = pre @ post \<and>
      (\<forall>y \<in> set pre. pcb_key h x < pcb_key h y) \<and> (\<forall>y \<in> set post. pcb_key h x \<le> pcb_key h y))"
    using least_entry_split [OF k(2)] k(1,3) q q_wf_dequeue [OF _ d] by blast
qed (auto simp: q_put_def q_list_enqueue enqueue_full q_wf_enqueue q_live_def split: if_splits)

text \<open>What repeated calls of \<open>dequeue\<close> hand out.\<close>

fun dequeue_all :: "nat \<Rightarrow> heap \<Rightarrow> queue_t \<Rightarrow> pcb_ptr list" where
  "dequeue_all 0 h q = []"
| "dequeue_all (Suc n) h q =
    (case dequeue h q of Inr (Some p, q') \<Rightarrow> p # dequeue_all n h q' | _ \<Rightarrow> [])"

lemma dequeue_all_get:
  "dequeue_all (Suc n) h q = (case q_get h q of None \<Rightarrow> [] | Some (p, q') \<Rightarrow> p # dequeue_all n h q')"
  by (simp add: q_get_def split: sum.split prod.split option.split)

lemma dequeue_all_drain: "dequeue_all n h q = fst (pq.drain h n q)"
proof (induction n arbitrary: q)
  case (Suc n)
  show ?case
    unfolding dequeue_all_get using Suc by (simp split: prod.split option.split)
qed simp

text \<open>A queue after a list of arrivals.\<close>

fun enqueue_all :: "queue_t \<Rightarrow> pcb_ptr list \<Rightarrow> queue_t" where
  "enqueue_all q [] = q"
| "enqueue_all q (p # ps) = enqueue_all (enqueue q (Some p)) ps"

lemma enqueue_all_ok:
  "q_wf q \<Longrightarrow> q_live h q \<Longrightarrow> \<forall>p \<in> set ps. h p \<noteq> None \<Longrightarrow>
    q_wf (enqueue_all q ps) \<and> q_live h (enqueue_all q ps) \<and>
    q_list (enqueue_all q ps) = q_list q @ take (MAX_QUEUE_SIZE - q_size q) ps"
proof (induction ps arbitrary: q)
  case (Cons p ps)
  let ?q = "enqueue q (Some p)"
  have "q_wf ?q" "q_live h ?q"
    using Cons.prems by (auto simp: q_wf_enqueue q_live_def q_list_enqueue split: if_splits)
  then have "q_wf (enqueue_all ?q ps) \<and> q_live h (enqueue_all ?q ps) \<and>
    q_list (enqueue_all ?q ps) = q_list ?q @ take (MAX_QUEUE_SIZE - q_size ?q) ps"
    using Cons.IH Cons.prems(3) by simp
  moreover have "q_list ?q @ take (MAX_QUEUE_SIZE - q_size ?q) ps =
      q_list q @ take (MAX_QUEUE_SIZE - q_size q) (p # ps)"
  proof (cases "MAX_QUEUE_SIZE - q_size q")
    case (Suc n)
    then have "MAX_QUEUE_SIZE - Suc (q_size q) = n" by simp
    then show ?thesis using Suc by (simp add: q_list_enqueue q_size_enqueue)
  qed (simp add: q_list_enqueue q_size_enqueue)
  ultimately show ?case by simp
qed simp

end
