(* ===== verification/Sched.thy ===== *)
theory Sched
  imports Queue
begin

text \<open>
  The scheduler (\<open>src/sched.c\<close>): its 140 ready queues, the list of started processes and
  the slot counters, with both configurations of the source (\<open>MLQ_SCHED\<close>, which is the
  one compiled, and the two-queue version).  The lemmas say which process \<open>get_proc\<close>
  hands out, that processes are neither lost nor duplicated except on a full level, and
  that the slot counters have no influence on the choice.
\<close>

section \<open>State and operations\<close>

definition MAX_PRIO :: nat where
  "MAX_PRIO = 140"

record sched_t =
  ready_queue :: queue_t
  run_queue :: queue_t
  running_list :: queue_t
  mlq_ready_queue :: "nat \<Rightarrow> queue_t"
  slot :: "nat \<Rightarrow> int"
  curr_prio :: u64
  curr_slot :: int
  queue_lock :: bool

definition lock_queue :: "sched_t \<Rightarrow> sched_t outcome" where
  "lock_queue s = (if queue_lock s then Inl Deadlock else Inr (s\<lparr>queue_lock := True\<rparr>))"

definition unlock_queue :: "sched_t \<Rightarrow> sched_t" where
  "unlock_queue s = s\<lparr>queue_lock := False\<rparr>"

definition queue_empty :: "sched_t \<Rightarrow> int" where
  "queue_empty s =
    (if \<exists>pr \<in> set [0..<MAX_PRIO]. \<not> empty (mlq_ready_queue s pr) then -1
     else if empty (ready_queue s) \<and> empty (run_queue s) then 1 else 0)"

text \<open>\<open>init_scheduler\<close> sets the fill counts, the slots and the mutex, and nothing else.\<close>

definition init_scheduler :: "sched_t \<Rightarrow> sched_t" where
  "init_scheduler s = s\<lparr>
     mlq_ready_queue := (\<lambda>i. if i < MAX_PRIO then (mlq_ready_queue s i)\<lparr>q_size := 0\<rparr> else mlq_ready_queue s i),
     slot := (\<lambda>i. if i < MAX_PRIO then int MAX_PRIO - int i else slot s i),
     ready_queue := (ready_queue s)\<lparr>q_size := 0\<rparr>,
     run_queue := (run_queue s)\<lparr>q_size := 0\<rparr>,
     queue_lock := False\<rparr>"

text \<open>The slot counters after a process of level \<open>pr\<close> was taken.\<close>

definition count_slot :: "nat \<Rightarrow> sched_t \<Rightarrow> sched_t outcome" where
  "count_slot pr s =
    (if curr_prio s = of_nat pr then
       rbind (assert_that (slot s pr \<noteq> 0) DivByZero) (\<lambda>_.
       let s = s\<lparr>curr_slot := (curr_slot s + 1) smod slot s pr\<rparr> in
       Inr (if curr_slot s = 0
            then s\<lparr>curr_prio := (curr_prio s + 1) mod of_nat MAX_PRIO, curr_slot := 0\<rparr>
            else s))
     else Inr (s\<lparr>curr_prio := of_nat pr, curr_slot := 0\<rparr>))"

text \<open>The loop of \<open>get_mlq_proc\<close>, from level \<open>pr\<close> on.\<close>

function mlq_loop :: "heap \<Rightarrow> sched_t \<Rightarrow> nat \<Rightarrow> (pcb_ptr option \<times> sched_t) outcome" where
  "mlq_loop h s pr =
    (if pr < MAX_PRIO then
       (if \<not> empty (mlq_ready_queue s pr) then
          rbind (dequeue h (mlq_ready_queue s pr)) (\<lambda>(proc, q).
          let s = s\<lparr>mlq_ready_queue := (mlq_ready_queue s)(pr := q)\<rparr> in
          if proc \<noteq> None then rbind (count_slot pr s) (\<lambda>s. Inr (proc, s))
          else mlq_loop h s (pr + 1))
        else mlq_loop h s (pr + 1))
     else Inr (None, s))"
  by pat_completeness auto
termination
  by (relation "measure (\<lambda>(h, s, pr). MAX_PRIO - pr)") auto

declare mlq_loop.simps [simp del]

definition get_mlq_proc :: "heap \<Rightarrow> sched_t \<Rightarrow> (pcb_ptr option \<times> sched_t) outcome" where
  "get_mlq_proc h s =
    rbind (lock_queue s) (\<lambda>s.
    rbind (mlq_loop h s 0) (\<lambda>(proc, s).
    let s = (if proc = None then s\<lparr>curr_prio := 0, curr_slot := 0\<rparr> else s)
    in Inr (proc, unlock_queue s)))"

definition put_mlq_proc :: "heap \<Rightarrow> sched_t \<Rightarrow> pcb_ptr \<Rightarrow> sched_t outcome" where
  "put_mlq_proc h s proc =
    rbind (lock_queue s) (\<lambda>s.
    rbind (pcb_at h proc) (\<lambda>b.
    rbind (assert_that (unat (prio b) < MAX_PRIO) OutOfBounds) (\<lambda>_.
    Inr (unlock_queue (s\<lparr>mlq_ready_queue := (mlq_ready_queue s)
      (unat (prio b) := enqueue (mlq_ready_queue s (unat (prio b))) (Some proc))\<rparr>)))))"

definition add_mlq_proc :: "heap \<Rightarrow> sched_t \<Rightarrow> pcb_ptr \<Rightarrow> sched_t outcome" where
  "add_mlq_proc h s proc =
    rbind (lock_queue s) (\<lambda>s.
    rbind (pcb_at h proc) (\<lambda>b.
    rbind (assert_that (unat (prio b) < MAX_PRIO) OutOfBounds) (\<lambda>_.
    Inr (unlock_queue (s\<lparr>mlq_ready_queue := (mlq_ready_queue s)
      (unat (prio b) := enqueue (mlq_ready_queue s (unat (prio b))) (Some proc))\<rparr>)))))"

definition get_proc :: "heap \<Rightarrow> sched_t \<Rightarrow> (pcb_ptr option \<times> sched_t) outcome" where
  "get_proc h s = get_mlq_proc h s"

definition link_queues :: "pcb_t \<Rightarrow> pcb_t" where
  "link_queues b = b\<lparr>p_ready_queue := Some ReadyQueue, p_mlq_ready_queue := Some MlqReadyQueue,
     p_running_list := Some RunningList\<rparr>"

definition list_running :: "sched_t \<Rightarrow> pcb_ptr \<Rightarrow> sched_t outcome" where
  "list_running s proc =
    rbind (lock_queue s) (\<lambda>s.
    Inr (unlock_queue (s\<lparr>running_list := enqueue (running_list s) (Some proc)\<rparr>)))"

text \<open>
  \<open>put_proc\<close> and \<open>add_proc\<close> take the lock twice: first to enter the process in the running
  list, then in \<open>put_mlq_proc\<close> and \<open>add_mlq_proc\<close>.  \<open>enlist_running\<close> is what they do up to
  the first release.
\<close>

definition enlist_running :: "heap \<Rightarrow> sched_t \<Rightarrow> pcb_ptr \<Rightarrow> (heap \<times> sched_t) outcome" where
  "enlist_running h s proc =
    rbind (pcb_at h proc) (\<lambda>b.
    rbind (list_running s proc) (\<lambda>s. Inr (h(proc \<mapsto> link_queues b), s)))"

definition put_proc :: "heap \<Rightarrow> sched_t \<Rightarrow> pcb_ptr \<Rightarrow> (heap \<times> sched_t) outcome" where
  "put_proc h s proc =
    rbind (enlist_running h s proc) (\<lambda>(h, s).
    rbind (put_mlq_proc h s proc) (\<lambda>s. Inr (h, s)))"

definition add_proc :: "heap \<Rightarrow> sched_t \<Rightarrow> pcb_ptr \<Rightarrow> (heap \<times> sched_t) outcome" where
  "add_proc h s proc =
    rbind (enlist_running h s proc) (\<lambda>(h, s).
    rbind (add_mlq_proc h s proc) (\<lambda>s. Inr (h, s)))"

section \<open>The version without MLQ_SCHED\<close>

definition get_proc_2q :: "sched_t \<Rightarrow> (pcb_ptr option \<times> sched_t) outcome" where
  "get_proc_2q s =
    rbind (lock_queue s) (\<lambda>s.
    if \<not> empty (ready_queue s) then
      (case dequeue_fifo (ready_queue s) of (p, q) \<Rightarrow> Inr (p, unlock_queue (s\<lparr>ready_queue := q\<rparr>)))
    else if \<not> empty (run_queue s) then
      (case dequeue_fifo (run_queue s) of (p, q) \<Rightarrow> Inr (p, unlock_queue (s\<lparr>run_queue := q\<rparr>)))
    else Inr (None, unlock_queue s))"

definition link_queues_2q :: "pcb_t \<Rightarrow> pcb_t" where
  "link_queues_2q b = b\<lparr>p_ready_queue := Some ReadyQueue, p_running_list := Some RunningList\<rparr>"

definition put_proc_2q :: "heap \<Rightarrow> sched_t \<Rightarrow> pcb_ptr \<Rightarrow> (heap \<times> sched_t) outcome" where
  "put_proc_2q h s proc =
    rbind (pcb_at h proc) (\<lambda>b.
    rbind (lock_queue s) (\<lambda>s.
    Inr (h(proc \<mapsto> link_queues_2q b),
         unlock_queue (s\<lparr>running_list := enqueue (running_list s) (Some proc),
                         run_queue := enqueue (run_queue s) (Some proc)\<rparr>))))"

definition add_proc_2q :: "heap \<Rightarrow> sched_t \<Rightarrow> pcb_ptr \<Rightarrow> (heap \<times> sched_t) outcome" where
  "add_proc_2q h s proc =
    rbind (pcb_at h proc) (\<lambda>b.
    rbind (lock_queue s) (\<lambda>s.
    Inr (h(proc \<mapsto> link_queues_2q b),
         unlock_queue (s\<lparr>running_list := enqueue (running_list s) (Some proc),
                         ready_queue := enqueue (ready_queue s) (Some proc)\<rparr>))))"

section \<open>Well-formed schedulers\<close>

definition level :: "sched_t \<Rightarrow> nat \<Rightarrow> pcb_ptr list" where
  "level s k = q_list (mlq_ready_queue s k)"

definition sched_wf :: "sched_t \<Rightarrow> bool" where
  "sched_wf s \<longleftrightarrow> \<not> queue_lock s \<and> (\<forall>k < MAX_PRIO. q_wf (mlq_ready_queue s k) \<and> 0 < slot s k) \<and>
    q_wf (running_list s)"

definition sched_live :: "heap \<Rightarrow> sched_t \<Rightarrow> bool" where
  "sched_live h s \<longleftrightarrow> (\<forall>k < MAX_PRIO. q_live h (mlq_ready_queue s k))"

text \<open>The first level, from \<open>i\<close> on, that has a process.\<close>

definition first_level :: "sched_t \<Rightarrow> nat \<Rightarrow> nat option" where
  "first_level s i = find (\<lambda>k. level s k \<noteq> []) [i..<MAX_PRIO]"

lemma first_level_step:
  "i < MAX_PRIO \<Longrightarrow> first_level s i = (if level s i \<noteq> [] then Some i else first_level s (i + 1))"
  by (simp add: first_level_def upt_conv_Cons)

lemma first_level_end: "\<not> i < MAX_PRIO \<Longrightarrow> first_level s i = None"
  by (simp add: first_level_def)

lemma first_level_None: "first_level s 0 = None \<longleftrightarrow> (\<forall>k < MAX_PRIO. level s k = [])"
  by (auto simp: first_level_def find_None_iff)

lemma first_level_Some:
  "first_level s 0 = Some k \<longleftrightarrow> k < MAX_PRIO \<and> level s k \<noteq> [] \<and> (\<forall>j < k. level s j = [])"
proof -
  have "first_level s 0 = Some k \<longleftrightarrow>
      (\<exists>i < length [0..<MAX_PRIO]. level s ([0..<MAX_PRIO] ! i) \<noteq> [] \<and> k = [0..<MAX_PRIO] ! i \<and>
        (\<forall>j < i. \<not> level s ([0..<MAX_PRIO] ! j) \<noteq> []))"
    unfolding first_level_def by (rule find_Some_iff)
  then show ?thesis by auto
qed

text \<open>What \<open>count_slot\<close> may change.\<close>

lemma count_slot_ok:
  assumes "0 < slot s k"
  shows "\<exists>cp cs. count_slot k s = Inr (s\<lparr>curr_prio := cp, curr_slot := cs\<rparr>)"
proof -
  have "s = s\<lparr>curr_prio := curr_prio s, curr_slot := curr_slot s\<rparr>" by simp
  have same: "\<exists>cp cs. s\<lparr>curr_slot := x\<rparr> = s\<lparr>curr_prio := cp, curr_slot := cs\<rparr>" for x
    by (rule exI [of _ "curr_prio s"], rule exI [of _ x]) simp
  have "\<exists>cp cs. s\<lparr>curr_slot := x, curr_prio := y, curr_slot := z\<rparr> = s\<lparr>curr_prio := cp, curr_slot := cs\<rparr>" for x y z
    by (rule exI [of _ y], rule exI [of _ z]) simp
  then show ?thesis
    using assms same by (auto simp: count_slot_def Let_def)
qed

text \<open>The search, in terms of the first level that has a process.\<close>

lemma mlq_loop_ok:
  assumes "sched_live h s" and "\<forall>k < MAX_PRIO. q_wf (mlq_ready_queue s k) \<and> 0 < slot s k"
  shows "case first_level s i of
      None \<Rightarrow> mlq_loop h s i = Inr (None, s)
    | Some k \<Rightarrow> \<exists>p q cp cs. q_get h (mlq_ready_queue s k) = Some (p, q) \<and>
        mlq_loop h s i = Inr (Some p, s\<lparr>mlq_ready_queue := (mlq_ready_queue s)(k := q),
                                         curr_prio := cp, curr_slot := cs\<rparr>)"
proof (induction "MAX_PRIO - i" arbitrary: i)
  case 0
  then show ?case by (subst mlq_loop.simps) (simp add: first_level_end)
next
  case (Suc d)
  then have lt: "i < MAX_PRIO" by simp
  show ?case
  proof (cases "level s i = []")
    case True
    then have eq: "mlq_loop h s i = mlq_loop h s (i + 1)"
      using lt by (subst mlq_loop.simps) (simp add: empty_iff level_def)
    have eq': "first_level s i = first_level s (i + 1)"
      using lt True by (simp add: first_level_step)
    show ?thesis
      unfolding eq eq' using Suc(2) lt by (intro Suc(1)) simp
  next
    case False
    let ?q = "mlq_ready_queue s i"
    have "q_wf ?q \<and> q_live h ?q" "q_size ?q \<noteq> 0"
      using assms lt False by (auto simp: sched_live_def level_def q_list_def)
    then obtain p q where d: "dequeue h ?q = Inr (Some p, q)"
      using dequeue_ok by blast
    obtain cp cs where c: "count_slot i (s\<lparr>mlq_ready_queue := (mlq_ready_queue s)(i := q)\<rparr>) =
        Inr (s\<lparr>mlq_ready_queue := (mlq_ready_queue s)(i := q), curr_prio := cp, curr_slot := cs\<rparr>)"
      using count_slot_ok [of "s\<lparr>mlq_ready_queue := (mlq_ready_queue s)(i := q)\<rparr>" i] assms(2) lt by auto
    have "mlq_loop h s i = Inr (Some p, s\<lparr>mlq_ready_queue := (mlq_ready_queue s)(i := q), curr_prio := cp, curr_slot := cs\<rparr>)"
      using lt False d c by (subst mlq_loop.simps) (simp add: empty_iff level_def Let_def)
    moreover have "q_get h ?q = Some (p, q)" by (simp add: q_get_def d)
    moreover have "first_level s i = Some i" using lt False by (simp add: first_level_step)
    ultimately show ?thesis by auto
  qed
qed

lemma get_proc_None:
  assumes "sched_wf s" and "\<forall>k < MAX_PRIO. level s k = []"
  shows "get_proc h s = Inr (None, s\<lparr>curr_prio := 0, curr_slot := 0\<rparr>)"
proof -
  let ?s = "s\<lparr>queue_lock := True\<rparr>"
  have live: "sched_live h ?s"
    using assms(2) by (auto simp: sched_live_def q_live_def level_def)
  have "first_level ?s 0 = None"
    using assms(2) by (simp add: first_level_None level_def)
  then have "mlq_loop h ?s 0 = Inr (None, ?s)"
    using mlq_loop_ok [OF live, of 0] assms(1) by (simp add: sched_wf_def)
  moreover have "unlock_queue (?s\<lparr>curr_prio := 0, curr_slot := 0\<rparr>) = s\<lparr>curr_prio := 0, curr_slot := 0\<rparr>"
    using assms(1) by (cases s) (simp add: unlock_queue_def sched_wf_def)
  ultimately show ?thesis
    using assms(1) by (simp add: get_proc_def get_mlq_proc_def lock_queue_def sched_wf_def)
qed

lemma get_proc_Some:
  assumes wf: "sched_wf s" and live: "sched_live h s" and k: "first_level s 0 = Some k"
  shows "\<exists>p q cp cs. q_get h (mlq_ready_queue s k) = Some (p, q) \<and>
    get_proc h s = Inr (Some p, s\<lparr>mlq_ready_queue := (mlq_ready_queue s)(k := q),
                                   curr_prio := cp, curr_slot := cs\<rparr>)"
proof -
  let ?s = "s\<lparr>queue_lock := True\<rparr>"
  have "first_level ?s 0 = Some k" "sched_live h ?s"
    using k live by (simp_all add: first_level_def level_def sched_live_def)
  then obtain p q cp cs where r: "q_get h (mlq_ready_queue s k) = Some (p, q)"
    "mlq_loop h ?s 0 = Inr (Some p, ?s\<lparr>mlq_ready_queue := (mlq_ready_queue s)(k := q),
       curr_prio := cp, curr_slot := cs\<rparr>)"
    using mlq_loop_ok [of h ?s 0] wf by (auto simp: sched_wf_def)
  moreover have "unlock_queue (?s\<lparr>mlq_ready_queue := (mlq_ready_queue s)(k := q), curr_prio := cp, curr_slot := cs\<rparr>)
      = s\<lparr>mlq_ready_queue := (mlq_ready_queue s)(k := q), curr_prio := cp, curr_slot := cs\<rparr>"
    using wf by (cases s) (simp add: unlock_queue_def sched_wf_def)
  ultimately have "get_proc h s = Inr (Some p, s\<lparr>mlq_ready_queue := (mlq_ready_queue s)(k := q),
      curr_prio := cp, curr_slot := cs\<rparr>)"
    using wf by (simp add: get_proc_def get_mlq_proc_def lock_queue_def sched_wf_def)
  then show ?thesis using r(1) by blast
qed

section \<open>What the operations do to the ready processes\<close>

text \<open>All ready processes, with their multiplicity.\<close>

definition ready :: "sched_t \<Rightarrow> pcb_ptr multiset" where
  "ready s = (\<Sum>k \<in> {..<MAX_PRIO}. mset (level s k))"

lemma ready_upd:
  assumes "k < MAX_PRIO"
  shows "ready (s\<lparr>mlq_ready_queue := (mlq_ready_queue s)(k := q), curr_prio := cp, curr_slot := cs\<rparr>) +
    mset (level s k) = ready s + mset (q_list q)"
proof -
  let ?s = "s\<lparr>mlq_ready_queue := (mlq_ready_queue s)(k := q), curr_prio := cp, curr_slot := cs\<rparr>"
  have k: "finite {..<MAX_PRIO}" "k \<in> {..<MAX_PRIO}" using assms by simp_all
  have "(\<Sum>j \<in> {..<MAX_PRIO} - {k}. mset (level ?s j)) = (\<Sum>j \<in> {..<MAX_PRIO} - {k}. mset (level s j))"
    by (intro sum.cong) (auto simp: level_def)
  moreover have "level ?s k = q_list q" by (simp add: level_def)
  ultimately show ?thesis
    unfolding ready_def by (simp add: sum.remove [OF k])
qed

text \<open>One \<open>get\<close>: the process is of the first level with any, least in that level.\<close>

lemma get_proc_taken:
  assumes wf: "sched_wf s" and live: "sched_live h s" and g: "get_proc h s = Inr (Some p, s')"
  shows "\<exists>k pre post. k < MAX_PRIO \<and> (\<forall>j < k. level s j = []) \<and>
    level s k = pre @ p # post \<and> level s' k = pre @ post \<and>
    (\<forall>y \<in> set pre. pcb_key h p < pcb_key h y) \<and> (\<forall>y \<in> set post. pcb_key h p \<le> pcb_key h y) \<and>
    (\<forall>j. j \<noteq> k \<longrightarrow> level s' j = level s j) \<and> running_list s' = running_list s \<and>
    ready s = add_mset p (ready s') \<and> sched_wf s' \<and> sched_live h s'"
proof -
  obtain k where k: "first_level s 0 = Some k"
    using g get_proc_None [OF wf, of h] by (cases "first_level s 0") (auto simp: first_level_None)
  then have kr: "k < MAX_PRIO" "\<forall>j < k. level s j = []" by (auto simp: first_level_Some)
  obtain q cp cs where q: "q_get h (mlq_ready_queue s k) = Some (p, q)"
    "s' = s\<lparr>mlq_ready_queue := (mlq_ready_queue s)(k := q), curr_prio := cp, curr_slot := cs\<rparr>"
    using get_proc_Some [OF wf live k] g by auto
  have v: "q_wf (mlq_ready_queue s k) \<and> q_live h (mlq_ready_queue s k)"
    using wf live kr(1) by (simp add: sched_wf_def sched_live_def)
  obtain pre post where s: "level s k = pre @ p # post" "q_list q = pre @ post" "q_wf q" "q_live h q"
    "\<forall>y \<in> set pre. pcb_key h p < pcb_key h y" "\<forall>y \<in> set post. pcb_key h p \<le> pcb_key h y"
    using pq.get_Some [OF v q(1)] by (auto simp: level_def)
  have "ready s = add_mset p (ready s')"
    using ready_upd [OF kr(1), where s = s and q = q and cp = cp and cs = cs] s(1,2) by (simp add: q(2))
  moreover have "sched_wf s'" "sched_live h s'"
    using wf live s(3,4) by (auto simp: sched_wf_def sched_live_def q(2))
  moreover have "level s' k = pre @ post" "\<forall>j. j \<noteq> k \<longrightarrow> level s' j = level s j"
    "running_list s' = running_list s"
    using s(2) by (simp_all add: level_def q(2))
  ultimately show ?thesis using kr s by blast
qed

lemma get_proc_returns:
  assumes "sched_wf s" and "sched_live h s"
  shows "\<exists>p s'. get_proc h s = Inr (p, s') \<and> (p = None \<longleftrightarrow> (\<forall>k < MAX_PRIO. level s k = []))"
proof (cases "first_level s 0")
  case None
  then show ?thesis using get_proc_None [OF assms(1)] by (auto simp: first_level_None)
next
  case (Some k)
  then show ?thesis using get_proc_Some [OF assms Some] by (auto simp: first_level_Some)
qed

text \<open>The slot counters and quotas do not influence which process runs next.\<close>

lemma get_proc_slots_irrelevant:
  assumes "sched_wf s" and "sched_live h s"
    and "\<forall>k < MAX_PRIO. 0 < sl k"
    and "get_proc h s = Inr (p, s1)"
    and "get_proc h (s\<lparr>slot := sl, curr_prio := cp, curr_slot := cs\<rparr>) = Inr (p', s2)"
  shows "p' = p \<and> mlq_ready_queue s2 = mlq_ready_queue s1"
proof -
  let ?s = "s\<lparr>slot := sl, curr_prio := cp, curr_slot := cs\<rparr>"
  have wf: "sched_wf ?s" "sched_live h ?s"
    using assms by (simp_all add: sched_wf_def sched_live_def)
  have lv: "level ?s = level s" by (simp add: level_def fun_eq_iff)
  then have fl: "first_level ?s 0 = first_level s 0" by (simp add: first_level_def)
  show ?thesis
  proof (cases "first_level s 0")
    case None
    then show ?thesis
      using get_proc_None [OF assms(1), of h] get_proc_None [OF wf(1), of h] lv assms(4,5)
      by (auto simp: first_level_None)
  next
    case (Some k)
    then show ?thesis
      using get_proc_Some [OF assms(1,2) Some] get_proc_Some [OF wf, of k] fl assms(4,5) by auto
  qed
qed

section \<open>Putting a process back\<close>

text \<open>The state after \<open>proc\<close> joins the running list and its ready queue.\<close>

definition joined :: "sched_t \<Rightarrow> pcb_ptr \<Rightarrow> nat \<Rightarrow> sched_t" where
  "joined s p k = s\<lparr>running_list := enqueue (running_list s) (Some p),
     mlq_ready_queue := (mlq_ready_queue s)(k := enqueue (mlq_ready_queue s k) (Some p))\<rparr>"

definition listed :: "sched_t \<Rightarrow> pcb_ptr \<Rightarrow> sched_t" where
  "listed s p = s\<lparr>running_list := enqueue (running_list s) (Some p)\<rparr>"

definition queued :: "sched_t \<Rightarrow> pcb_ptr \<Rightarrow> nat \<Rightarrow> sched_t" where
  "queued s p k = s\<lparr>mlq_ready_queue := (mlq_ready_queue s)(k := enqueue (mlq_ready_queue s k) (Some p))\<rparr>"

lemma queued_listed: "queued (listed s p) p k = joined s p k"
  by (simp add: queued_def listed_def joined_def)

lemma enlist_running_ok:
  "\<not> queue_lock s \<Longrightarrow> h p = Some b \<Longrightarrow> enlist_running h s p = Inr (h(p \<mapsto> link_queues b), listed s p)"
  by (simp add: enlist_running_def list_running_def lock_queue_def unlock_queue_def listed_def)

lemma put_mlq_proc_ok:
  assumes "\<not> queue_lock s" and "h p = Some b"
  shows "put_mlq_proc h s p =
      (if unat (prio b) < MAX_PRIO then Inr (queued s p (unat (prio b))) else Inl OutOfBounds)"
    and "add_mlq_proc h s p = put_mlq_proc h s p"
  using assms by (simp_all add: put_mlq_proc_def add_mlq_proc_def lock_queue_def unlock_queue_def queued_def)

lemma listed_simps [simp]:
  "level (listed s p) k = level s k" "ready (listed s p) = ready s" "queue_lock (listed s p) = queue_lock s"
  by (simp_all add: listed_def level_def ready_def)

lemma sched_wf_listed: "sched_wf s \<Longrightarrow> sched_wf (listed s p)"
  by (simp add: sched_wf_def listed_def q_wf_enqueue)

lemma sched_live_listed: "sched_live h s \<Longrightarrow> sched_live h (listed s p)"
  by (simp add: sched_live_def listed_def)

lemma sched_wf_queued: "sched_wf s \<Longrightarrow> sched_wf (queued s p k)"
  by (auto simp: sched_wf_def queued_def q_wf_enqueue)

lemma sched_live_queued: "sched_live h s \<Longrightarrow> h p = Some b \<Longrightarrow> sched_live h (queued s p k)"
  by (fastforce simp: sched_live_def queued_def q_live_def q_list_enqueue split: if_splits)

lemma put_proc_ok:
  assumes "\<not> queue_lock s" and "h p = Some b"
  shows "put_proc h s p = (if unat (prio b) < MAX_PRIO
      then Inr (h(p \<mapsto> link_queues b), joined s p (unat (prio b))) else Inl OutOfBounds)"
    and "add_proc h s p = put_proc h s p"
  using assms
  by (simp_all add: put_proc_def add_proc_def enlist_running_ok put_mlq_proc_ok queued_listed)
    (simp_all add: link_queues_def)

lemma level_joined:
  "level (joined s p k) j = (if j = k \<and> length (level s k) < MAX_QUEUE_SIZE then level s k @ [p] else level s j)"
  by (auto simp: level_def joined_def q_list_enqueue)

lemma sched_wf_joined: "sched_wf s \<Longrightarrow> sched_wf (joined s p k)"
  by (auto simp: sched_wf_def joined_def q_wf_enqueue)

lemma q_live_heap: "\<forall>p. h p \<noteq> None \<longrightarrow> h' p \<noteq> None \<Longrightarrow> q_live h q \<Longrightarrow> q_live h' q"
  by (auto simp: q_live_def)

lemma sched_live_joined:
  assumes "sched_live h s" and "h p = Some b"
  shows "sched_live (h(p \<mapsto> b')) (joined s p k)"
  using assms
  by (fastforce simp: sched_live_def joined_def q_live_def q_list_enqueue split: if_splits)

lemma ready_joined:
  assumes "k < MAX_PRIO"
  shows "ready (joined s p k) =
    (if length (level s k) < MAX_QUEUE_SIZE then add_mset p (ready s) else ready s)"
proof -
  have k: "finite {..<MAX_PRIO}" "k \<in> {..<MAX_PRIO}" using assms by simp_all
  have "(\<Sum>j \<in> {..<MAX_PRIO} - {k}. mset (level (joined s p k) j)) =
      (\<Sum>j \<in> {..<MAX_PRIO} - {k}. mset (level s j))"
    by (intro sum.cong) (auto simp: level_joined)
  then show ?thesis
    unfolding ready_def by (auto simp: sum.remove [OF k] level_joined)
qed

lemma ready_queued:
  "k < MAX_PRIO \<Longrightarrow> ready (queued s p k) =
    (if length (level s k) < MAX_QUEUE_SIZE then add_mset p (ready s) else ready s)"
  using ready_joined [of k s p] by (simp add: ready_def level_def queued_def joined_def)

lemma pcb_key_linked [simp]: "h p = Some b \<Longrightarrow> pcb_key (h(p \<mapsto> link_queues b)) = pcb_key h"
  by (auto simp: pcb_key_def link_queues_def fun_eq_iff)

section \<open>The two-queue version is first in, first out\<close>

lemma get_proc_2q_ok:
  assumes "\<not> queue_lock s"
  shows "\<exists>s'. get_proc_2q s = Inr
      (if q_list (ready_queue s) \<noteq> [] then Some (hd (q_list (ready_queue s)))
       else if q_list (run_queue s) \<noteq> [] then Some (hd (q_list (run_queue s))) else None, s') \<and>
    q_list (ready_queue s') = tl (q_list (ready_queue s)) \<and>
    q_list (run_queue s') = (if q_list (ready_queue s) \<noteq> [] then q_list (run_queue s) else tl (q_list (run_queue s))) \<and>
    \<not> queue_lock s'"
proof -
  have d: "\<exists>q'. dequeue_fifo q = (Some (hd (q_list q)), q') \<and> q_list q' = tl (q_list q)" if "q_list q \<noteq> []" for q
  proof -
    have "q_size q \<noteq> 0" using that by (metis length_q_list length_0_conv)
    then show ?thesis using dequeue_fifo_ok [of q] by fastforce
  qed
  show ?thesis
  proof (cases "q_list (ready_queue s) = []")
    case True
    show ?thesis
    proof (cases "q_list (run_queue s) = []")
      case False
      then show ?thesis
        using assms True d [OF False] by (auto simp: get_proc_2q_def lock_queue_def unlock_queue_def empty_iff)
    qed (use assms True in \<open>auto simp: get_proc_2q_def lock_queue_def unlock_queue_def empty_iff\<close>)
  next
    case False
    then show ?thesis
      using assms d [OF False] by (auto simp: get_proc_2q_def lock_queue_def unlock_queue_def empty_iff)
  qed
qed

end
