(* ===== verification/Mem.thy ===== *)
theory Mem
  imports Pcb
begin

text \<open>
  The older memory of the simulator (\<open>src/mem.c\<close>), which the sources keep and call
  obsolete, and the instructions of \<open>src/cpu.c\<close> that are compiled against it when
  \<open>MM_PAGING\<close> is undefined (\<open>read\<close> and \<open>write\<close> are \<open>cpu_read\<close> and
  \<open>cpu_write\<close> here).  Address translation is a stub that never succeeds; the
  lemmas show the address split, that no access ever reaches the RAM, and what this makes
  of the instructions.
\<close>

unbundle bit_operations_syntax

section \<open>Constants and state\<close>

definition ADDRESS_SIZE :: nat where "ADDRESS_SIZE = 20"
definition OFFSET_LEN :: nat where "OFFSET_LEN = 10"
definition FIRST_LV_LEN :: nat where "FIRST_LV_LEN = 5"
definition SECOND_LV_LEN :: nat where "SECOND_LV_LEN = 5"
definition PAGE_LEN :: nat where "PAGE_LEN = SECOND_LV_LEN"
definition NUM_PAGES :: int where "NUM_PAGES = push_bit (ADDRESS_SIZE - OFFSET_LEN) 1"
definition PAGE_SIZE :: int where "PAGE_SIZE = push_bit OFFSET_LEN 1"
definition RAM_SIZE :: int where "RAM_SIZE = push_bit ADDRESS_SIZE 1"

lemmas mem_consts = ADDRESS_SIZE_def OFFSET_LEN_def FIRST_LV_LEN_def SECOND_LV_LEN_def PAGE_LEN_def
  NUM_PAGES_def PAGE_SIZE_def RAM_SIZE_def

record mem_stat_t =
  ms_proc :: u32
  ms_index :: int
  ms_next :: int

record old_mem =
  old_ram :: "int \<Rightarrow> u8"
  old_stat :: "int \<Rightarrow> mem_stat_t"
  mem_lock :: bool

text \<open>A translation table of the second layer: its rows (virtual and physical index).\<close>

type_synonym trans_table_t = "(u32 \<times> u32) list"

section \<open>Operations\<close>

definition init_mem :: "old_mem \<Rightarrow> old_mem" where
  "init_mem m = m\<lparr>
     old_stat := (\<lambda>i. if 0 \<le> i \<and> i < NUM_PAGES then \<lparr>ms_proc = 0, ms_index = 0, ms_next = 0\<rparr> else old_stat m i),
     old_ram := (\<lambda>i. if 0 \<le> i \<and> i < RAM_SIZE then 0 else old_ram m i),
     mem_lock := False\<rparr>"

definition get_offset :: "u32 \<Rightarrow> u32" where
  "get_offset addr = addr AND NOT (push_bit OFFSET_LEN (NOT 0))"

definition get_first_lv :: "u32 \<Rightarrow> u32" where
  "get_first_lv addr = drop_bit (OFFSET_LEN + PAGE_LEN) addr"

definition get_second_lv :: "u32 \<Rightarrow> u32" where
  "get_second_lv addr = drop_bit OFFSET_LEN addr - push_bit PAGE_LEN (get_first_lv addr)"

text \<open>The loop over the rows has an empty body; the function returns the null pointer.\<close>

definition get_trans_table :: "u32 \<Rightarrow> pcb_t \<Rightarrow> trans_table_t option" where
  "get_trans_table index b = None"

fun find_row :: "trans_table_t \<Rightarrow> u32 \<Rightarrow> bool" where
  "find_row [] second_lv = False"
| "find_row ((v_index, p_index) # rows) second_lv =
    (if v_index = second_lv then True else find_row rows second_lv)"

text \<open>\<open>pa\<close> is what \<open>*physical_addr\<close> holds; the function never writes it.\<close>

definition translate :: "u32 \<Rightarrow> u32 \<Rightarrow> pcb_t \<Rightarrow> int \<times> u32" where
  "translate virtual_addr pa b =
    (case get_trans_table (get_first_lv virtual_addr) b of
       None \<Rightarrow> (0, pa)
     | Some rows \<Rightarrow> (if find_row rows (get_second_lv virtual_addr) then 1 else 0, pa))"

definition alloc_mem :: "u32 \<Rightarrow> pcb_t \<Rightarrow> old_mem \<Rightarrow> (u32 \<times> pcb_t \<times> old_mem) outcome" where
  "alloc_mem size' b m =
    (if mem_lock m then Inl Deadlock
     else
       (let num_pages = (if size' mod u32_of_int PAGE_SIZE \<noteq> 0 then size' div u32_of_int PAGE_SIZE
                         else size' div u32_of_int PAGE_SIZE + 1);
            mem_avail = (0 :: int)
        in if mem_avail \<noteq> 0 then Inr (bp b, b\<lparr>bp := bp b + num_pages * u32_of_int PAGE_SIZE\<rparr>, m)
           else Inr (0, b, m)))"

definition free_mem :: "u32 \<Rightarrow> pcb_t \<Rightarrow> int" where
  "free_mem address b = 0"

definition ram_at :: "old_mem \<Rightarrow> u32 \<Rightarrow> int outcome" where
  "ram_at m pa = rbind (assert_that (uint pa < RAM_SIZE) OutOfBounds) (\<lambda>_. Inr (uint pa))"

text \<open>\<open>pa\<close> is the uninitialised local \<open>physical_addr\<close>, \<open>data\<close> what the argument points to.\<close>

definition read_mem :: "u32 \<Rightarrow> u32 \<Rightarrow> pcb_t \<Rightarrow> u8 \<Rightarrow> old_mem \<Rightarrow> (int \<times> u8) outcome" where
  "read_mem pa address b data m =
    (case translate address pa b of
       (ok, pa) \<Rightarrow> if ok \<noteq> 0 then rbind (ram_at m pa) (\<lambda>i. Inr (0, old_ram m i)) else Inr (1, data))"

definition write_mem :: "u32 \<Rightarrow> u32 \<Rightarrow> pcb_t \<Rightarrow> u8 \<Rightarrow> old_mem \<Rightarrow> (int \<times> old_mem) outcome" where
  "write_mem pa address b data m =
    (case translate address pa b of
       (ok, pa) \<Rightarrow>
         if ok \<noteq> 0 then rbind (ram_at m pa) (\<lambda>i. Inr (0, m\<lparr>old_ram := (old_ram m)(i := data)\<rparr>))
         else Inr (1, m))"

text \<open>
  \<open>dump\<close>: the used pages with the range, owner and links of each, and its non-zero bytes
  (all but the last byte of the page).
\<close>

definition dump_page :: "old_mem \<Rightarrow> int \<Rightarrow> (int \<times> int \<times> mem_stat_t) \<times> (int \<times> u8) list" where
  "dump_page m i =
    (let first = push_bit OFFSET_LEN i; last' = push_bit OFFSET_LEN (i + 1) - 1
     in ((first, last', old_stat m i),
         map (\<lambda>j. (j, old_ram m j)) (filter (\<lambda>j. old_ram m j \<noteq> 0) [first..last' - 1])))"

definition dump :: "old_mem \<Rightarrow> ((int \<times> int \<times> mem_stat_t) \<times> (int \<times> u8) list) list" where
  "dump m = map (dump_page m) (filter (\<lambda>i. ms_proc (old_stat m i) \<noteq> 0) [0..NUM_PAGES - 1])"

section \<open>The instructions of cpu.c without MM_PAGING\<close>

definition calc :: "pcb_ptr \<Rightarrow> int" where
  "calc proc = int_of_u64 (of_nat proc AND 0)"

definition reg_index_ok :: "u32 \<Rightarrow> bool" where
  "reg_index_ok r \<longleftrightarrow> unat r < 10"

definition get_reg :: "pcb_t \<Rightarrow> u32 \<Rightarrow> u32 outcome" where
  "get_reg b r = rbind (assert_that (reg_index_ok r) OutOfBounds) (\<lambda>_. Inr (regs b (unat r)))"

definition set_reg :: "u32 \<Rightarrow> u32 \<Rightarrow> pcb_t \<Rightarrow> pcb_t outcome" where
  "set_reg r v b =
    rbind (assert_that (reg_index_ok r) OutOfBounds) (\<lambda>_. Inr (b\<lparr>regs := (regs b)(unat r := v)\<rparr>))"

definition alloc :: "pcb_t \<Rightarrow> u32 \<Rightarrow> u32 \<Rightarrow> old_mem \<Rightarrow> (int \<times> pcb_t \<times> old_mem) outcome" where
  "alloc b size' reg_index m =
    rbind (alloc_mem size' b m) (\<lambda>(addr, b, m).
    if addr = 0 then Inr (1, b, m)
    else rbind (set_reg reg_index addr b) (\<lambda>b. Inr (0, b, m)))"

definition free_data :: "pcb_t \<Rightarrow> u32 \<Rightarrow> int outcome" where
  "free_data b reg_index = rbind (get_reg b reg_index) (\<lambda>a. Inr (free_mem a b))"

text \<open>\<open>junk\<close> is the uninitialised local \<open>data\<close>, \<open>pa\<close> that of \<open>read_mem\<close>.\<close>

definition cpu_read :: "u8 \<Rightarrow> u32 \<Rightarrow> pcb_t \<Rightarrow> u32 \<Rightarrow> u32 \<Rightarrow> u32 \<Rightarrow> old_mem \<Rightarrow> (int \<times> pcb_t) outcome" where
  "cpu_read junk pa b source offset destination m =
    rbind (get_reg b source) (\<lambda>a.
    rbind (read_mem pa (a + offset) b junk m) (\<lambda>(r, data).
    if r \<noteq> 0 then rbind (set_reg destination (u32_of_byte data) b) (\<lambda>b. Inr (0, b))
    else Inr (1, b)))"

definition cpu_write :: "u32 \<Rightarrow> pcb_t \<Rightarrow> u8 \<Rightarrow> u32 \<Rightarrow> u32 \<Rightarrow> old_mem \<Rightarrow> (int \<times> old_mem) outcome" where
  "cpu_write pa b data destination offset m =
    rbind (get_reg b destination) (\<lambda>a. write_mem pa (a + offset) b data m)"

section \<open>The address split\<close>

lemma uint_get_offset: "uint (get_offset a) = uint a mod 1024"
proof -
  have "get_offset a = take_bit 10 a"
    by (rule bit_word_eqI) (auto simp: get_offset_def mem_consts bit_simps)
  then have "uint (get_offset a) = take_bit 10 (uint a)"
    by (simp only: unsigned_take_bit_eq)
  then show ?thesis by (simp add: take_bit_eq_mod)
qed

lemma uint_drop: "uint (drop_bit n (a :: u32)) = uint a div 2 ^ n"
proof -
  have "take_bit 32 (uint a) = uint a"
    using uint_lt2p [of a] by (intro take_bit_int_eq_self) simp_all
  then show ?thesis
    using unsigned_drop_bit_eq [of n a, where 'a = int] by (simp only: drop_bit_eq_div) simp
qed

lemma uint_get_first_lv: "uint (get_first_lv a) = uint a div 32768"
  by (simp add: get_first_lv_def mem_consts uint_drop)

lemma uint_get_second_lv: "uint (get_second_lv a) = uint a div 1024 mod 32"
proof -
  have "push_bit 5 (drop_bit 15 a) = drop_bit 10 a - take_bit 5 (drop_bit 10 a)"
  proof -
    have "push_bit 5 (drop_bit 5 (drop_bit 10 a)) + take_bit 5 (drop_bit 10 a) = drop_bit 10 a"
      by (rule bits_ident)
    then show ?thesis by (simp add: eq_diff_eq)
  qed
  then have "get_second_lv a = take_bit 5 (drop_bit 10 a)"
    by (simp add: get_second_lv_def get_first_lv_def mem_consts)
  then have "uint (get_second_lv a) = take_bit 5 (uint (drop_bit 10 a))"
    by (simp only: unsigned_take_bit_eq)
  then show ?thesis by (simp add: uint_drop take_bit_eq_mod)
qed

lemma address_split:
  "uint a = uint (get_first_lv a) * 32768 + uint (get_second_lv a) * 1024 + uint (get_offset a)"
proof -
  have "uint a = uint a div 1024 * 1024 + uint a mod 1024" by simp
  moreover have "uint a div 1024 = uint a div 1024 div 32 * 32 + uint a div 1024 mod 32" by simp
  moreover have "uint a div 1024 div 32 = uint a div 32768" by (simp add: zdiv_zmult2_eq [symmetric])
  ultimately show ?thesis
    unfolding uint_get_offset uint_get_first_lv uint_get_second_lv by linarith
qed

section \<open>No access reaches the memory\<close>

lemma translate_fails: "translate a pa b = (0, pa)"
  by (simp add: translate_def get_trans_table_def)

lemma alloc_mem_fails: "\<not> mem_lock m \<Longrightarrow> alloc_mem n b m = Inr (0, b, m)"
  by (simp add: alloc_mem_def Let_def)

lemma mem_access_fails:
  "read_mem pa a b d m = Inr (1, d)" "write_mem pa a b d m = Inr (1, m)"
  by (simp_all add: read_mem_def write_mem_def translate_fails)

lemma alloc_fails: "\<not> mem_lock m \<Longrightarrow> alloc b n r m = Inr (1, b, m)"
  by (simp add: alloc_def alloc_mem_fails)

lemma write_fails: "reg_index_ok r \<Longrightarrow> cpu_write pa b d r off m = Inr (1, m)"
  by (simp add: cpu_write_def get_reg_def mem_access_fails)

text \<open>\<open>read\<close> tests the result the wrong way round: it reports success, and junk.\<close>

lemma read_reports_junk:
  "reg_index_ok s \<Longrightarrow> reg_index_ok d \<Longrightarrow>
    cpu_read junk pa b s off d m = Inr (0, b\<lparr>regs := (regs b)(unat d := u32_of_byte junk)\<rparr>)"
  by (simp add: cpu_read_def get_reg_def set_reg_def mem_access_fails)

text \<open>
  The instructions over the obsolete memory never reach it: \<open>alloc\<close> and \<open>write\<close> always
  report failure, and \<open>read\<close>, which tests the result the wrong way round, reports success
  with whatever its uninitialised local held.
\<close>

lemma obsolete_access_never_reaches_memory:
  assumes "\<not> mem_lock m" and "reg_index_ok s" and "reg_index_ok d"
  shows "alloc b n d m = Inr (1, b, m) \<and> cpu_write pa b x s off m = Inr (1, m) \<and>
    cpu_read junk pa b s off d m = Inr (0, b\<lparr>regs := (regs b)(unat d := u32_of_byte junk)\<rparr>)"
  using alloc_fails [OF assms(1)] write_fails [OF assms(2)] read_reports_junk [OF assms(2,3)] by blast

end
