(* ===== verification/Syscall.thy ===== *)
theory Syscall
  imports Sched Mem
begin

text \<open>
  The kernel state and the system calls (\<open>src/syscall.c\<close>, \<open>src/libstd.c\<close>,
  \<open>src/sys_listsyscall.c\<close>, \<open>src/sys_mem.c\<close>, \<open>src/sys_killall.c\<close> and the table
  \<open>src/syscall.tbl\<close> they are generated from).  The kernel is the heap of PCBs, the
  scheduler, RAM and the active swap device, the mutex of the memory library, the
  loader's next pid, and the lines that \<open>listsyscall\<close> printed (no other output is
  recorded).
\<close>

section \<open>The kernel\<close>

record kernel =
  k_heap :: heap
  k_sched :: sched_t
  k_mram :: memphy_struct
  k_mswp :: memphy_struct
  k_mmvm_lock :: bool
  avail_pid :: u32
  k_out :: "string list"

text \<open>What the memory library sees of the kernel when process \<open>b\<close> calls it, and back.\<close>

definition ctx_of :: "kernel \<Rightarrow> pcb_t \<Rightarrow> vmctx" where
  "ctx_of k b = \<lparr>c_mm = mm b, c_mram = k_mram k, c_mswp = k_mswp k, c_lock = k_mmvm_lock k\<rparr>"

definition put_ctx :: "kernel \<Rightarrow> pcb_ptr \<Rightarrow> pcb_t \<Rightarrow> vmctx \<Rightarrow> kernel" where
  "put_ctx k p b c = k\<lparr>k_heap := (k_heap k)(p \<mapsto> b\<lparr>mm := c_mm c\<rparr>),
     k_mram := c_mram c, k_mswp := c_mswp c, k_mmvm_lock := c_lock c\<rparr>"

definition on_ctx :: "kernel \<Rightarrow> pcb_ptr \<Rightarrow> (vmctx \<Rightarrow> ('r \<times> vmctx) outcome) \<Rightarrow> ('r \<times> kernel) outcome" where
  "on_ctx k p f =
    rbind (pcb_at (k_heap k) p) (\<lambda>b.
    rbind (f (ctx_of k b)) (\<lambda>(r, c). Inr (r, put_ctx k p b c)))"

text \<open>The queues a PCB points to.  \<open>mlq_ready_queue\<close> points to the first of the array.\<close>

fun sel_queue :: "queue_ptr \<Rightarrow> sched_t \<Rightarrow> queue_t" where
  "sel_queue ReadyQueue s = ready_queue s"
| "sel_queue RunningList s = running_list s"
| "sel_queue MlqReadyQueue s = mlq_ready_queue s 0"

fun upd_queue :: "queue_ptr \<Rightarrow> queue_t \<Rightarrow> sched_t \<Rightarrow> sched_t" where
  "upd_queue ReadyQueue q s = s\<lparr>ready_queue := q\<rparr>"
| "upd_queue RunningList q s = s\<lparr>running_list := q\<rparr>"
| "upd_queue MlqReadyQueue q s = s\<lparr>mlq_ready_queue := (mlq_ready_queue s)(0 := q)\<rparr>"

definition put_queue :: "queue_ptr \<Rightarrow> queue_t \<Rightarrow> kernel \<Rightarrow> kernel" where
  "put_queue r q k = k\<lparr>k_sched := upd_queue r q (k_sched k)\<rparr>"

definition get_queue :: "queue_ptr \<Rightarrow> kernel \<Rightarrow> queue_t" where
  "get_queue r k = sel_queue r (k_sched k)"

record sc_regs =
  sc_a1 :: u32
  sc_a2 :: u32
  sc_a3 :: u32

section \<open>listsyscall and memmap\<close>

text \<open>The table, in the order of the generated \<open>syscalltbl.lst\<close>, and its printed form.\<close>

definition syscalltbl :: "(nat \<times> string) list" where
  "syscalltbl = [(0, ''sys_listsyscall''), (17, ''sys_memmap''), (101, ''sys_killall'')]"

fun decimal :: "nat \<Rightarrow> string" where
  "decimal n = (if n < 10 then [''0123456789'' ! n] else decimal (n div 10) @ [''0123456789'' ! (n mod 10)])"

declare decimal.simps [simp del]

definition sys_call_table :: "string list" where
  "sys_call_table = map (\<lambda>(nr, sym). decimal nr @ ''-'' @ sym) syscalltbl"

definition syscall_table_size :: nat where
  "syscall_table_size = length sys_call_table"

definition sys_listsyscall :: "kernel \<Rightarrow> (int \<times> kernel) outcome" where
  "sys_listsyscall k =
    Inr (0, k\<lparr>k_out := k_out k @ map (\<lambda>i. sys_call_table ! i) [0..<syscall_table_size]\<rparr>)"

definition sys_ni_syscall :: "kernel \<Rightarrow> (int \<times> kernel) outcome" where
  "sys_ni_syscall k = Inr (0, k)"

definition SYSMEM_MAP_OP :: int where "SYSMEM_MAP_OP = 1"
definition SYSMEM_INC_OP :: int where "SYSMEM_INC_OP = 2"
definition SYSMEM_SWP_OP :: int where "SYSMEM_SWP_OP = 3"
definition SYSMEM_IO_READ :: int where "SYSMEM_IO_READ = 4"
definition SYSMEM_IO_WRITE :: int where "SYSMEM_IO_WRITE = 5"

text \<open>The result holds the registers after the call.\<close>

definition sys_memmap :: "uninit \<Rightarrow> kernel \<Rightarrow> pcb_ptr \<Rightarrow> sc_regs \<Rightarrow> (int \<times> sc_regs \<times> kernel) outcome" where
  "sys_memmap u k caller r =
    (let memop = int_of_u32 (sc_a1 r) in
     if memop = SYSMEM_MAP_OP then Inr (0, r, k)
     else if memop = SYSMEM_INC_OP then
       rbind (on_ctx k caller (\<lambda>c. inc_vma_limit u c (int_of_u32 (sc_a2 r)) (int_of_u32 (sc_a3 r))))
         (\<lambda>(_, k). Inr (0, r, k))
     else if memop = SYSMEM_SWP_OP then
       rbind (on_ctx k caller (\<lambda>c. mm_swap_page (u_byte u) c (int_of_u32 (sc_a2 r)) (int_of_u32 (sc_a3 r))))
         (\<lambda>(_, k). Inr (0, r, k))
     else if memop = SYSMEM_IO_READ then
       rbind (MEMPHY_read (k_mram k) (int_of_u32 (sc_a2 r)) (u_byte u)) (\<lambda>(_, v, ram).
       Inr (0, r\<lparr>sc_a3 := u32_of_byte v\<rparr>, k\<lparr>k_mram := ram\<rparr>))
     else if memop = SYSMEM_IO_WRITE then
       rbind (MEMPHY_write (k_mram k) (int_of_u32 (sc_a2 r)) (byte_of_u32 (sc_a3 r))) (\<lambda>(_, ram).
       Inr (0, r, k\<lparr>k_mram := ram\<rparr>))
     else Inr (0, r, k))"

section \<open>killall\<close>

text \<open>
  Reading the name: bytes of the region until one reads as \<open>-1\<close>.  \<open>acc\<close> is what
  \<open>temp_name\<close>, a buffer of 100 bytes, holds so far.
\<close>

function name_loop :: "uninit \<Rightarrow> u32 \<Rightarrow> nat \<Rightarrow> u8 list \<Rightarrow> vmctx \<Rightarrow> (u8 list \<times> vmctx) outcome" where
  "name_loop u memrg i acc c =
    rbind (libread u c memrg (of_nat i)) (\<lambda>(_, data, c).
    rbind (assert_that (i < 100) OutOfBounds) (\<lambda>_.
    if data = -1 then Inr (acc, c)
    else name_loop u memrg (i + 1) (acc @ [byte_of_u32 data]) c))"
  by pat_completeness auto
termination
  by (relation "measure (\<lambda>(u, memrg, i, acc, c). 100 - i)") auto

declare name_loop.simps [simp del]

definition c_string :: "u8 list \<Rightarrow> string" where
  "c_string bs = map (\<lambda>b. char_of (unat b)) (takeWhile (\<lambda>b. b \<noteq> 0) bs)"

text \<open>\<open>strcat\<close> into the 100 bytes of \<open>proc_name\<close>.\<close>

definition full_name :: "u8 list \<Rightarrow> string outcome" where
  "full_name bs =
    (let n = ''input/proc/'' @ c_string bs
     in rbind (assert_that (length n < 100) OutOfBounds) (\<lambda>_. Inr n))"

text \<open>The loop over the running list, \<open>n\<close> rounds, and the loop over the ready queue.\<close>

fun kill_running :: "nat \<Rightarrow> queue_ptr \<Rightarrow> pcb_ptr \<Rightarrow> string \<Rightarrow> int \<Rightarrow> kernel \<Rightarrow> (int \<times> kernel) outcome" where
  "kill_running 0 r caller name killed k = Inr (killed, k)"
| "kill_running (Suc n) r caller name killed k =
    rbind (dequeue (k_heap k) (get_queue r k)) (\<lambda>(target, q).
    let k = put_queue r q k in
    case target of
      None \<Rightarrow> kill_running n r caller name killed k
    | Some t \<Rightarrow>
        rbind (pcb_at (k_heap k) t) (\<lambda>b.
        if pid b = 0 \<or> t = caller then
          kill_running n r caller name killed (put_queue r (enqueue q (Some t)) k)
        else if path b = name then
          kill_running n r caller name (killed + 1)
            (k\<lparr>k_heap := (k_heap k)(t \<mapsto> b\<lparr>pc := code_size (pcb_code b)\<rparr>)\<rparr>)
        else kill_running n r caller name killed (put_queue r (enqueue q (Some t)) k)))"

definition free_pcb :: "pcb_ptr \<Rightarrow> kernel \<Rightarrow> kernel" where
  "free_pcb p k = k\<lparr>k_heap := (k_heap k)(p := None)\<rparr>"

fun kill_ready :: "nat \<Rightarrow> queue_ptr \<Rightarrow> pcb_ptr \<Rightarrow> u32 \<Rightarrow> string \<Rightarrow> int \<Rightarrow> kernel \<Rightarrow> (int \<times> kernel) outcome" where
  "kill_ready 0 r caller memrg name killed k = Inr (killed, k)"
| "kill_ready (Suc n) r caller memrg name killed k =
    rbind (dequeue (k_heap k) (get_queue r k)) (\<lambda>(target, q).
    let k = put_queue r q k in
    case target of
      None \<Rightarrow> kill_ready n r caller memrg name killed k
    | Some t \<Rightarrow>
        rbind (pcb_at (k_heap k) t) (\<lambda>b.
        if pid b = 0 \<or> t = caller then
          kill_ready n r caller memrg name killed (put_queue r (enqueue q (Some t)) k)
        else if path b = name then
          rbind (on_ctx k t (\<lambda>c. libfree c memrg)) (\<lambda>(_, k).
          kill_ready n r caller memrg name (killed + 1) (free_pcb t k))
        else kill_ready n r caller memrg name killed (put_queue r (enqueue q (Some t)) k)))"

definition sys_killall :: "uninit \<Rightarrow> kernel \<Rightarrow> pcb_ptr \<Rightarrow> sc_regs \<Rightarrow> (int \<times> kernel) outcome" where
  "sys_killall u k caller r =
    (let memrg = sc_a1 r in
     rbind (on_ctx k caller (name_loop u memrg 0 [])) (\<lambda>(bytes, k).
     rbind (full_name bytes) (\<lambda>name.
     rbind (pcb_at (k_heap k) caller) (\<lambda>b.
     rbind (deref (p_running_list b)) (\<lambda>run_q.
     rbind (deref (p_mlq_ready_queue b)) (\<lambda>mlq_q.
     rbind (kill_running (q_size (get_queue run_q k)) run_q caller name 0 k) (\<lambda>(killed, k).
     rbind (kill_ready (q_size (get_queue mlq_q k)) mlq_q caller memrg name killed k) (\<lambda>(killed, k).
     rbind (on_ctx k caller (\<lambda>c. libfree c memrg)) (\<lambda>(_, k).
     Inr (killed, k))))))))))"

section \<open>The dispatcher\<close>

definition syscall :: "uninit \<Rightarrow> kernel \<Rightarrow> pcb_ptr \<Rightarrow> u32 \<Rightarrow> sc_regs \<Rightarrow> (int \<times> kernel) outcome" where
  "syscall u k caller nr r =
    (if nr = 0 then sys_listsyscall k
     else if nr = 17 then rbind (sys_memmap u k caller r) (\<lambda>(ret, _, k). Inr (ret, k))
     else if nr = 101 then sys_killall u k caller r
     else sys_ni_syscall k)"

definition libsyscall :: "uninit \<Rightarrow> kernel \<Rightarrow> pcb_ptr \<Rightarrow> u32 \<Rightarrow> u32 \<Rightarrow> u32 \<Rightarrow> u32 \<Rightarrow> (int \<times> kernel) outcome" where
  "libsyscall u k caller syscall_idx a1 a2 a3 =
    syscall u k caller syscall_idx \<lparr>sc_a1 = a1, sc_a2 = a2, sc_a3 = a3\<rparr>"

end
