(* ===== verification/Paging.thy ===== *)
theory Paging
  imports Libmem
begin

text \<open>
  Correctness of byte access and demand paging (\<open>pg_getpage\<close>, \<open>pg_getval\<close>,
  \<open>pg_setval\<close> of \<open>libmem.c\<close>).  \<open>paging_inv\<close> is the invariant of a process's page
  table, its page list and the RAM pool; \<open>va_view\<close> is the abstract memory of the process
  (virtual address to byte), and the concrete functions refine its lookup and update: the
  process memory is a \<open>byte_device\<close> again.
\<close>

section \<open>The invariant and the abstract memory\<close>

definition resident :: "mm_struct \<Rightarrow> int \<Rightarrow> bool" where
  "resident m p \<longleftrightarrow> 0 \<le> p \<and> p < 16384 \<and> PAGING_PAGE_PRESENT (pgd m p) \<and> \<not> PAGING_PAGE_SWAPPED (pgd m p)"

definition frame_of :: "mm_struct \<Rightarrow> int \<Rightarrow> int" where
  "frame_of m p = PAGING_FPN (pgd m p)"

definition paging_inv :: "vmctx \<Rightarrow> bool" where
  "paging_inv c \<longleftrightarrow>
    rdmflg (c_mram c) \<noteq> 0 \<and>
    (\<forall>p. resident (c_mm c) p \<longrightarrow> page_in (c_mram c) (frame_of (c_mm c) p)) \<and>
    inj_on (frame_of (c_mm c)) {p. resident (c_mm c) p} \<and>
    distinct (free_fp_list (c_mram c)) \<and>
    (\<forall>f \<in> set (free_fp_list (c_mram c)). page_in (c_mram c) f \<and> f < 8192 \<and>
       f \<notin> frame_of (c_mm c) ` {p. resident (c_mm c) p}) \<and>
    distinct (fifo_pgn (c_mm c)) \<and>
    set (fifo_pgn (c_mm c)) = {p. resident (c_mm c) p}"

definition va_page :: "int \<Rightarrow> int" where
  "va_page a = PAGING_PGN (u32_of_int a)"

definition va_view :: "mm_struct \<Rightarrow> memphy_struct \<Rightarrow> int \<Rightarrow> u8 option" where
  "va_view m ram a =
    (if resident m (va_page a)
     then Some (storage ram (frame_of m (va_page a) * 256 + PAGING_OFFST (u32_of_int a)))
     else None)"

lemma va_page_eq: "va_page a = a mod 4194304 div 256"
  by (simp add: va_page_def PAGING_PGN_int)

lemma va_page_range [simp]: "0 \<le> va_page a" "va_page a < 16384"
  by (simp_all add: va_page_def)

lemma same_byte_iff:
  "va_page a = va_page b \<and> PAGING_OFFST (u32_of_int a) = PAGING_OFFST (u32_of_int b)
    \<longleftrightarrow> a mod 4194304 = b mod 4194304"
proof -
  have split: "x mod 4194304 = x mod 4194304 div 256 * 256 + x mod 256" for x :: int
  proof -
    have "x mod 4194304 mod 256 = x mod 256" by (simp add: mod_mod_cancel)
    then show ?thesis using div_mult_mod_eq [of "x mod 4194304" 256] by simp
  qed
  have low: "x mod 256 = x mod 4194304 mod 256" for x :: int
    by (simp add: mod_mod_cancel)
  show ?thesis
    unfolding va_page_eq PAGING_OFFST_int
    using split [of a] split [of b] low [of a] low [of b] by metis
qed

lemma phy_addr_eq: "0 \<le> f \<Longrightarrow> f < 8388608 \<Longrightarrow> 0 \<le> off \<Longrightarrow> off < 256 \<Longrightarrow> phy_addr f off = f * 256 + off"
  by (simp add: phy_addr_def push_bit_eq_mult i32_id)

lemma frame_of_range [simp]: "0 \<le> frame_of m p" "frame_of m p < 8192"
  by (simp_all add: frame_of_def)

lemma resident_other [simp]:
  "resident (m\<lparr>fifo_pgn := l\<rparr>) = resident m" "resident (m\<lparr>mmap := vs\<rparr>) = resident m"
  "resident (m\<lparr>symrgtbl := t\<rparr>) = resident m"
  by (simp_all add: resident_def fun_eq_iff)

lemma frame_of_other [simp]:
  "frame_of (m\<lparr>fifo_pgn := l\<rparr>) = frame_of m" "frame_of (m\<lparr>mmap := vs\<rparr>) = frame_of m"
  "frame_of (m\<lparr>symrgtbl := t\<rparr>) = frame_of m"
  by (simp_all add: frame_of_def fun_eq_iff)

lemma resident_present: "resident m p \<Longrightarrow> PAGING_PAGE_PRESENT (pgd m p)"
  by (simp add: resident_def)

section \<open>Resident pages\<close>

lemma pg_getpage_resident:
  "resident (c_mm c) p \<Longrightarrow> pg_getpage u p fpn c = Inr (0, frame_of (c_mm c) p, c)"
  by (auto simp: pg_getpage_def resident_def frame_of_def)

lemma paging_inv_byte:
  assumes "paging_inv c" and "resident (c_mm c) (va_page a)"
  shows "in_storage (c_mram c) (frame_of (c_mm c) (va_page a) * 256 + PAGING_OFFST (u32_of_int a))"
    and "rdmflg (c_mram c) \<noteq> 0"
  using assms page_in_storage by (auto simp: paging_inv_def)

lemma pg_getval_resident:
  assumes "paging_inv c" and "resident (c_mm c) (va_page a)"
  shows "pg_getval u a d c = Inr (0, the (va_view (c_mm c) (c_mram c) a), c)"
  using assms paging_inv_byte [OF assms]
  by (simp add: pg_getval_def Let_def va_page_def [symmetric] pg_getpage_resident phy_addr_eq
      order_less_trans [OF frame_of_range(2)] va_view_def)

lemma pg_setval_resident:
  assumes "paging_inv c" and "resident (c_mm c) (va_page a)"
  shows "pg_setval u a v c = Inr (0, c\<lparr>c_mram := (c_mram c)\<lparr>storage :=
    (storage (c_mram c))(frame_of (c_mm c) (va_page a) * 256 + PAGING_OFFST (u32_of_int a) := v)\<rparr>\<rparr>)"
  using assms paging_inv_byte [OF assms]
  by (simp add: pg_setval_def Let_def va_page_def [symmetric] pg_getpage_resident phy_addr_eq
      order_less_trans [OF frame_of_range(2)])

lemma phys_byte_inj:
  assumes "0 \<le> o1" "o1 < 256" "0 \<le> o2" "o2 < (256 :: int)"
  shows "f * 256 + o1 = g * 256 + o2 \<longleftrightarrow> f = g \<and> o1 = o2"
proof
  assume eq: "f * 256 + o1 = g * 256 + o2"
  have "f = (f * 256 + o1) div 256" "g = (g * 256 + o2) div 256" using assms by simp_all
  with eq show "f = g \<and> o1 = o2" by simp
qed simp

lemma va_view_update:
  assumes inv: "paging_inv c" and res: "resident (c_mm c) (va_page a)"
  shows "va_view (c_mm c) ((c_mram c)\<lparr>storage :=
      (storage (c_mram c))(frame_of (c_mm c) (va_page a) * 256 + PAGING_OFFST (u32_of_int a) := v)\<rparr>) b =
    (if b mod 4194304 = a mod 4194304 then Some v else va_view (c_mm c) (c_mram c) b)"
proof -
  have "frame_of (c_mm c) (va_page b) = frame_of (c_mm c) (va_page a) \<longleftrightarrow> va_page b = va_page a"
    if "resident (c_mm c) (va_page b)"
    using inv res that by (auto simp: paging_inv_def inj_on_def)
  then show ?thesis
    using res same_byte_iff [of b a] by (auto simp: va_view_def phys_byte_inj)
qed

lemma paging_inv_storage:
  "paging_inv (c\<lparr>c_mram := (c_mram c)\<lparr>storage := f\<rparr>\<rparr>) = paging_inv c"
  by (simp add: paging_inv_def page_in_def)

text \<open>
  The process memory below 4 MB as a byte device: its store is \<open>pg_setval\<close>, its load
  \<open>pg_getval\<close>, and the accepted addresses are those of resident pages.
\<close>

definition va_ok :: "vmctx \<Rightarrow> int \<Rightarrow> bool" where
  "va_ok c a \<longleftrightarrow> paging_inv c \<and> resident (c_mm c) (va_page a) \<and> 0 \<le> a \<and> a < 4194304"

definition va_load :: "uninit \<Rightarrow> vmctx \<Rightarrow> int \<Rightarrow> u8" where
  "va_load u c a =
    (if va_ok c a then (case pg_getval u a 0 c of Inr (_, v, _) \<Rightarrow> v | Inl _ \<Rightarrow> 0) else 0)"

definition va_store :: "uninit \<Rightarrow> vmctx \<Rightarrow> int \<Rightarrow> u8 \<Rightarrow> vmctx" where
  "va_store u c a v = (case pg_setval u a v c of Inr (_, c') \<Rightarrow> c' | Inl _ \<Rightarrow> c)"

lemma va_store_eq:
  "va_ok c a \<Longrightarrow> va_store u c a v = c\<lparr>c_mram := (c_mram c)\<lparr>storage :=
    (storage (c_mram c))(frame_of (c_mm c) (va_page a) * 256 + PAGING_OFFST (u32_of_int a) := v)\<rparr>\<rparr>"
  by (simp add: va_store_def va_ok_def pg_setval_resident)

lemma va_load_eq: "va_ok c a \<Longrightarrow> va_load u c a = the (va_view (c_mm c) (c_mram c) a)"
  by (simp add: va_load_def va_ok_def pg_getval_resident)

interpretation vmem: byte_device "va_load u" "va_store u" va_ok for u
proof unfold_locales
  fix c a x b
  assume ok: "va_ok c a"
  let ?c = "va_store u c a x"
  have eq: "?c = c\<lparr>c_mram := (c_mram c)\<lparr>storage := (storage (c_mram c))
      (frame_of (c_mm c) (va_page a) * 256 + PAGING_OFFST (u32_of_int a) := x)\<rparr>\<rparr>"
    by (rule va_store_eq [OF ok])
  have okc: "va_ok ?c d = va_ok c d" for d
    unfolding va_ok_def eq by (simp add: paging_inv_storage)
  have view: "va_view (c_mm ?c) (c_mram ?c) d =
      (if d mod 4194304 = a mod 4194304 then Some x else va_view (c_mm c) (c_mram c) d)" for d
    using va_view_update [of c a x d] ok by (simp add: eq va_ok_def)
  show "va_load u ?c a = x"
    using ok okc [of a] view [of a] by (simp add: va_load_eq)
  show "va_ok ?c b = va_ok c b"
    by (rule okc)
  assume "b \<noteq> a"
  show "va_load u ?c b = va_load u c b"
  proof (cases "va_ok c b")
    case True
    then have "b mod 4194304 \<noteq> a mod 4194304" using ok \<open>b \<noteq> a\<close> by (simp add: va_ok_def)
    then show ?thesis using True okc [of b] view [of b] by (simp add: va_load_eq)
  next
    case False
    then show ?thesis using okc [of b] by (simp add: va_load_def)
  qed
qed

section \<open>Bringing a page in\<close>

definition ram_page :: "memphy_struct \<Rightarrow> int \<Rightarrow> int \<Rightarrow> u8" where
  "ram_page mp f i = storage mp (f * 256 + i)"

text \<open>The storage of \<open>mp\<close> with page \<open>g\<close> replaced by the bytes \<open>pg\<close>.\<close>

definition put_page :: "memphy_struct \<Rightarrow> int \<Rightarrow> (int \<Rightarrow> u8) \<Rightarrow> memphy_struct" where
  "put_page mp g pg = mp\<lparr>storage := (\<lambda>a. if g * 256 \<le> a \<and> a < g * 256 + 256
     then pg (a - g * 256) else storage mp a)\<rparr>"

lemma put_page_other [simp]:
  "maxsz (put_page mp g pg) = maxsz mp" "rdmflg (put_page mp g pg) = rdmflg mp"
  "free_fp_list (put_page mp g pg) = free_fp_list mp" "page_in (put_page mp g pg) f = page_in mp f"
  by (simp_all add: put_page_def page_in_def)

lemma ram_page_put_page:
  "0 \<le> i \<Longrightarrow> i < 256 \<Longrightarrow> ram_page (put_page mp g pg) f i = (if f = g then pg i else ram_page mp f i)"
  using phys_byte_inj [of i] by (auto simp: ram_page_def put_page_def)

lemma swap_cp_page_put:
  assumes "rdmflg src \<noteq> 0" and "rdmflg dst \<noteq> 0" and "page_in src f" and "page_in dst g"
  shows "swap_cp_page j src f dst g = Inr (src, put_page dst g (ram_page src f))"
  unfolding put_page_def ram_page_def by (rule swap_cp_page_eq [OF assms])

text \<open>The state after \<open>pg_swapin\<close>, when the victim is \<open>v\<close> and its swap frame \<open>s\<close>.\<close>

definition swapped_in :: "int \<Rightarrow> int \<Rightarrow> int \<Rightarrow> int list \<Rightarrow> vmctx \<Rightarrow> vmctx" where
  "swapped_in p v s ss c =
    (let m = c_mm c; f = frame_of m v; t = PAGING_PTE_SWP (pgd m p);
         swp = put_page ((c_mswp c)\<lparr>free_fp_list := ss\<rparr>) s (ram_page (c_mram c) f)
     in c\<lparr>c_mm := m\<lparr>pgd := (pgd m)(v := pte_set_swap (pgd m v) 0 s, p := pte_set_fpn (pgd m p) f),
                    fifo_pgn := p # butlast (fifo_pgn m)\<rparr>,
          c_mram := put_page (c_mram c) f (ram_page swp t),
          c_mswp := swp\<rparr>)"

lemma page_in_free_upd [simp]: "page_in (mp\<lparr>free_fp_list := l\<rparr>) f = page_in mp f"
  by (simp add: page_in_def)

lemma pg_swapin_eq:
  assumes inv: "paging_inv c" and fifo: "fifo_pgn (c_mm c) \<noteq> []"
    and p: "\<not> PAGING_PAGE_PRESENT (pgd (c_mm c) p)"
    and swp: "rdmflg (c_mswp c) \<noteq> 0" "free_fp_list (c_mswp c) = s # ss"
      "page_in (c_mswp c) s" "page_in (c_mswp c) (PAGING_PTE_SWP (pgd (c_mm c) p))"
  shows "pg_swapin u p c = Inr (0, swapped_in p (last (fifo_pgn (c_mm c))) s ss c)"
proof -
  let ?v = "last (fifo_pgn (c_mm c))"
  have "?v \<in> set (fifo_pgn (c_mm c))" using fifo by simp
  then have v: "resident (c_mm c) ?v" using inv by (simp add: paging_inv_def)
  then have vr: "0 \<le> ?v" "?v < 16384" "p \<noteq> ?v" using p by (auto simp: resident_def)
  have ram: "rdmflg (c_mram c) \<noteq> 0" "page_in (c_mram c) (frame_of (c_mm c) ?v)"
    using inv v by (auto simp: paging_inv_def)
  show ?thesis
    using fifo swp vr ram
    by (simp add: pg_swapin_def Let_def find_victim_page_eq pgd_ref_def swap_cp_page_put
        frame_of_def [symmetric] set_pte_def enlist_pgn_node_def swapped_in_def)
qed

lemma resident_swapped_in:
  assumes "0 \<le> p" "p < 16384" "p \<noteq> v"
  shows "resident (c_mm (swapped_in p v s ss c)) q \<longleftrightarrow> q = p \<or> (resident (c_mm c) q \<and> q \<noteq> v)"
  using assms by (auto simp: resident_def swapped_in_def Let_def)

lemma frame_of_swapped_in:
  assumes "p \<noteq> v"
  shows "frame_of (c_mm (swapped_in p v s ss c)) q =
    (if q = p then frame_of (c_mm c) v
     else if q = v then 32 * (s mod 256) else frame_of (c_mm c) q)"
proof -
  have "frame_of (c_mm c) v mod 8192 = frame_of (c_mm c) v"
    by (rule mod_pos_pos_trivial) simp_all
  then show ?thesis
    using assms by (auto simp: frame_of_def swapped_in_def Let_def PAGING_FPN_set_fpn PAGING_FPN_set_swap)
qed

lemma paging_inv_swapped_in:
  assumes inv: "paging_inv c" and fifo: "fifo_pgn (c_mm c) \<noteq> []"
    and p: "0 \<le> p" "p < 16384" "\<not> PAGING_PAGE_PRESENT (pgd (c_mm c) p)"
  shows "paging_inv (swapped_in p (last (fifo_pgn (c_mm c))) s ss c)"
proof -
  define v where "v = last (fifo_pgn (c_mm c))"
  let ?c = "swapped_in p v s ss c"
  have set_fifo: "set (fifo_pgn (c_mm c)) = {q. resident (c_mm c) q}"
    and dist: "distinct (fifo_pgn (c_mm c))" using inv by (simp_all add: paging_inv_def)
  obtain xs where xs: "fifo_pgn (c_mm c) = xs @ [v]"
    using fifo v_def append_butlast_last_id by metis
  have v: "resident (c_mm c) v" using set_fifo xs by auto
  have pn: "\<not> resident (c_mm c) p" "p \<noteq> v" using p v by (auto simp: resident_def)
  note res = resident_swapped_in [OF p(1,2) pn(2), of s ss c]
    and fr = frame_of_swapped_in [OF pn(2), of s ss c]
  have other: "rdmflg (c_mram ?c) = rdmflg (c_mram c)" "page_in (c_mram ?c) = page_in (c_mram c)"
    "free_fp_list (c_mram ?c) = free_fp_list (c_mram c)"
    "fifo_pgn (c_mm ?c) = p # butlast (fifo_pgn (c_mm c))"
    by (auto simp: swapped_in_def Let_def)
  have but: "set (butlast (fifo_pgn (c_mm c))) = {q. resident (c_mm c) q} - {v}"
    "distinct (butlast (fifo_pgn (c_mm c)))"
    using set_fifo dist unfolding xs by auto
  have inj: "frame_of (c_mm c) q = frame_of (c_mm c) r \<Longrightarrow> q = r"
    if "resident (c_mm c) q" "resident (c_mm c) r" for q r
    using inv that by (auto simp: paging_inv_def inj_on_def)
  let ?R = "{q. resident (c_mm c) q}"
  have R': "{q. resident (c_mm ?c) q} = insert p (?R - {v})"
    by (auto simp: res)
  have "inj_on (frame_of (c_mm ?c)) (insert p (?R - {v}))"
    using inj v pn by (auto simp: inj_on_def fr)
  moreover have img: "frame_of (c_mm ?c) ` insert p (?R - {v}) = frame_of (c_mm c) ` ?R"
    using v pn by (auto simp: fr image_iff)
  moreover have "\<forall>q. resident (c_mm ?c) q \<longrightarrow> page_in (c_mram c) (frame_of (c_mm ?c) q)"
    using inv v by (auto simp: res fr paging_inv_def)
  ultimately show ?thesis
    using inv but pn unfolding v_def [symmetric] paging_inv_def other R'
    by (simp only: img) auto
qed

end
