(* ===== verification/Regions.thy ===== *)
theory Regions
  imports Paging
begin

text \<open>
  Correctness of region allocation (\<open>get_free_vmrg_area\<close>, \<open>__alloc\<close>, \<open>__free\<close> of
  \<open>libmem.c\<close> with \<open>inc_vma_limit\<close> of \<open>mm-vm.c\<close>): the search of the free list ends
  and hands out memory of the list that is gone from it afterwards; growing the area keeps
  the paging invariant; the mutex is released on every path.
\<close>

section \<open>Regions as sets of addresses\<close>

definition cells :: "vm_rg_struct \<Rightarrow> int set" where
  "cells rg = {uint (rg_start rg)..<uint (rg_end rg)}"

definition cells_of :: "vm_rg_struct list \<Rightarrow> int set" where
  "cells_of l = (\<Union>rg \<in> set l. cells rg)"

fun disjoint_rgs :: "vm_rg_struct list \<Rightarrow> bool" where
  "disjoint_rgs [] \<longleftrightarrow> True"
| "disjoint_rgs (rg # l) \<longleftrightarrow> cells rg \<inter> cells_of l = {} \<and> disjoint_rgs l"

text \<open>
  The regions are intervals, and none is so high that adding a size to its end wraps
  around.
\<close>

definition below :: "u64 \<Rightarrow> vm_rg_struct list \<Rightarrow> bool" where
  "below sz l \<longleftrightarrow>
    (\<forall>rg \<in> set l. uint (rg_start rg) \<le> uint (rg_end rg) \<and> uint (rg_end rg) + uint sz < 2 ^ 64)"

lemma cells_of_simps [simp]:
  "cells_of [] = {}" "cells_of (rg # l) = cells rg \<union> cells_of l" "cells_of (k @ l) = cells_of k \<union> cells_of l"
  by (auto simp: cells_of_def)

lemma disjoint_rgs_append:
  "disjoint_rgs (k @ l) \<longleftrightarrow> disjoint_rgs k \<and> disjoint_rgs l \<and> cells_of k \<inter> cells_of l = {}"
  by (induction k) auto

lemma below_simps [simp]:
  "below sz []" "below sz (rg # l) \<longleftrightarrow> uint (rg_start rg) \<le> uint (rg_end rg) \<and>
    uint (rg_end rg) + uint sz < 2 ^ 64 \<and> below sz l"
  "below sz (k @ l) \<longleftrightarrow> below sz k \<and> below sz l"
  by (auto simp: below_def)

section \<open>The search loop\<close>

lemma uint_plus_no_wrap: "uint (a :: u64) + uint b < 2 ^ 64 \<Longrightarrow> uint (a + b) = uint a + uint b"
  by (simp add: uint_word_ariths mod_pos_pos_trivial)

lemma loop_Nil: "free_rg_loop vmaid sz pre [] new = Some (False, new, pre)"
  by (subst free_rg_loop.simps) simp

lemma loop_other_area:
  "rg_vmaid rg \<noteq> vmaid \<Longrightarrow> free_rg_loop vmaid sz pre (rg # nxt) new = Some (False, new, pre @ rg # nxt)"
  by (subst free_rg_loop.simps) simp

lemma loop_too_small:
  "rg_vmaid rg = vmaid \<Longrightarrow> \<not> rg_start rg + sz \<le> rg_end rg \<Longrightarrow>
    free_rg_loop vmaid sz pre (rg # nxt) new = free_rg_loop vmaid sz (pre @ [rg]) nxt new"
  by (subst free_rg_loop.simps) simp

lemma loop_larger:
  "rg_vmaid rg = vmaid \<Longrightarrow> rg_start rg + sz < rg_end rg \<Longrightarrow>
    free_rg_loop vmaid sz pre (rg # nxt) new =
      Some (True, new\<lparr>rg_start := rg_start rg, rg_end := rg_start rg + sz\<rparr>,
            pre @ rg\<lparr>rg_start := rg_start rg + sz\<rparr> # nxt)"
  by (subst free_rg_loop.simps) (simp add: Let_def order_less_imp_le)

lemma loop_exact_more:
  "rg_vmaid rg = vmaid \<Longrightarrow> rg_start rg + sz = rg_end rg \<Longrightarrow>
    free_rg_loop vmaid sz pre (rg # nx # nxt) new =
      free_rg_loop vmaid sz pre (rg\<lparr>rg_start := rg_start nx, rg_end := rg_end nx\<rparr> # nxt)
        (new\<lparr>rg_start := rg_start rg, rg_end := rg_end rg\<rparr>)"
  by (subst free_rg_loop.simps) (simp add: Let_def)

lemma loop_exact_last:
  "rg_vmaid rg = vmaid \<Longrightarrow> rg_start rg + sz = rg_end rg \<Longrightarrow>
    free_rg_loop vmaid sz pre [rg] new =
      free_rg_loop vmaid sz pre [rg\<lparr>rg_start := rg_end rg\<rparr>]
        (new\<lparr>rg_start := rg_start rg, rg_end := rg_end rg\<rparr>)"
  by (subst free_rg_loop.simps) (simp add: Let_def)

text \<open>An emptied last region ends the search, for a positive size.\<close>

lemma loop_exact_last_end:
  assumes "rg_vmaid rg = vmaid" "rg_start rg + sz = rg_end rg" "0 < uint sz"
    and "uint (rg_end rg) + uint sz < 2 ^ 64"
  shows "free_rg_loop vmaid sz pre [rg] new =
    Some (False, new\<lparr>rg_start := rg_start rg, rg_end := rg_end rg\<rparr>, pre @ [rg\<lparr>rg_start := rg_end rg\<rparr>])"
proof -
  have "\<not> rg_end rg + sz \<le> rg_end rg"
    using assms(3,4) by (simp add: word_le_def uint_plus_no_wrap)
  then show ?thesis
    using assms(1,2) by (simp add: loop_exact_last loop_too_small loop_Nil)
qed

lemmas loop_steps = loop_Nil loop_other_area loop_too_small loop_larger loop_exact_more

text \<open>The cases of one round.\<close>

lemma loop_cases:
  obtains (Nil) "rest = []"
  | (Other) rg nxt where "rest = rg # nxt" "rg_vmaid rg \<noteq> vmaid"
  | (Small) rg nxt where "rest = rg # nxt" "rg_vmaid rg = vmaid" "\<not> rg_start rg + sz \<le> rg_end rg"
  | (Larger) rg nxt where "rest = rg # nxt" "rg_vmaid rg = vmaid" "rg_start rg + sz < rg_end rg"
  | (Exact) rg nx nxt where "rest = rg # nx # nxt" "rg_vmaid rg = vmaid" "rg_start rg + sz = rg_end rg"
  | (Last) rg where "rest = [rg]" "rg_vmaid rg = vmaid" "rg_start rg + sz = rg_end rg"
proof (cases rest)
  assume "rest = []"
  then show thesis by (rule that(1))
next
  fix rg nxt
  assume rest: "rest = rg # nxt"
  consider "rg_vmaid rg \<noteq> vmaid" | "rg_vmaid rg = vmaid" "\<not> rg_start rg + sz \<le> rg_end rg"
    | "rg_vmaid rg = vmaid" "rg_start rg + sz < rg_end rg"
    | "rg_vmaid rg = vmaid" "rg_start rg + sz = rg_end rg"
    by fastforce
  then show thesis
    using that(2-6) rest by cases (cases nxt, auto)+
qed

lemma free_rg_loop_returns:
  assumes "0 < uint sz" and "below sz rest"
  shows "free_rg_loop vmaid sz pre rest new \<noteq> None"
  using assms(2)
proof (induction "length rest" arbitrary: pre rest new)
  case 0
  then show ?case by (simp add: loop_Nil)
next
  case (Suc n)
  show ?case
    using Suc assms(1)
    by (cases rule: loop_cases [where rest = rest and vmaid = vmaid and sz = sz]) (auto simp: loop_steps loop_exact_last_end)
qed

text \<open>A search that finds nothing leaves the list as it is.\<close>

lemma free_rg_loop_no_fit:
  assumes "\<forall>rg \<in> set rest. \<not> rg_start rg + sz \<le> rg_end rg"
  shows "free_rg_loop vmaid sz pre rest new = Some (False, new, pre @ rest)"
  using assms
proof (induction rest arbitrary: pre)
  case (Cons rg rest)
  then show ?case by (cases "rg_vmaid rg = vmaid") (simp_all add: loop_steps)
qed (simp add: loop_Nil)

text \<open>
  What the search hands out was part of the list and is no longer in it, and what remains
  is still a list of disjoint regions.
\<close>

definition search_ok :: "int set \<Rightarrow> vm_rg_struct \<Rightarrow> vm_rg_struct list \<Rightarrow> bool" where
  "search_ok U new l \<longleftrightarrow>
    disjoint_rgs l \<and> cells_of l \<subseteq> U \<and> cells new \<subseteq> U \<and> cells new \<inter> cells_of l = {}"

lemma search_ok_split:
  assumes "search_ok U new (pre @ rg # nxt)"
    and "cells left \<subseteq> cells rg" "cells got \<subseteq> cells rg" "cells got \<inter> cells left = {}"
  shows "search_ok U got (pre @ left # nxt)"
proof -
  have d: "disjoint_rgs pre" "disjoint_rgs nxt" "cells rg \<inter> cells_of nxt = {}"
    "cells_of pre \<inter> cells rg = {}" "cells_of pre \<inter> cells_of nxt = {}"
    and u: "cells_of pre \<subseteq> U" "cells rg \<subseteq> U" "cells_of nxt \<subseteq> U"
    using assms(1) by (auto simp: search_ok_def disjoint_rgs_append)
  have "cells left \<inter> cells_of nxt = {}" "cells_of pre \<inter> cells left = {}"
    "cells got \<inter> cells_of nxt = {}" "cells got \<inter> cells_of pre = {}" "cells left \<subseteq> U" "cells got \<subseteq> U"
    using d u assms(2,3) by blast+
  then show ?thesis
    using d u assms(4) by (simp add: search_ok_def disjoint_rgs_append Int_Un_distrib)
qed

lemma search_ok_drop:
  assumes "search_ok U new (pre @ rg # nx # nxt)"
    and "cells rg' = cells nx" "cells got = cells rg"
  shows "search_ok U got (pre @ rg' # nxt)"
proof -
  have d: "disjoint_rgs pre" "disjoint_rgs nxt" "cells rg \<inter> cells nx = {}" "cells rg \<inter> cells_of nxt = {}"
    "cells nx \<inter> cells_of nxt = {}" "cells_of pre \<inter> cells nx = {}" "cells rg \<inter> cells_of pre = {}"
    "cells_of pre \<inter> cells_of nxt = {}"
    and u: "cells_of pre \<subseteq> U" "cells rg \<subseteq> U" "cells nx \<subseteq> U" "cells_of nxt \<subseteq> U"
    using assms(1) by (auto simp: search_ok_def disjoint_rgs_append)
  then show ?thesis
    using assms(2,3) by (simp add: search_ok_def disjoint_rgs_append Int_Un_distrib)
qed

lemma free_rg_loop_ok:
  assumes "free_rg_loop vmaid sz pre rest new = Some (ret, new', l')"
    and "0 < uint sz" and "below sz rest" and "search_ok U new (pre @ rest)"
  shows "search_ok U new' l' \<and>
    (new' = new \<and> \<not> ret \<and> l' = pre @ rest \<or>
     rg_vmaid new' = rg_vmaid new \<and> uint (rg_end new') = uint (rg_start new') + uint sz)"
  using assms(1,3,4)
proof (induction "length rest" arbitrary: pre rest new)
  case 0
  then show ?case by (simp add: loop_Nil)
next
  case (Suc n)
  have fit: "uint (rg_start rg + sz) = uint (rg_start rg) + uint sz" if "rg \<in> set rest" for rg
    using Suc.prems(2) that by (auto simp: below_def intro!: uint_plus_no_wrap)
  show ?case
  proof (cases rule: loop_cases [where rest = rest and vmaid = vmaid and sz = sz])
    case (Larger rg nxt)
    let ?left = "rg\<lparr>rg_start := rg_start rg + sz\<rparr>"
    have res: "ret" "new' = new\<lparr>rg_start := rg_start rg, rg_end := rg_start rg + sz\<rparr>"
      "l' = pre @ ?left # nxt"
      using Suc.prems(1) Larger by (simp_all add: loop_larger)
    have sz: "uint (rg_start rg + sz) = uint (rg_start rg) + uint sz" "uint (rg_start rg + sz) < uint (rg_end rg)"
      using Larger fit [of rg] by (simp_all add: word_less_def)
    then have "cells ?left \<subseteq> cells rg" "cells new' \<subseteq> cells rg" "cells new' \<inter> cells ?left = {}"
      using assms(2) by (auto simp: cells_def res)
    then have "search_ok U new' l'"
      unfolding res(3) by (rule search_ok_split [OF Suc.prems(3) [unfolded Larger(1)]])
    then show ?thesis
      using sz res by simp
  next
    case (Exact rg nx nxt)
    let ?rg = "rg\<lparr>rg_start := rg_start nx, rg_end := rg_end nx\<rparr>"
    let ?new = "new\<lparr>rg_start := rg_start rg, rg_end := rg_end rg\<rparr>"
    have run: "free_rg_loop vmaid sz pre (?rg # nxt) ?new = Some (ret, new', l')"
      using Suc.prems(1) Exact by (simp add: loop_exact_more)
    have "cells ?rg = cells nx" "cells ?new = cells rg"
      by (simp_all add: cells_def)
    then have "search_ok U ?new (pre @ ?rg # nxt)"
      by (rule search_ok_drop [OF Suc.prems(3) [unfolded Exact(1)]])
    then have "search_ok U new' l' \<and> (new' = ?new \<and> \<not> ret \<and> l' = pre @ ?rg # nxt \<or>
        rg_vmaid new' = rg_vmaid ?new \<and> uint (rg_end new') = uint (rg_start new') + uint sz)"
      using Suc.hyps(1) [OF _ run] Suc.hyps(2) Suc.prems(2) Exact by simp
    moreover have "uint (rg_end rg) = uint (rg_start rg) + uint sz"
      using fit [of rg] Exact(1,3) by simp
    ultimately show ?thesis by auto
  next
    case (Last rg)
    let ?new = "new\<lparr>rg_start := rg_start rg, rg_end := rg_end rg\<rparr>"
    have got: "l' = pre @ [rg\<lparr>rg_start := rg_end rg\<rparr>]" "new' = ?new"
      using Suc.prems Last assms(2) by (simp_all add: loop_exact_last_end)
    have "search_ok U ?new (pre @ [rg\<lparr>rg_start := rg_end rg\<rparr>])"
      by (rule search_ok_split [OF Suc.prems(3) [unfolded Last(1)]]) (simp_all add: cells_def)
    moreover have "uint (rg_end rg) = uint (rg_start rg) + uint sz"
      using fit [of rg] Last(1,3) by simp
    ultimately show ?thesis by (simp add: got)
  next
    case (Small rg nxt)
    then have "free_rg_loop vmaid sz (pre @ [rg]) nxt new = Some (ret, new', l')"
      using Suc.prems(1) by (simp add: loop_too_small)
    then show ?thesis
      using Suc.hyps(1) [of nxt "pre @ [rg]" new] Suc.hyps(2) Suc.prems Small(1) by simp
  next
    case (Other rg nxt)
    then show ?thesis using Suc.prems(1,3) by (simp add: loop_other_area)
  next
    case Nil
    then show ?thesis using Suc.hyps(2) by simp
  qed
qed

text \<open>
  A region that fits is found, if it stands before the first region of another area, where
  the search ends.
\<close>

definition reached :: "u64 \<Rightarrow> vm_rg_struct list \<Rightarrow> vm_rg_struct list" where
  "reached vmaid l = takeWhile (\<lambda>rg. rg_vmaid rg = vmaid) l"

definition sized :: "u64 \<Rightarrow> vm_rg_struct \<Rightarrow> bool" where
  "sized sz rg \<longleftrightarrow> uint (rg_end rg) = uint (rg_start rg) + uint sz"

lemma free_rg_loop_finds:
  assumes "free_rg_loop vmaid sz pre rest new = Some (ret, new', l')" and "0 < uint sz" and "below sz rest"
    and "sized sz new \<or> (\<exists>rg \<in> set (reached vmaid rest). rg_start rg + sz \<le> rg_end rg)"
  shows "sized sz new'"
  using assms(1,3,4)
proof (induction "length rest" arbitrary: pre rest new)
  case 0
  then show ?case by (simp add: loop_Nil reached_def)
next
  case (Suc n)
  have fit: "uint (rg_start rg + sz) = uint (rg_start rg) + uint sz" if "rg \<in> set rest" for rg
    using Suc.prems(2) that by (auto simp: below_def intro!: uint_plus_no_wrap)
  show ?case
  proof (cases rule: loop_cases [where rest = rest and vmaid = vmaid and sz = sz])
    case (Larger rg nxt)
    then show ?thesis using Suc.prems(1) fit [of rg] by (auto simp: loop_larger sized_def)
  next
    case (Exact rg nx nxt)
    let ?rg = "rg\<lparr>rg_start := rg_start nx, rg_end := rg_end nx\<rparr>"
    let ?new = "new\<lparr>rg_start := rg_start rg, rg_end := rg_end rg\<rparr>"
    have "free_rg_loop vmaid sz pre (?rg # nxt) ?new = Some (ret, new', l')"
      using Suc.prems(1) Exact by (simp add: loop_exact_more)
    moreover have "sized sz ?new" using fit [of rg] Exact(1,3) by (simp add: sized_def)
    ultimately show ?thesis
      using Suc.hyps(1) [of "?rg # nxt" pre ?new] Suc.hyps(2) Suc.prems(2) Exact(1) by simp
  next
    case (Last rg)
    then show ?thesis
      using Suc.prems assms(2) fit [of rg] by (auto simp: loop_exact_last_end sized_def)
  next
    case (Small rg nxt)
    then have "free_rg_loop vmaid sz (pre @ [rg]) nxt new = Some (ret, new', l')"
      using Suc.prems(1) by (simp add: loop_too_small)
    then show ?thesis
      using Suc.hyps(1) [of nxt "pre @ [rg]" new] Suc.hyps(2) Suc.prems(2,3) Small
      by (auto simp: reached_def)
  next
    case (Other rg nxt)
    then show ?thesis using Suc.prems(1,3) by (simp add: loop_other_area reached_def)
  next
    case Nil
    then show ?thesis using Suc.hyps(2) by simp
  qed
qed

text \<open>A request for no bytes never leaves an empty last region.\<close>

lemma loop_empty_region:
  assumes "free_rg_loop vmaid sz pre rgit new = Some r"
  shows "\<not> (sz = 0 \<and> (\<exists>rg. rgit = [rg] \<and> rg_vmaid rg = vmaid \<and> rg_start rg = rg_end rg))"
proof (rule free_rg_loop.raw_induct [OF _ assms, where P =
    "\<lambda>vmaid sz pre rgit new r. \<not> (sz = 0 \<and> (\<exists>rg. rgit = [rg] \<and> rg_vmaid rg = vmaid \<and> rg_start rg = rg_end rg))"])
  fix f :: "u64 \<Rightarrow> u64 \<Rightarrow> vm_rg_struct list \<Rightarrow> vm_rg_struct list \<Rightarrow> vm_rg_struct \<Rightarrow>
      (bool \<times> vm_rg_struct \<times> vm_rg_struct list) option"
    and vmaid sz pre rgit new r
  assume IH: "\<And>vmaid sz pre rgit new r. f vmaid sz pre rgit new = Some r \<Longrightarrow>
      \<not> (sz = 0 \<and> (\<exists>rg. rgit = [rg] \<and> rg_vmaid rg = vmaid \<and> rg_start rg = rg_end rg))"
    and eq: "(case rgit of [] \<Rightarrow> Some (False, new, pre)
     | rg # nxt \<Rightarrow>
         if rg_vmaid rg \<noteq> vmaid then Some (False, new, pre @ rg # nxt)
         else if rg_start rg + sz \<le> rg_end rg then
           (let newrg' = new\<lparr>rg_start := rg_start rg, rg_end := rg_start rg + sz\<rparr> in
            if rg_start rg + sz < rg_end rg
            then Some (True, newrg', pre @ rg\<lparr>rg_start := rg_start rg + sz\<rparr> # nxt)
            else
              (case nxt of
                 [] \<Rightarrow> f vmaid sz pre [rg\<lparr>rg_start := rg_end rg\<rparr>] newrg'
               | nx # nxt' \<Rightarrow>
                   f vmaid sz pre (rg\<lparr>rg_start := rg_start nx, rg_end := rg_end nx\<rparr> # nxt') newrg'))
         else f vmaid sz (pre @ [rg]) nxt new) = Some r"
  show "\<not> (sz = 0 \<and> (\<exists>rg. rgit = [rg] \<and> rg_vmaid rg = vmaid \<and> rg_start rg = rg_end rg))"
  proof
    assume "sz = 0 \<and> (\<exists>rg. rgit = [rg] \<and> rg_vmaid rg = vmaid \<and> rg_start rg = rg_end rg)"
    then obtain rg where rg: "sz = 0" "rgit = [rg]" "rg_vmaid rg = vmaid" "rg_start rg = rg_end rg"
      by blast
    with eq have "f vmaid sz pre [rg\<lparr>rg_start := rg_end rg\<rparr>]
        (new\<lparr>rg_start := rg_start rg, rg_end := rg_start rg + sz\<rparr>) = Some r"
      by (simp add: Let_def)
    from IH [OF this] rg show False by simp
  qed
qed

lemma loop_empty_region_diverges:
  "rg_vmaid rg = vmaid \<Longrightarrow> rg_start rg = rg_end rg \<Longrightarrow> free_rg_loop vmaid 0 pre [rg] new = None"
  using loop_empty_region [of vmaid 0 pre "[rg]" new] by (cases "free_rg_loop vmaid 0 pre [rg] new") auto

section \<open>get_free_vmrg_area\<close>

lemma get_free_vmrg_area_one:
  assumes "one_vma (c_mm c) v"
  shows "get_free_vmrg_area c 0 s new =
    (if vm_freerg_list v = [] then Inr (-1, new, c)
     else
       case free_rg_loop 0 (u64_of_int s) [] (vm_freerg_list v)
              (new\<lparr>rg_start := u64_of_int (-1), rg_end := u64_of_int (-1)\<rparr>) of
         None \<Rightarrow> Inl Diverges
       | Some (returned, rg, l) \<Rightarrow>
           Inr (if returned then 0 else if rg_start rg = u64_of_int (-1) then -1 else 0, rg,
                c\<lparr>c_mm := (c_mm c)\<lparr>mmap := [v\<lparr>vm_freerg_list := l\<rparr>]\<rparr>\<rparr>))"
  using assms get_vma_by_num_one [OF assms, of 0]
  by (simp add: get_free_vmrg_area_def one_vma_mmap upd_vma_one Let_def u64_of_int_def
      split: option.split prod.split)

lemma mm_mmap_same: "mmap (c_mm c) = [v] \<Longrightarrow> c\<lparr>c_mm := (c_mm c)\<lparr>mmap := [v]\<rparr>\<rparr> = c"
  by (cases c; cases "c_mm c") simp

lemma get_free_vmrg_area_outcome:
  assumes v: "one_vma (c_mm c) v" and s: "0 < s" "s < 2147483648"
    and b: "below (u64_of_int s) (vm_freerg_list v)" and d: "disjoint_rgs (vm_freerg_list v)"
  obtains ret rg l where
    "get_free_vmrg_area c 0 s new = Inr (ret, rg, c\<lparr>c_mm := (c_mm c)\<lparr>mmap := [v\<lparr>vm_freerg_list := l\<rparr>]\<rparr>\<rparr>)"
    and "disjoint_rgs l" and "cells_of l \<subseteq> cells_of (vm_freerg_list v)"
    and "ret = -1 \<and> l = vm_freerg_list v \<and>
        (\<forall>rg \<in> set (reached 0 (vm_freerg_list v)). uint (rg_end rg) < uint (rg_start rg) + s) \<or>
      ret = 0 \<and> rg_vmaid rg = rg_vmaid new \<and> uint (rg_end rg) = uint (rg_start rg) + s \<and>
      cells rg \<subseteq> cells_of (vm_freerg_list v) \<and> cells rg \<inter> cells_of l = {}"
proof (cases "vm_freerg_list v = []")
  case True
  have "v\<lparr>vm_freerg_list := []\<rparr> = v" using True by (cases v) simp
  then show ?thesis
    using that [of "-1" new "[]"] True v
    by (simp add: reached_def get_free_vmrg_area_one [OF v] mm_mmap_same one_vma_mmap)
next
  case False
  let ?new = "new\<lparr>rg_start := u64_of_int (-1), rg_end := u64_of_int (-1)\<rparr>"
  have us: "uint (u64_of_int s) = s" using s by (simp add: uint_u64_of_int)
  then have "free_rg_loop 0 (u64_of_int s) [] (vm_freerg_list v) ?new \<noteq> None"
    using s b by (intro free_rg_loop_returns) simp_all
  then obtain ret rg l where run:
    "free_rg_loop 0 (u64_of_int s) [] (vm_freerg_list v) ?new = Some (ret, rg, l)"
    by auto
  have "search_ok (cells_of (vm_freerg_list v)) ?new ([] @ vm_freerg_list v)"
    using d by (simp add: search_ok_def cells_def)
  from free_rg_loop_ok [OF run _ b this]
  have ok: "search_ok (cells_of (vm_freerg_list v)) rg l"
    "rg = ?new \<and> \<not> ret \<and> l = vm_freerg_list v \<or>
       rg_vmaid rg = rg_vmaid new \<and> uint (rg_end rg) = uint (rg_start rg) + s"
    using s by (auto simp: us)
  have "uint (u64_of_int (-1)) = 18446744073709551615"
    unfolding u64_of_int_def uint_word_of_int by simp
  moreover have "uint (rg_end rg) < 18446744073709551616"
    using uint_lt2p [of "rg_end rg"] by simp
  ultimately have not_new: "rg_start rg \<noteq> u64_of_int (-1)" if "uint (rg_end rg) = uint (rg_start rg) + s"
    using that s by auto
  show ?thesis
  proof (cases "sized (u64_of_int s) rg")
    case True
    then have sz: "uint (rg_end rg) = uint (rg_start rg) + s" by (simp add: sized_def us)
    then have "rg_vmaid rg = rg_vmaid new" using ok(2) by auto
    then show ?thesis
      using that [of 0 rg l] sz not_new [OF sz] ok(1) False
      by (simp add: get_free_vmrg_area_one [OF v] run search_ok_def)
  next
    case no: False
    then have new: "rg = ?new" "\<not> ret" "l = vm_freerg_list v" using ok(2) by (auto simp: sized_def us)
    have "uint (rg_end r) < uint (rg_start r) + s" if r: "r \<in> set (reached 0 (vm_freerg_list v))" for r
    proof -
      have "r \<in> set (vm_freerg_list v)" using r by (auto simp: reached_def dest: set_takeWhileD)
      then have "uint (rg_start r + u64_of_int s) = uint (rg_start r) + s"
        using b us by (auto simp: below_def uint_plus_no_wrap)
      moreover have "\<not> rg_start r + u64_of_int s \<le> rg_end r"
        using free_rg_loop_finds [OF run _ b] s us no r by fastforce
      ultimately show ?thesis by (simp add: word_le_def)
    qed
    then show ?thesis
      using that [of "-1" rg l] new d False by (simp add: get_free_vmrg_area_one [OF v] run)
  qed
qed

section \<open>Growing the area keeps the paging invariant\<close>

definition area_wf :: "mm_struct \<Rightarrow> vm_area_struct \<Rightarrow> bool" where
  "area_wf m v \<longleftrightarrow> one_vma m v \<and> uint (vm_end v) mod 256 = 0 \<and> uint (vm_end v) \<le> 4194304 \<and>
    (\<forall>p. resident m p \<longrightarrow> p < uint (vm_end v) div 256)"

lemma resident_cong: "pgd m' = pgd m \<Longrightarrow> resident m' = resident m"
  by (simp add: resident_def fun_eq_iff)

lemma frame_of_cong: "pgd m' = pgd m \<Longrightarrow> frame_of m' = frame_of m"
  by (simp add: frame_of_def fun_eq_iff)

lemma paging_inv_cong:
  "pgd (c_mm c') = pgd (c_mm c) \<Longrightarrow> fifo_pgn (c_mm c') = fifo_pgn (c_mm c) \<Longrightarrow> c_mram c' = c_mram c \<Longrightarrow>
    paging_inv c' = paging_inv c"
  using resident_cong [of "c_mm c'" "c_mm c"] frame_of_cong [of "c_mm c'" "c_mm c"]
  by (simp add: paging_inv_def)

text \<open>The frames a process can reach: those its pages map and those of the pool.\<close>

definition frames_used :: "mm_struct \<Rightarrow> int set" where
  "frames_used m = frame_of m ` {p. resident m p}"

definition frames_reach :: "vmctx \<Rightarrow> int set" where
  "frames_reach c = frames_used (c_mm c) \<union> set (free_fp_list (c_mram c))"

definition map_new :: "vmctx \<Rightarrow> int \<Rightarrow> nat \<Rightarrow> vmctx" where
  "map_new c sp q =
    (let free = free_fp_list (c_mram c); m = c_mm c
     in c\<lparr>c_mm := m\<lparr>pgd := mapped_pgd (pgd m) sp (rev (take q free)),
                    fifo_pgn := rev (map (\<lambda>i. sp + int i) [0..<q]) @ fifo_pgn m\<rparr>,
          c_mram := (c_mram c)\<lparr>free_fp_list := drop q free\<rparr>\<rparr>)"

definition can_map :: "vmctx \<Rightarrow> int \<Rightarrow> nat \<Rightarrow> bool" where
  "can_map c sp q \<longleftrightarrow> paging_inv c \<and> 0 \<le> sp \<and> sp + int q \<le> 16384 \<and>
    q \<le> length (free_fp_list (c_mram c)) \<and> (\<forall>p. resident (c_mm c) p \<longrightarrow> p < sp)"

lemma resident_map_new:
  "can_map c sp q \<Longrightarrow>
    resident (c_mm (map_new c sp q)) p \<longleftrightarrow> resident (c_mm c) p \<or> sp \<le> p \<and> p < sp + int q"
  by (auto simp: can_map_def resident_def map_new_def Let_def mapped_pgd_def)

lemma frame_of_map_new:
  assumes "can_map c sp q"
  shows "frame_of (c_mm (map_new c sp q)) p =
    (if sp \<le> p \<and> p < sp + int q then rev (take q (free_fp_list (c_mram c))) ! nat (p - sp)
     else frame_of (c_mm c) p)"
proof -
  let ?fs = "rev (take q (free_fp_list (c_mram c)))"
  have len: "length ?fs = q" using assms by (simp add: can_map_def)
  have "?fs ! k mod 8192 = ?fs ! k" if "k < q" for k
  proof (rule mod_pos_pos_trivial)
    have "?fs ! k \<in> set (free_fp_list (c_mram c))"
      using nth_mem [of k ?fs] len that by (metis in_set_takeD set_rev)
    then show "0 \<le> ?fs ! k" "?fs ! k < 8192"
      using assms by (auto simp: can_map_def paging_inv_def page_in_def)
  qed
  then show ?thesis
    using len by (auto simp: frame_of_def map_new_def Let_def mapped_pgd_def PAGING_FPN_set_fpn)
qed

lemma frames_map_new:
  assumes "can_map c sp q"
  shows "frame_of (c_mm (map_new c sp q)) ` {p. sp \<le> p \<and> p < sp + int q} =
    set (take q (free_fp_list (c_mram c)))"
proof -
  let ?fs = "rev (take q (free_fp_list (c_mram c)))"
  have len: "length ?fs = q" using assms by (simp add: can_map_def)
  have "{p. sp \<le> p \<and> p < sp + int q} = (\<lambda>k. sp + int k) ` {..<q}"
  proof (intro equalityI subsetI)
    fix p assume "p \<in> {p. sp \<le> p \<and> p < sp + int q}"
    then have "p = sp + int (nat (p - sp))" "nat (p - sp) < q" by auto
    then show "p \<in> (\<lambda>k. sp + int k) ` {..<q}" by blast
  qed auto
  then have "frame_of (c_mm (map_new c sp q)) ` {p. sp \<le> p \<and> p < sp + int q} = (\<lambda>k. ?fs ! k) ` {..<q}"
    by (auto simp: image_image frame_of_map_new [OF assms] intro!: image_cong)
  also have "\<dots> = set ?fs"
    using len by (metis atLeast0LessThan atLeast_upt image_set map_nth)
  finally show ?thesis by simp
qed

lemma paging_inv_map_new:
  assumes "can_map c sp q"
  shows "paging_inv (map_new c sp q)"
proof -
  let ?c = "map_new c sp q" and ?free = "free_fp_list (c_mram c)"
  let ?R = "{p. resident (c_mm c) p}" and ?N = "{p. sp \<le> p \<and> p < sp + int q}"
  note res = resident_map_new [OF assms] and fr = frame_of_map_new [OF assms]
  have inv: "paging_inv c" and old: "\<And>p. resident (c_mm c) p \<Longrightarrow> p < sp"
    and len: "q \<le> length ?free"
    using assms by (auto simp: can_map_def)
  have R': "{p. resident (c_mm ?c) p} = ?R \<union> ?N"
    by (auto simp: res)
  have oldfr: "frame_of (c_mm ?c) p = frame_of (c_mm c) p" if "resident (c_mm c) p" for p
    using old [OF that] by (simp add: fr)
  have split: "?free = take q ?free @ drop q ?free" by simp
  have dist: "distinct ?free" "distinct (take q ?free)" "set (take q ?free) \<inter> set (drop q ?free) = {}"
    using inv by (auto simp: paging_inv_def distinct_take set_take_disj_set_drop_if_distinct)
  have pool: "page_in (c_mram c) f \<and> f < 8192 \<and> f \<notin> frame_of (c_mm c) ` ?R" if "f \<in> set ?free" for f
    using inv that by (auto simp: paging_inv_def)
  have injN: "inj_on (frame_of (c_mm ?c)) ?N"
  proof (rule inj_onI)
    fix x y assume "x \<in> ?N" "y \<in> ?N" "frame_of (c_mm ?c) x = frame_of (c_mm ?c) y"
    then show "x = y"
      using dist(2) len by (auto simp: fr nth_eq_iff_index_eq)
  qed
  have injR: "inj_on (frame_of (c_mm ?c)) ?R"
    using inv by (auto simp: paging_inv_def inj_on_def oldfr)
  have imgR: "frame_of (c_mm ?c) ` ?R = frame_of (c_mm c) ` ?R"
    by (intro image_cong) (simp_all add: oldfr)
  have imgN: "frame_of (c_mm ?c) ` ?N = set (take q ?free)"
    by (rule frames_map_new [OF assms])
  have "inj_on (frame_of (c_mm ?c)) (?R \<union> ?N)"
    using injN injR imgR imgN pool by (auto simp: inj_on_Un dest!: in_set_takeD)
  then have inj: "inj_on (frame_of (c_mm ?c)) {p. resident (c_mm ?c) p}"
    unfolding R' .
  have img: "frame_of (c_mm ?c) ` {p. resident (c_mm ?c) p} = frame_of (c_mm c) ` ?R \<union> set (take q ?free)"
    unfolding R' image_Un imgR imgN ..
  have flds: "rdmflg (c_mram ?c) = rdmflg (c_mram c)" "page_in (c_mram ?c) = page_in (c_mram c)"
    "free_fp_list (c_mram ?c) = drop q ?free"
    "fifo_pgn (c_mm ?c) = rev (map (\<lambda>i. sp + int i) [0..<q]) @ fifo_pgn (c_mm c)"
    by (auto simp: map_new_def Let_def)
  have pages: "page_in (c_mram c) (frame_of (c_mm ?c) p)" if "resident (c_mm ?c) p" for p
  proof -
    have "frame_of (c_mm ?c) p \<in> frame_of (c_mm c) ` ?R \<union> set (take q ?free)"
      using that img by blast
    then show ?thesis
      using pool inv by (auto simp: paging_inv_def dest: in_set_takeD)
  qed
  have rest: "page_in (c_mram c) f \<and> f < 8192 \<and> f \<notin> frame_of (c_mm ?c) ` {p. resident (c_mm ?c) p}"
    if "f \<in> set (drop q ?free)" for f
    using that pool [of f] dist(3) unfolding img by (auto dest: in_set_dropD)
  have seq: "set (rev (map (\<lambda>i. sp + int i) [0..<q])) = ?N"
  proof -
    have "p \<in> (\<lambda>i. sp + int i) ` {0..<q}" if "p \<in> ?N" for p
      using that by (intro image_eqI [of _ _ "nat (p - sp)"]) auto
    then show ?thesis by auto
  qed
  have fifo: "set (fifo_pgn (c_mm c)) = ?R" "distinct (fifo_pgn (c_mm c))"
    using inv by (simp_all add: paging_inv_def)
  have "distinct (rev (map (\<lambda>i. sp + int i) [0..<q]) @ fifo_pgn (c_mm c))"
    unfolding distinct_append seq fifo(1) using fifo(2)
    by (auto simp: distinct_map inj_on_def dest!: old)
  moreover have "set (rev (map (\<lambda>i. sp + int i) [0..<q]) @ fifo_pgn (c_mm c)) = {p. resident (c_mm ?c) p}"
    unfolding set_append seq fifo(1) R' by blast
  moreover have "rdmflg (c_mram c) \<noteq> 0" "distinct (drop q ?free)"
    using inv by (auto simp: paging_inv_def)
  ultimately show ?thesis
    unfolding paging_inv_def flds using inj pages rest by blast
qed

lemma frames_reach_map_new:
  assumes "can_map c sp q"
  shows "frames_reach (map_new c sp q) = frames_reach c"
proof -
  let ?free = "free_fp_list (c_mram c)"
  have eq: "{p. resident (c_mm (map_new c sp q)) p} = {p. resident (c_mm c) p} \<union> {p. sp \<le> p \<and> p < sp + int q}"
    using resident_map_new [OF assms] by auto
  have "frame_of (c_mm (map_new c sp q)) ` {p. resident (c_mm c) p} = frames_used (c_mm c)"
    unfolding frames_used_def using assms
    by (intro image_cong) (auto simp: frame_of_map_new can_map_def)
  then have "frames_used (c_mm (map_new c sp q)) = frames_used (c_mm c) \<union> set (take q ?free)"
    by (simp add: frames_used_def [of "c_mm (map_new c sp q)"] eq image_Un frames_map_new [OF assms])
  moreover have "set ?free = set (take q ?free) \<union> set (drop q ?free)"
    by (metis append_take_drop_id set_append)
  ultimately show ?thesis
    by (auto simp: frames_reach_def map_new_def Let_def)
qed

section \<open>rg_alloc on area 0\<close>

definition sym_ok :: "int \<Rightarrow> bool" where
  "sym_ok rgid \<longleftrightarrow> 0 \<le> rgid \<and> rgid < 30"

definition put_sym :: "int \<Rightarrow> vm_rg_struct \<Rightarrow> vmctx \<Rightarrow> vmctx" where
  "put_sym rgid rg c = c\<lparr>c_mm := (c_mm c)\<lparr>symrgtbl := (symrgtbl (c_mm c))(rgid := rg)\<rparr>\<rparr>"

lemma set_symrg_ok: "sym_ok rgid \<Longrightarrow> set_symrg rgid rg c = Inr (put_sym rgid rg c)"
  by (simp add: sym_ok_def set_symrg_def put_sym_def PAGING_MAX_SYMTBL_SZ_def)

definition put_area :: "vm_area_struct \<Rightarrow> vmctx \<Rightarrow> vmctx" where
  "put_area v c = c\<lparr>c_mm := (c_mm c)\<lparr>mmap := [v]\<rparr>\<rparr>"

definition brk_region :: "vm_area_struct \<Rightarrow> int \<Rightarrow> vm_rg_struct" where
  "brk_region v s = \<lparr>rg_vmaid = 0, rg_start = sbrk v, rg_end = sbrk v + u64_of_int s\<rparr>"

lemma put_simps [simp]:
  "pgd (c_mm (put_sym i rg c)) = pgd (c_mm c)" "fifo_pgn (c_mm (put_sym i rg c)) = fifo_pgn (c_mm c)"
  "mmap (c_mm (put_sym i rg c)) = mmap (c_mm c)" "c_mram (put_sym i rg c) = c_mram c"
  "c_mswp (put_sym i rg c) = c_mswp c" "c_lock (put_sym i rg c) = c_lock c"
  "symrgtbl (c_mm (put_sym i rg c)) = (symrgtbl (c_mm c))(i := rg)"
  "pgd (c_mm (put_area v c)) = pgd (c_mm c)" "fifo_pgn (c_mm (put_area v c)) = fifo_pgn (c_mm c)"
  "mmap (c_mm (put_area v c)) = [v]" "c_mram (put_area v c) = c_mram c"
  "c_mswp (put_area v c) = c_mswp c" "c_lock (put_area v c) = c_lock c"
  "symrgtbl (c_mm (put_area v c)) = symrgtbl (c_mm c)"
  by (simp_all add: put_sym_def put_area_def)

lemma unlock_simps [simp]:
  "c_mm (unlock_mmvm c) = c_mm c" "c_mram (unlock_mmvm c) = c_mram c"
  "c_mswp (unlock_mmvm c) = c_mswp c" "\<not> c_lock (unlock_mmvm c)"
  by (simp_all add: unlock_mmvm_def)

text \<open>The three ways an allocation from area 0 is served.\<close>

lemma rg_alloc_fit:
  assumes "\<not> c_lock c" and "sym_ok rgid"
    and "get_free_vmrg_area (c\<lparr>c_lock := True\<rparr>) 0 s ((u_rg u)\<lparr>rg_vmaid := 0\<rparr>) = Inr (0, rg, c1)"
  shows "rg_alloc u c 0 rgid s =
    Inr (0, int_of_u64 (rg_start rg), unlock_mmvm (put_sym rgid rg c1))"
proof -
  have z: "u64_of_int 0 = 0" by (simp add: u64_of_int_def)
  show ?thesis
    using assms by (simp add: rg_alloc_def lock_mmvm_def sym_ok_def PAGING_MAX_SYMTBL_SZ_def z
        set_symrg_ok [unfolded sym_ok_def])
qed

lemma rg_alloc_no_fit:
  assumes "\<not> c_lock c" and "sym_ok rgid" and v: "one_vma (c_mm c) v"
    and "get_free_vmrg_area (c\<lparr>c_lock := True\<rparr>) 0 s ((u_rg u)\<lparr>rg_vmaid := 0\<rparr>) =
      Inr (-1, rg, c\<lparr>c_lock := True\<rparr>)"
    and small: "uint (sbrk v) + s < 2147483648" "0 \<le> s" "uint (vm_end v) \<le> 4194304"
  shows "rg_alloc u c 0 rgid s =
    (if s \<le> uint (vm_end v) - uint (sbrk v)
     then Inr (0, int_of_u64 (rg_start rg), unlock_mmvm (put_sym rgid (brk_region v s)
            (put_area (v\<lparr>sbrk := sbrk v + u64_of_int s\<rparr>) c)))
     else
       rbind (inc_vma_limit u (c\<lparr>c_lock := True\<rparr>) 0 (PAGING_PAGE_ALIGNSZ s)) (\<lambda>(_, c1).
       let c2 = put_sym rgid (brk_region v s) c1
       in Inr (0, int_of_u64 (rg_start rg), unlock_mmvm (c2\<lparr>c_mm :=
            upd_vma 0 (\<lambda>v. v\<lparr>sbrk := sbrk v + u64_of_int s\<rparr>) (c_mm c2)\<rparr>))))"
proof -
  have z: "u64_of_int 0 = 0" by (simp add: u64_of_int_def)
  have sb: "int_of_u64 (sbrk v) = uint (sbrk v)"
    using small by (intro int_of_u64_small) linarith
  have en: "u64_of_int (i32 (uint (sbrk v) + s)) = sbrk v + u64_of_int s"
  proof -
    have "i32 (uint (sbrk v) + s) = uint (sbrk v) + s"
      using small uint_ge_0 [of "sbrk v"] by (intro i32_id) linarith+
    then show ?thesis by (simp add: u64_of_int_def)
  qed
  have gap: "int_of_u64 (vm_end v - sbrk v) = uint (vm_end v) - uint (sbrk v)"
  proof -
    have "vm_end v - sbrk v = u64_of_int (uint (vm_end v) - uint (sbrk v))"
      by (simp add: u64_of_int_def)
    then have "int_of_u64 (vm_end v - sbrk v) = i32 (uint (vm_end v) - uint (sbrk v))"
      by simp
    also have "\<dots> = uint (vm_end v) - uint (sbrk v)"
      using small uint_ge_0 [of "sbrk v"] uint_ge_0 [of "vm_end v"] by (intro i32_id) linarith+
    finally show ?thesis .
  qed
  have vma: "rbind (get_vma_by_num (c_mm c) 0) deref = Inr 0" "mmap (c_mm c) ! 0 = v"
    using get_vma_by_num_one [OF v, of 0] v by (simp_all add: one_vma_def)
  show ?thesis
    using assms(1,2,4) by (simp add: rg_alloc_def lock_mmvm_def sym_ok_def PAGING_MAX_SYMTBL_SZ_def
        z vma sb gap en brk_region_def Let_def put_area_def upd_vma_one one_vma_mmap [OF v]
        set_symrg_ok [unfolded sym_ok_def] put_sym_def unlock_mmvm_def split_def)
qed

section \<open>Growing and allocating are safe\<close>

text \<open>
  What an operation on the area may do to the rest of the process: the paging invariant
  holds again, the area still covers every resident page, no frame is gained from
  elsewhere and the swap device is untouched.
\<close>

definition area_safe :: "vmctx \<Rightarrow> vmctx \<Rightarrow> bool" where
  "area_safe c c' \<longleftrightarrow> paging_inv c' \<and> (\<exists>v. area_wf (c_mm c') v) \<and>
    frames_reach c' \<subseteq> frames_reach c \<and> c_mswp c' = c_mswp c"

lemma frames_reach_cong:
  "pgd (c_mm c') = pgd (c_mm c) \<Longrightarrow> c_mram c' = c_mram c \<Longrightarrow> frames_reach c' = frames_reach c"
  using resident_cong [of "c_mm c'" "c_mm c"] frame_of_cong [of "c_mm c'" "c_mm c"]
  by (simp add: frames_reach_def frames_used_def)

lemma area_wf_cong:
  "pgd m' = pgd m \<Longrightarrow> mmap m' = [v'] \<Longrightarrow> vm_id v' = vm_id v \<Longrightarrow> vm_start v' = vm_start v \<Longrightarrow>
    vm_end v' = vm_end v \<Longrightarrow> area_wf m v \<Longrightarrow> area_wf m' v'"
  using resident_cong [of m' m] by (simp add: area_wf_def one_vma_def)

lemma area_safe_same:
  assumes "pgd (c_mm c') = pgd (c_mm c)" "fifo_pgn (c_mm c') = fifo_pgn (c_mm c)"
    and "c_mram c' = c_mram c" "c_mswp c' = c_mswp c"
    and "mmap (c_mm c') = [v']" "vm_id v' = vm_id v" "vm_start v' = vm_start v" "vm_end v' = vm_end v"
    and "paging_inv c" "area_wf (c_mm c) v"
  shows "area_safe c c'"
  using assms area_wf_cong [OF assms(1,5-8,10)] paging_inv_cong [OF assms(1-3)]
    frames_reach_cong [OF assms(1,3)]
  by (auto simp: area_safe_def)

lemma area_safe_trans: "area_safe c c1 \<Longrightarrow> area_safe c1 c2 \<Longrightarrow> area_safe c c2"
  by (auto simp: area_safe_def)

lemma area_safe_refl: "paging_inv c \<Longrightarrow> area_wf (c_mm c) v \<Longrightarrow> area_safe c c"
  by (auto simp: area_safe_def)

lemma paging_inv_no_free:
  "paging_inv c \<Longrightarrow> paging_inv (c\<lparr>c_mm := (c_mm c)\<lparr>mmap := vs\<rparr>, c_mram := (c_mram c)\<lparr>free_fp_list := []\<rparr>\<rparr>)"
  by (simp add: paging_inv_def)

lemma uint_grown:
  assumes "uint (vm_end v) + n \<le> 4194304" and "0 \<le> n"
  shows "uint (vm_end (grown_vma v n)) = uint (vm_end v) + n"
  using assms uint_ge_0 [of "vm_end v"] unfolding grown_vma_def by (simp add: uint_u64_of_int)

lemma inc_vma_limit_safe:
  assumes inv: "paging_inv c" and wf: "area_wf (c_mm c) v"
    and q: "0 < q" "uint (vm_end v) + q * 256 \<le> 4194304" "uint (sbrk v) + q * 256 < 2147483648"
  shows "\<exists>ret c'. inc_vma_limit u c 0 (q * 256) = Inr (ret, c') \<and> area_safe c c'"
proof -
  let ?e = "uint (vm_end v)" and ?free = "free_fp_list (c_mram c)"
  let ?g = "grown_vma v (q * 256)"
  have v: "one_vma (c_mm c) v" and al: "?e mod 256 = 0"
    and res: "\<And>p. resident (c_mm c) p \<Longrightarrow> p < ?e div 256"
    using wf by (auto simp: area_wf_def)
  have e0: "0 \<le> ?e" by simp
  have g: "vm_id ?g = 0" "vm_start ?g = 0" "uint (vm_end ?g) = ?e + q * 256"
    using v q uint_grown [of v "q * 256"] by (simp_all add: grown_vma_def one_vma_def)
  have gd: "(?e + q * 256) div 256 = ?e div 256 + q" "(?e + q * 256) mod 256 = 0"
    using al by simp_all
  note run = inc_vma_limit_one [OF v q(1,2) al q(3), of u]
  consider (overlap) "?e \<noteq> 0 \<and> uint (sbrk v) \<le> ?e"
    | (short) "\<not> (?e \<noteq> 0 \<and> uint (sbrk v) \<le> ?e)" "int (length ?free) < q"
    | (enough) "\<not> (?e \<noteq> 0 \<and> uint (sbrk v) \<le> ?e)" "\<not> int (length ?free) < q"
    by blast
  then show ?thesis
  proof cases
    case overlap
    have "area_safe c (c\<lparr>c_mm := (c_mm c)\<lparr>mmap := [v\<lparr>sbrk := sbrk v + u64_of_int (q * 256)\<rparr>]\<rparr>\<rparr>)"
      by (rule area_safe_same [where v = v and v' = "v\<lparr>sbrk := sbrk v + u64_of_int (q * 256)\<rparr>"])
        (simp_all add: inv wf)
    then show ?thesis using overlap unfolding run by auto
  next
    case short
    let ?c = "c\<lparr>c_mm := (c_mm c)\<lparr>mmap := [?g]\<rparr>, c_mram := (c_mram c)\<lparr>free_fp_list := []\<rparr>\<rparr>"
    have "area_wf (c_mm ?c) ?g"
      using g gd q res by (fastforce simp: area_wf_def one_vma_def)
    then have "area_safe c ?c"
      using paging_inv_no_free [OF inv] by (auto simp: area_safe_def frames_reach_def frames_used_def)
    then show ?thesis using short unfolding run by auto
  next
    case enough
    let ?m = "map_new c (?e div 256) (nat q)"
    let ?c = "?m\<lparr>c_mm := (c_mm ?m)\<lparr>mmap := [?g]\<rparr>\<rparr>"
    have "int (nat q) = q" "?e div 256 + q \<le> 16384" "0 \<le> ?e div 256"
      using q e0 by linarith+
    then have can: "can_map c (?e div 256) (nat q)"
      using inv res enough(2) by (auto simp: can_map_def)
    have "resident (c_mm ?c) p \<longleftrightarrow> resident (c_mm c) p \<or> ?e div 256 \<le> p \<and> p < ?e div 256 + q" for p
      using resident_map_new [OF can, of p] \<open>int (nat q) = q\<close> by simp
    then have "area_wf (c_mm ?c) ?g"
      using g gd q res by (fastforce simp: area_wf_def one_vma_def)
    moreover have "paging_inv ?c"
      using paging_inv_map_new [OF can] paging_inv_cong [of ?c ?m] by simp
    moreover have "frames_reach ?c = frames_reach c"
      using frames_reach_map_new [OF can] frames_reach_cong [of ?c ?m] by simp
    ultimately have "area_safe c ?c"
      by (auto simp: area_safe_def map_new_def Let_def)
    moreover have "inc_vma_limit u c 0 (q * 256) = Inr (0, ?c)"
      using enough unfolding run by (simp add: map_new_def Let_def)
    ultimately show ?thesis by blast
  qed
qed

lemma PAGING_PAGE_ALIGNSZ_pages:
  assumes "0 < s" and "s \<le> 1073741568"
  obtains q where "0 < q" "PAGING_PAGE_ALIGNSZ s = q * 256" "s \<le> q * 256" "q * 256 < s + 256"
proof -
  have "PAGING_PAGE_ALIGNSZ s = (s + 255) div 256 * 256"
    using assms by (simp add: PAGING_PAGE_ALIGNSZ_eq)
  moreover have "0 < (s + 255) div 256" using assms by simp
  moreover have "s \<le> (s + 255) div 256 * 256" "(s + 255) div 256 * 256 < s + 256" by linarith+
  ultimately show thesis using that by blast
qed

text \<open>
  The whole of \<open>__alloc\<close> on area 0: with a positive size and a well-formed free list it
  returns 0, releases the mutex, and leaves a safe process.
\<close>

definition can_alloc :: "vmctx \<Rightarrow> vm_area_struct \<Rightarrow> int \<Rightarrow> bool" where
  "can_alloc c v s \<longleftrightarrow> paging_inv c \<and> area_wf (c_mm c) v \<and> 0 < s \<and>
    uint (vm_end v) + s + 256 \<le> 4194304 \<and> uint (sbrk v) + 2 * s + 256 < 2147483648 \<and>
    below (u64_of_int s) (vm_freerg_list v) \<and> disjoint_rgs (vm_freerg_list v)"

lemma can_allocD:
  assumes "can_alloc c v s"
  shows "paging_inv c" "area_wf (c_mm c) v" "one_vma (c_mm c) v" "0 < s" "s \<le> 1073741568"
    and "uint (vm_end v) + s + 256 \<le> 4194304" "uint (sbrk v) + 2 * s + 256 < 2147483648"
    and "below (u64_of_int s) (vm_freerg_list v)" "disjoint_rgs (vm_freerg_list v)"
proof -
  show "s \<le> 1073741568" using assms uint_ge_0 [of "vm_end v"] unfolding can_alloc_def by linarith
qed (use assms in \<open>auto simp: can_alloc_def area_wf_def\<close>)

lemma rg_alloc_grow_safe:
  assumes ok: "can_alloc c v s"
  shows "\<exists>r c'. rbind (inc_vma_limit u (c\<lparr>c_lock := True\<rparr>) 0 (PAGING_PAGE_ALIGNSZ s)) (\<lambda>(_, c1).
       let c2 = put_sym rgid rg c1
       in Inr (0, r, unlock_mmvm (c2\<lparr>c_mm :=
            upd_vma 0 (\<lambda>v. v\<lparr>sbrk := sbrk v + u64_of_int s\<rparr>) (c_mm c2)\<rparr>))) = Inr (0 :: int, r :: int, c') \<and>
     \<not> c_lock c' \<and> area_safe c c'"
    (is "\<exists>r c'. ?run r = _ \<and> _")
proof -
  note ok = can_allocD [OF ok]
  let ?c = "c\<lparr>c_lock := True\<rparr>"
  have start: "area_safe c ?c" and inv': "paging_inv ?c" "area_wf (c_mm ?c) v"
    using ok paging_inv_cong [of ?c c]
    by (auto intro!: area_safe_same [where v = v and v' = v] simp: one_vma_mmap)
  obtain q where q: "0 < q" "PAGING_PAGE_ALIGNSZ s = q * 256" "q * 256 < s + 256"
    using PAGING_PAGE_ALIGNSZ_pages [of s] ok(4,5) by blast
  have "uint (vm_end v) + q * 256 \<le> 4194304" "uint (sbrk v) + q * 256 < 2147483648"
    using q ok(4,6,7) by linarith+
  then obtain r1 c1 where c1: "inc_vma_limit u ?c 0 (q * 256) = Inr (r1, c1)" "area_safe ?c c1"
    using inc_vma_limit_safe [OF inv' q(1)] by blast
  obtain v1 where v1: "area_wf (c_mm c1) v1" "paging_inv c1"
    using c1(2) by (auto simp: area_safe_def)
  then have m1: "mmap (c_mm c1) = [v1]" by (simp add: area_wf_def one_vma_def)
  let ?c2 = "put_sym rgid rg c1"
  let ?c' = "unlock_mmvm (?c2\<lparr>c_mm := upd_vma 0 (\<lambda>v. v\<lparr>sbrk := sbrk v + u64_of_int s\<rparr>) (c_mm ?c2)\<rparr>)"
  have "area_safe c1 ?c'"
    by (rule area_safe_same [where v = v1 and v' = "v1\<lparr>sbrk := sbrk v1 + u64_of_int s\<rparr>"])
      (simp_all add: v1 m1 upd_vma_one)
  then have "area_safe c ?c'"
    using start c1(2) area_safe_trans by blast
  then show ?thesis using c1(1) by (simp add: q(2) Let_def)
qed

lemma rg_alloc_break_safe:
  assumes "\<not> c_lock c" and "sym_ok rgid" and ok: "can_alloc c v s"
    and g: "get_free_vmrg_area (c\<lparr>c_lock := True\<rparr>) 0 s ((u_rg u)\<lparr>rg_vmaid := 0\<rparr>) =
      Inr (-1, rg, c\<lparr>c_lock := True\<rparr>)"
  shows "\<exists>a c'. rg_alloc u c 0 rgid s = Inr (0, a, c') \<and> \<not> c_lock c' \<and> area_safe c c'"
proof -
  note ok' = can_allocD [OF ok]
  have "uint (sbrk v) + s < 2147483648" "0 \<le> s" "uint (vm_end v) \<le> 4194304"
    using ok'(4,6,7) by linarith+
  note run = rg_alloc_no_fit [OF assms(1,2) ok'(3) g this]
  show ?thesis
  proof (cases "s \<le> uint (vm_end v) - uint (sbrk v)")
    case True
    have "area_safe c (unlock_mmvm (put_sym rgid (brk_region v s) (put_area (v\<lparr>sbrk := sbrk v + u64_of_int s\<rparr>) c)))"
      by (rule area_safe_same [where v = v and v' = "v\<lparr>sbrk := sbrk v + u64_of_int s\<rparr>"])
        (simp_all add: ok')
    then show ?thesis using True run by simp
  next
    case False
    then show ?thesis
      using run rg_alloc_grow_safe [OF ok, of u rgid "brk_region v s"]
      by (auto simp: rbind_Inr_iff Let_def split: prod.splits)
  qed
qed

lemma rg_alloc_serves:
  assumes "\<not> c_lock c" and "sym_ok rgid" and ok: "can_alloc c v s"
  shows "\<exists>a c'. rg_alloc u c 0 rgid s = Inr (0, a, c') \<and> \<not> c_lock c' \<and> area_safe c c'"
proof -
  note ok' = can_allocD [OF ok]
  let ?new = "(u_rg u)\<lparr>rg_vmaid := 0\<rparr>" and ?c = "c\<lparr>c_lock := True\<rparr>"
  have v: "one_vma (c_mm ?c) v" "s < 2147483648" using ok' by simp_all
  obtain ret rg l where g: "get_free_vmrg_area ?c 0 s ?new =
      Inr (ret, rg, ?c\<lparr>c_mm := (c_mm ?c)\<lparr>mmap := [v\<lparr>vm_freerg_list := l\<rparr>]\<rparr>\<rparr>)"
    and r: "ret = -1 \<and> l = vm_freerg_list v \<or> ret = 0"
    by (rule get_free_vmrg_area_outcome [OF v(1) ok'(4) v(2) ok'(8,9), of ?new]) blast
  show ?thesis
  proof (cases "ret = 0")
    case True
    let ?c' = "unlock_mmvm (put_sym rgid rg (?c\<lparr>c_mm := (c_mm ?c)\<lparr>mmap := [v\<lparr>vm_freerg_list := l\<rparr>]\<rparr>\<rparr>))"
    have "area_safe c ?c'"
      by (rule area_safe_same [where v = v and v' = "v\<lparr>vm_freerg_list := l\<rparr>"]) (simp_all add: ok')
    then show ?thesis
      using rg_alloc_fit [OF assms(1,2) g [unfolded True]] by auto
  next
    case False
    then have "get_free_vmrg_area ?c 0 s ?new = Inr (-1, rg, ?c)"
      using g r v(1) mm_mmap_same [of ?c v] by (simp add: one_vma_mmap)
    then show ?thesis
      by (rule rg_alloc_break_safe [OF assms(1,2) ok])
  qed
qed

end
