(* ===== verification/Alloc.thy ===== *)
theory Alloc
  imports Regions
begin

text \<open>
  What a sequence of library calls does (\<open>libmem.c\<close> over \<open>mm-vm.c\<close> and \<open>mm.c\<close>):
  releasing a region and getting it back, the mutex discipline of every call, the first
  allocation of a fresh process with the bytes written into it, and the behaviour of the
  code where it departs from what it means to do (a second allocation, an exhausted RAM,
  a request for no bytes, the symbol index 30).
\<close>

section \<open>Releasing a region\<close>

definition invalid_rg :: "vm_rg_struct \<Rightarrow> vm_rg_struct" where
  "invalid_rg rg = rg\<lparr>rg_start := u64_of_int (-1), rg_end := u64_of_int (-1)\<rparr>"

definition put_free :: "vm_area_struct \<Rightarrow> vm_rg_struct \<Rightarrow> vmctx \<Rightarrow> vmctx" where
  "put_free v rg c = put_area (v\<lparr>vm_freerg_list := rg # vm_freerg_list v\<rparr>) c"

lemma symrg_ref_ok: "sym_ok i \<Longrightarrow> symrg_ref m i = Inr (symrgtbl m i)"
  by (simp add: symrg_ref_def sym_ok_def PAGING_MAX_SYMTBL_SZ_def)

lemma get_symrg_byid_ok: "sym_ok i \<Longrightarrow> get_symrg_byid m i = Some i"
  by (simp add: get_symrg_byid_def sym_ok_def PAGING_MAX_SYMTBL_SZ_def)

lemma rg_free_ok:
  assumes "sym_ok rgid" and "mmap (c_mm c) = [v]"
  defines "rg \<equiv> symrgtbl (c_mm c) rgid"
  shows "rg_free c vmaid rgid =
    (if rg_start rg < rg_end rg then Inr (0, put_free v rg (put_sym rgid (invalid_rg rg) c))
     else Inr (-1, put_sym rgid (invalid_rg rg) c))"
  using assms(1,2)
  by (auto simp: rg_free_def get_symrg_byid_ok symrg_ref_ok set_symrg_ok enlist_vm_freerg_list_def
      upd_vma_one put_free_def put_area_def put_sym_def invalid_rg_def rg_def sym_ok_def
      PAGING_MAX_SYMTBL_SZ_def)

lemma invalid_rg_fields [simp]:
  "rg_start (invalid_rg rg) = u64_of_int (-1)" "rg_end (invalid_rg rg) = u64_of_int (-1)"
  "invalid_rg (invalid_rg rg) = invalid_rg rg"
  by (simp_all add: invalid_rg_def)

lemma rg_free_again:
  assumes "sym_ok rgid" and "mmap (c_mm c) = [v]" and "rg_free c vmaid rgid = Inr (r, c')"
  shows "rg_free c' vmaid rgid = Inr (-1, c')"
proof -
  let ?rg = "symrgtbl (c_mm c) rgid"
  have "symrgtbl (c_mm c') rgid = invalid_rg ?rg" "\<exists>v'. mmap (c_mm c') = [v']"
    using assms by (auto simp: rg_free_ok put_free_def split: if_splits)
  then obtain v' where c': "symrgtbl (c_mm c') rgid = invalid_rg ?rg" "mmap (c_mm c') = [v']"
    by blast
  moreover have "put_sym rgid (invalid_rg ?rg) c' = c'"
    using c'(1) by (simp add: put_sym_def fun_upd_idem)
  ultimately show ?thesis
    using rg_free_ok [OF assms(1) c'(2)] by simp
qed

text \<open>The region released last is the first the next search looks at.\<close>

lemma alloc_after_free:
  assumes "sym_ok rgid" and "sym_ok rgid'" and v: "one_vma (c_mm c) v" and "\<not> c_lock c"
  defines "rg \<equiv> symrgtbl (c_mm c) rgid"
  assumes rg: "rg_vmaid rg = 0" "rg_start rg + u64_of_int s < rg_end rg" "rg_start rg < rg_end rg"
    and free: "rg_free c 0 rgid = Inr (0, c1)"
  shows "\<exists>c2. rg_alloc u c1 0 rgid' s = Inr (0, int_of_u64 (rg_start rg), c2) \<and>
    symrgtbl (c_mm c2) rgid' = \<lparr>rg_vmaid = 0, rg_start = rg_start rg, rg_end = rg_start rg + u64_of_int s\<rparr>"
proof -
  let ?v = "v\<lparr>vm_freerg_list := rg # vm_freerg_list v\<rparr>" and ?c = "c1\<lparr>c_lock := True\<rparr>"
  have c1: "c1 = put_free v rg (put_sym rgid (invalid_rg rg) c)"
    using rg_free_ok [OF assms(1) one_vma_mmap [OF v], of 0] rg free
    by (simp add: rg_def)
  then have v1: "one_vma (c_mm ?c) ?v" and l: "\<not> c_lock c1"
    using v assms(4) by (simp_all add: one_vma_def put_free_def)
  have "get_free_vmrg_area ?c 0 s ((u_rg u)\<lparr>rg_vmaid := 0\<rparr>) =
    Inr (0, \<lparr>rg_vmaid = 0, rg_start = rg_start rg, rg_end = rg_start rg + u64_of_int s\<rparr>,
      ?c\<lparr>c_mm := (c_mm ?c)\<lparr>mmap := [?v\<lparr>vm_freerg_list :=
        rg\<lparr>rg_start := rg_start rg + u64_of_int s\<rparr> # vm_freerg_list v\<rparr>]\<rparr>\<rparr>)"
    using rg by (cases "u_rg u") (simp add: get_free_vmrg_area_one [OF v1] loop_larger)
  from rg_alloc_fit [OF l assms(2) this] show ?thesis by simp
qed

section \<open>The mutex\<close>

lemma rg_alloc_locked: "c_lock c \<Longrightarrow> rg_alloc u c vmaid rgid s = Inl Deadlock"
  by (simp add: rg_alloc_def lock_mmvm_def)

lemma rg_alloc_unlocks: "rg_alloc u c vmaid rgid s = Inr (r, a, c') \<Longrightarrow> \<not> c_lock c'"
  by (auto simp: rg_alloc_def rbind_Inr_iff Let_def split: if_splits)

lemma rg_free_keeps_lock: "rg_free c vmaid rgid = Inr (r, c') \<Longrightarrow> c_lock c' = c_lock c"
  by (auto simp: rg_free_def set_symrg_def rbind_Inr_iff split: if_splits)

lemma pg_swapin_keeps_lock: "pg_swapin u p c = Inr (r, c') \<Longrightarrow> c_lock c' = c_lock c"
  by (cases "find_victim_page (c_mm c)"; cases "MEMPHY_get_freefp (c_mswp c) (u_int u)")
    (auto simp: pg_swapin_def Let_def rbind_Inr_iff split: if_splits)

lemma pg_getpage_keeps_lock: "pg_getpage u p f c = Inr (r, f', c') \<Longrightarrow> c_lock c' = c_lock c"
  by (auto simp: pg_getpage_def rbind_Inr_iff dest!: pg_swapin_keeps_lock split: if_splits)

lemma pg_val_keeps_lock:
  "pg_getval u a d c = Inr (r, d', c') \<Longrightarrow> c_lock c' = c_lock c"
  "pg_setval u a d c = Inr (r, c') \<Longrightarrow> c_lock c' = c_lock c"
  by (auto simp: pg_getval_def pg_setval_def Let_def rbind_Inr_iff dest!: pg_getpage_keeps_lock
      split: if_splits)

lemma rg_access_keeps_lock:
  "rg_read u c vmaid i off d = Inr (r, d', c') \<Longrightarrow> c_lock c' = c_lock c"
  "rg_write u c vmaid i off d = Inr (r, c') \<Longrightarrow> c_lock c' = c_lock c"
  by (auto simp: rg_read_def rg_write_def rbind_Inr_iff dest!: pg_val_keeps_lock
      split: option.splits)

lemma lib_calls_unlock:
  "liballoc u c n r = Inr (x, c') \<Longrightarrow> \<not> c_lock c'"
  "\<not> c_lock c \<Longrightarrow> libfree c r = Inr (x, c') \<Longrightarrow> \<not> c_lock c'"
  "\<not> c_lock c \<Longrightarrow> libread u c r off = Inr (x, d, c') \<Longrightarrow> \<not> c_lock c'"
  "\<not> c_lock c \<Longrightarrow> libwrite u c b r off = Inr (x, c') \<Longrightarrow> \<not> c_lock c'"
  using rg_alloc_unlocks rg_free_keeps_lock rg_access_keeps_lock
  by (fastforce simp: liballoc_def libfree_def libread_def libwrite_def rbind_Inr_iff)+

section \<open>Access through a region\<close>

lemma rg_access_resident:
  assumes "one_vma (c_mm c) v" and "sym_ok i" and "va_ok c (rg_addr (symrgtbl (c_mm c) i) off)"
  shows "rg_read u c 0 i off d = Inr (0, va_load u c (rg_addr (symrgtbl (c_mm c) i) off), c)"
    and "rg_write u c 0 i off b = Inr (0, va_store u c (rg_addr (symrgtbl (c_mm c) i) off) b)"
  using assms get_vma_by_num_one [OF assms(1), of 0]
  by (simp_all add: rg_read_def rg_write_def get_symrg_byid_ok symrg_ref_ok va_ok_def
      pg_getval_resident pg_setval_resident va_load_def va_store_def)

lemma va_store_mm [simp]: "va_ok c a \<Longrightarrow> c_mm (va_store u c a b) = c_mm c"
    "va_ok c a \<Longrightarrow> c_lock (va_store u c a b) = c_lock c"
  by (simp_all add: va_store_eq)

lemma rg_write_read:
  assumes v: "one_vma (c_mm c) v" and i: "sym_ok i" and j: "sym_ok j"
    and a: "va_ok c (rg_addr (symrgtbl (c_mm c) i) off)" (is "va_ok c ?a")
    and b: "va_ok c (rg_addr (symrgtbl (c_mm c) j) off')" (is "va_ok c ?b")
  shows "\<exists>c'. rg_write u c 0 i off x = Inr (0, c') \<and>
    rg_read u c' 0 j off' d = Inr (0, if ?b = ?a then x else va_load u c ?b, c')"
proof -
  let ?c = "va_store u c ?a x"
  have "va_ok ?c ?b" using vmem.ok_wr [OF a] b by blast
  moreover have "va_load u ?c ?b = (if ?b = ?a then x else va_load u c ?b)"
    using vmem.rd_wr_same [OF a] vmem.rd_wr_other [OF a] by auto
  ultimately show ?thesis
    using rg_access_resident(2) [OF v i a] rg_access_resident(1) [of ?c v j off' u d] v j a by simp
qed

section \<open>A fresh process\<close>

text \<open>
  What \<open>init_mm\<close> leaves in zeroed memory, with a RAM pool of sound frames: no page is
  present, the page list is empty and the free list is the one empty region \<open>init_mm\<close>
  makes.  The zeros are an assumption: \<open>init_mm\<close> allocates the page table with \<open>malloc\<close> and
  sets neither its entries nor \<open>fifo_pgn\<close> nor the old \<open>vm_freerg_list\<close> that the empty region
  is linked to.
\<close>

definition area0 :: "uninit \<Rightarrow> vm_area_struct" where
  "area0 u = \<lparr>vm_id = 0, vm_start = 0, vm_end = 0, sbrk = 0, vm_freerg_list = [init_vm_rg u 0 0]\<rparr>"

definition fresh_process :: "uninit \<Rightarrow> vmctx \<Rightarrow> bool" where
  "fresh_process u c \<longleftrightarrow> (\<exists>m. c_mm c = init_mm u m \<and> fifo_pgn m = [] \<and>
      (\<forall>p. \<not> PAGING_PAGE_PRESENT (pgd m p))) \<and> u_freerg u = [] \<and> \<not> c_lock c \<and>
    rdmflg (c_mram c) \<noteq> 0 \<and> distinct (free_fp_list (c_mram c)) \<and>
    (\<forall>f \<in> set (free_fp_list (c_mram c)). page_in (c_mram c) f \<and> f < 8192)"

lemma u64_of_int_0 [simp]: "u64_of_int 0 = 0"
  by (simp add: u64_of_int_def)

lemma fresh_processD:
  assumes "fresh_process u c"
  shows "mmap (c_mm c) = [area0 u]" "fifo_pgn (c_mm c) = []" "\<not> c_lock c"
    and "\<not> resident (c_mm c) p" "paging_inv c"
  using assms
  by (auto simp: fresh_process_def init_mm_def area0_def enlist_vm_rg_node_def Let_def resident_def
      paging_inv_def)

lemma fresh_process_wf:
  assumes "fresh_process u c"
  shows "one_vma (c_mm c) (area0 u)" "area_wf (c_mm c) (area0 u)"
  using fresh_processD [OF assms] by (simp_all add: area_wf_def one_vma_def area0_def)

lemma no_fit:
  assumes m: "mmap (c_mm c) = [v]" and v: "vm_id v = 0" "vm_start v = 0"
    and l: "vm_freerg_list v = [init_vm_rg u 0 0]" and s: "0 < s" "s < 2147483648"
  shows "get_free_vmrg_area (c\<lparr>c_lock := b\<rparr>) 0 s new =
    Inr (-1, new\<lparr>rg_start := u64_of_int (-1), rg_end := u64_of_int (-1)\<rparr>, c\<lparr>c_lock := b\<rparr>)"
proof -
  have v': "one_vma (c_mm (c\<lparr>c_lock := b\<rparr>)) v"
    using m v by (simp add: one_vma_def)
  have "uint (u64_of_int s) = s" using s by (simp add: uint_u64_of_int)
  then have "\<not> 0 + u64_of_int s \<le> 0"
    using s by (auto simp: word_le_def)
  then have fit: "\<forall>rg \<in> set (vm_freerg_list v). \<not> rg_start rg + u64_of_int s \<le> rg_end rg"
    by (simp add: l init_vm_rg_def)
  have "c\<lparr>c_lock := b, c_mm := (c_mm c)\<lparr>mmap := [v]\<rparr>\<rparr> = c\<lparr>c_lock := b\<rparr>"
    using mm_mmap_same [OF one_vma_mmap [OF v']] by simp
  moreover have same: "v\<lparr>vm_freerg_list := [init_vm_rg u 0 0]\<rparr> = v" using l by (cases v) simp
  ultimately show ?thesis
    unfolding get_free_vmrg_area_one [OF v'] free_rg_loop_no_fit [OF fit] by (simp add: l same)
qed

lemma fresh_no_fit:
  assumes "fresh_process u c" and "0 < s" "s < 2147483648"
  shows "get_free_vmrg_area (c\<lparr>c_lock := b\<rparr>) 0 s new =
    Inr (-1, new\<lparr>rg_start := u64_of_int (-1), rg_end := u64_of_int (-1)\<rparr>, c\<lparr>c_lock := b\<rparr>)"
  by (rule no_fit [OF fresh_processD(1) [OF assms(1)] _ _ _ assms(2,3)]) (simp_all add: area0_def)

text \<open>The state after the first allocation, of \<open>s\<close> bytes into region \<open>rgid\<close>.\<close>

definition first_area :: "uninit \<Rightarrow> int \<Rightarrow> vm_area_struct" where
  "first_area u s = (area0 u)\<lparr>vm_end := u64_of_int (PAGING_PAGE_ALIGNSZ s),
     sbrk := u64_of_int (PAGING_PAGE_ALIGNSZ s + s)\<rparr>"

definition pages_of :: "int \<Rightarrow> int" where
  "pages_of s = (s + 255) div 256"

definition after_first :: "uninit \<Rightarrow> vmctx \<Rightarrow> int \<Rightarrow> int \<Rightarrow> vmctx" where
  "after_first u c rgid s = put_sym rgid (brk_region (area0 u) s) (put_area (first_area u s)
     (if pages_of s \<le> int (length (free_fp_list (c_mram c))) then map_new c 0 (nat (pages_of s))
      else c\<lparr>c_mram := (c_mram c)\<lparr>free_fp_list := []\<rparr>\<rparr>))"

lemma u64_of_int_add: "u64_of_int a + u64_of_int b = u64_of_int (a + b)"
  by (simp add: u64_of_int_def)

lemma fresh_alloc:
  assumes fresh: "fresh_process u c" and "sym_ok rgid" and s: "0 < s" "s \<le> 4000000"
  shows "rg_alloc u c 0 rgid s = Inr (0, -1, after_first u c rgid s)"
proof -
  let ?c = "c\<lparr>c_lock := True\<rparr>" and ?q = "pages_of s"
  note f = fresh_processD [OF fresh] and w = fresh_process_wf [OF fresh]
  have q: "PAGING_PAGE_ALIGNSZ s = ?q * 256" "0 < ?q" "?q * 256 \<le> 4194304" "?q * 256 < 2147483648"
    using s by (simp_all add: PAGING_PAGE_ALIGNSZ_eq pages_of_def)
  have a0: "uint (vm_end (area0 u)) = 0" "uint (sbrk (area0 u)) = 0" "vm_end (area0 u) = 0"
    by (simp_all add: area0_def)
  have v: "one_vma (c_mm ?c) (area0 u)" using w by simp
  have inc: "inc_vma_limit u ?c 0 (?q * 256) = (if int (length (free_fp_list (c_mram c))) < ?q
      then Inr (-1, put_area (grown_vma (area0 u) (?q * 256)) (?c\<lparr>c_mram := (c_mram c)\<lparr>free_fp_list := []\<rparr>\<rparr>))
      else Inr (0, put_area (grown_vma (area0 u) (?q * 256)) (map_new ?c 0 (nat ?q))))"
    using inc_vma_limit_one [OF v q(2), of u] q a0
    by (simp add: map_new_def Let_def put_area_def)
  have g: "(grown_vma (area0 u) (?q * 256))\<lparr>sbrk := sbrk (grown_vma (area0 u) (?q * 256)) + u64_of_int s\<rparr>
      = first_area u s"
    by (simp add: grown_vma_def first_area_def q(1) area0_def u64_of_int_add)
  have unl: "unlock_mmvm (put_sym i r (put_area z (map_new ?c 0 n))) = put_sym i r (put_area z (map_new c 0 n))"
    "unlock_mmvm (put_sym i r (put_area z (?c\<lparr>c_mram := mr\<rparr>))) = put_sym i r (put_area z (c\<lparr>c_mram := mr\<rparr>))"
    for i r z n mr
    using f(3) by (cases c; simp add: unlock_mmvm_def put_sym_def put_area_def map_new_def Let_def)+
  have up: "(put_sym i r (put_area z d))\<lparr>c_mm := upd_vma 0 h (c_mm (put_sym i r (put_area z d)))\<rparr> =
      put_sym i r (put_area (h z) d)" for i r z h d
    by (simp add: upd_vma_def put_sym_def put_area_def)
  have m1: "int_of_u64 (u64_of_int (-1)) = -1" by (simp add: i32_id)
  show ?thesis
    using rg_alloc_no_fit [OF f(3) assms(2) w(1) fresh_no_fit [OF fresh]] s q a0 inc
    by (simp add: up unl g Let_def after_first_def m1 i32_id del: int_of_u64_of_int)
qed

lemma after_first_simps [simp]:
  "symrgtbl (c_mm (after_first u c rgid s)) rgid = brk_region (area0 u) s"
  "mmap (c_mm (after_first u c rgid s)) = [first_area u s]"
  by (simp_all add: after_first_def)

lemma fresh_can_map:
  assumes "fresh_process u c" and "0 < s" "s \<le> 4000000"
    and "pages_of s \<le> int (length (free_fp_list (c_mram c)))"
  shows "can_map c 0 (nat (pages_of s))"
proof -
  have "0 < pages_of s" "pages_of s \<le> 16384" using assms(2,3) by (simp_all add: pages_of_def)
  then show ?thesis
    using fresh_processD [OF assms(1)] assms(4) by (auto simp: can_map_def)
qed

lemma resident_after_first:
  assumes "fresh_process u c" and "0 < s" "s \<le> 4000000"
  shows "resident (c_mm (after_first u c rgid s)) p \<longleftrightarrow>
    pages_of s \<le> int (length (free_fp_list (c_mram c))) \<and> 0 \<le> p \<and> p < pages_of s"
proof (cases "pages_of s \<le> int (length (free_fp_list (c_mram c)))")
  case True
  have "0 < pages_of s" using assms(2) by (simp add: pages_of_def)
  moreover have "resident (c_mm (after_first u c rgid s)) = resident (c_mm (map_new c 0 (nat (pages_of s))))"
    using True by (intro resident_cong) (simp add: after_first_def)
  ultimately show ?thesis
    using True resident_map_new [OF fresh_can_map [OF assms True], of p] fresh_processD(4) [OF assms(1)]
    by simp
next
  case False
  then have "resident (c_mm (after_first u c rgid s)) = resident (c_mm c)"
    by (intro resident_cong) (simp add: after_first_def)
  then show ?thesis
    using False fresh_processD(4) [OF assms(1)] by simp
qed

lemma paging_inv_after_first:
  assumes "fresh_process u c" and "0 < s" "s \<le> 4000000"
    and "pages_of s \<le> int (length (free_fp_list (c_mram c)))"
  shows "paging_inv (after_first u c rgid s)"
  using paging_inv_map_new [OF fresh_can_map [OF assms]] assms(4)
    paging_inv_cong [of "after_first u c rgid s" "map_new c 0 (nat (pages_of s))"]
  by (simp add: after_first_def)

lemma first_region_ok:
  assumes "fresh_process u c" and s: "0 < s" "s \<le> 4000000"
    and "pages_of s \<le> int (length (free_fp_list (c_mram c)))"
    and k: "0 \<le> k" "k < s"
  shows "va_ok (after_first u c rgid s) (rg_addr (brk_region (area0 u) s) k)"
    and "rg_addr (brk_region (area0 u) s) k = k"
proof -
  show addr: "rg_addr (brk_region (area0 u) s) k = k"
    using k s by (simp add: rg_addr_def brk_region_def area0_def i32_id)
  have "va_page k < pages_of s" "0 \<le> va_page k"
    using k s by (simp_all add: va_page_eq pages_of_def)
  then show "va_ok (after_first u c rgid s) (rg_addr (brk_region (area0 u) s) k)"
    using paging_inv_after_first [OF assms(1-4), of rgid] resident_after_first [OF assms(1-3)] assms(4) k s
    by (simp add: va_ok_def addr)
qed

section \<open>Where the code departs from what it means to do\<close>

text \<open>The second allocation starts one break further than the pages it maps.\<close>

lemma second_alloc:
  assumes fresh: "fresh_process u c" and "sym_ok i" "sym_ok j"
    and s: "0 < s" "s \<le> 1000000" and r: "0 < r" "r \<le> 1000000"
    and enough: "pages_of s + pages_of r \<le> int (length (free_fp_list (c_mram c)))"
  shows "\<exists>c2. rg_alloc u (after_first u c i s) 0 j r = Inr (0, -1, c2) \<and>
    symrgtbl (c_mm c2) j =
      \<lparr>rg_vmaid = 0, rg_start = u64_of_int (pages_of s * 256 + s), rg_end = u64_of_int (pages_of s * 256 + s + r)\<rparr> \<and>
    (\<forall>p. resident (c_mm c2) p \<longleftrightarrow> 0 \<le> p \<and> p < pages_of s + pages_of r)"
proof -
  let ?c1 = "after_first u c i s" and ?v = "first_area u s"
  let ?c = "?c1\<lparr>c_lock := True\<rparr>"
  have al: "PAGING_PAGE_ALIGNSZ s = pages_of s * 256" "PAGING_PAGE_ALIGNSZ r = pages_of r * 256"
    and q: "0 < pages_of s" "0 < pages_of r" "pages_of s * 256 \<le> 1000256" "pages_of r * 256 \<le> 1000256"
    using s r by (simp_all add: PAGING_PAGE_ALIGNSZ_eq pages_of_def)
  have v: "vm_id ?v = 0" "vm_start ?v = 0" "vm_freerg_list ?v = [init_vm_rg u 0 0]"
    and ends: "uint (vm_end ?v) = pages_of s * 256" "uint (sbrk ?v) = pages_of s * 256 + s"
    "sbrk ?v = u64_of_int (pages_of s * 256 + s)"
    using q s by (simp_all add: first_area_def area0_def al uint_u64_of_int)
  have lock: "\<not> c_lock ?c1"
    using fresh_processD(3) [OF fresh] by (simp add: after_first_def map_new_def Let_def)
  have one: "one_vma (c_mm ?c1) ?v" "one_vma (c_mm ?c) ?v" using v by (simp_all add: one_vma_def)
  have free: "free_fp_list (c_mram ?c1) = drop (nat (pages_of s)) (free_fp_list (c_mram c))"
    using enough q by (simp add: after_first_def map_new_def Let_def)
  have res: "resident (c_mm ?c1) p \<longleftrightarrow> 0 \<le> p \<and> p < pages_of s" for p
    using resident_after_first [OF fresh s(1), of i p] s(2) enough q by simp
  have inv: "paging_inv ?c1" using paging_inv_after_first [OF fresh s(1), of i] s(2) enough q by simp
  let ?n = "put_area (grown_vma ?v (pages_of r * 256)) (map_new ?c (pages_of s) (nat (pages_of r)))"
  have inc: "inc_vma_limit u ?c 0 (pages_of r * 256) = Inr (0, ?n)"
    using inc_vma_limit_one [OF one(2) q(2), of u] ends q s r enough
    by (simp add: free map_new_def Let_def put_area_def)
  have can: "can_map ?c1 (pages_of s) (nat (pages_of r))"
    using inv res enough q by (auto simp: can_map_def free)
  let ?c2 = "unlock_mmvm ((put_sym j (brk_region ?v r) ?n)\<lparr>c_mm := upd_vma 0
     (\<lambda>v. v\<lparr>sbrk := sbrk v + u64_of_int r\<rparr>) (c_mm (put_sym j (brk_region ?v r) ?n))\<rparr>)"
  have "rg_alloc u ?c1 0 j r = Inr (0, -1, ?c2)"
    using rg_alloc_no_fit [OF lock assms(3) one(1) no_fit [OF _ v r(1)]] ends q s r inc
    by (simp add: al Let_def i32_id)
  moreover have "symrgtbl (c_mm ?c2) j = \<lparr>rg_vmaid = 0, rg_start = u64_of_int (pages_of s * 256 + s),
      rg_end = u64_of_int (pages_of s * 256 + s + r)\<rparr>"
    by (simp add: upd_vma_def brk_region_def ends(3) u64_of_int_add)
  moreover have "resident (c_mm ?c2) = resident (c_mm (map_new ?c1 (pages_of s) (nat (pages_of r))))"
    by (intro resident_cong) (simp add: upd_vma_def map_new_def Let_def)
  then have "resident (c_mm ?c2) p \<longleftrightarrow> 0 \<le> p \<and> p < pages_of s + pages_of r" for p
    using resident_map_new [OF can, of p] res [of p] q by auto
  ultimately show ?thesis by blast
qed

text \<open>The guard admits the index 30 of the symbol table, which has 30 entries.\<close>

lemma fresh_alloc_index_30:
  assumes fresh: "fresh_process u c" and s: "0 < s" "s \<le> 4000000"
  shows "rg_alloc u c 0 30 s = Inl OutOfBounds"
proof -
  let ?c = "c\<lparr>c_lock := True\<rparr>" and ?q = "pages_of s"
  have q: "PAGING_PAGE_ALIGNSZ s = ?q * 256" "0 < ?q" "?q * 256 \<le> 4194304" "?q * 256 < 2147483648"
    using s by (simp_all add: PAGING_PAGE_ALIGNSZ_eq pages_of_def)
  have v: "one_vma (c_mm ?c) (area0 u)" using fresh_process_wf [OF fresh] by simp
  obtain r c1 where inc: "inc_vma_limit u ?c 0 (PAGING_PAGE_ALIGNSZ s) = Inr (r, c1)"
    using inc_vma_limit_one [OF v q(2), of u] q by (auto simp: area0_def split: if_splits)
  have no: "get_free_vmrg_area ?c 0 s new =
      Inr (-1, new\<lparr>rg_start := u64_of_int (-1), rg_end := u64_of_int (-1)\<rparr>, ?c)" for new
    using fresh_no_fit [OF fresh] s by simp
  have "mmap (c_mm c) = [area0 u]" by (rule fresh_processD(1) [OF fresh])
  then show ?thesis
    using fresh_processD(3) [OF fresh] s inc get_vma_by_num_one [OF v, of 0]
    by (simp add: rg_alloc_def lock_mmvm_def PAGING_MAX_SYMTBL_SZ_def no Let_def set_symrg_def
        deref_def area0_def int_of_u64_eq i32_id)
qed

lemma alloc_nothing_diverges:
  assumes "fresh_process u c" and "rg_vmaid (u_rg u) = 0" and "sym_ok rgid"
  shows "rg_alloc u c 0 rgid 0 = Inl Diverges"
proof -
  have v: "one_vma (c_mm (c\<lparr>c_lock := True\<rparr>)) (area0 u)"
    using fresh_process_wf [OF assms(1)] by simp
  have "free_rg_loop 0 0 [] (vm_freerg_list (area0 u)) new = None" for new
    using assms(2) by (simp add: area0_def init_vm_rg_def loop_empty_region_diverges)
  then have "get_free_vmrg_area (c\<lparr>c_lock := True\<rparr>) 0 0 new = Inl Diverges" for new
    unfolding get_free_vmrg_area_one [OF v] by (simp add: area0_def)
  then show ?thesis
    using fresh_processD(3) [OF assms(1)] assms(3)
    by (simp add: rg_alloc_def lock_mmvm_def sym_ok_def PAGING_MAX_SYMTBL_SZ_def)
qed

lemma victim_is_not_swapped_back:
  assumes "0 \<le> v" "v < 16384" "p \<noteq> v"
  shows "pg_getpage u v f (swapped_in p v s ss c) = Inr (0, 32 * (s mod 256), swapped_in p v s ss c)"
proof -
  have "PAGING_PAGE_PRESENT (pgd (c_mm (swapped_in p v s ss c)) v)"
    using assms by (simp add: swapped_in_def Let_def)
  then show ?thesis
    using assms frame_of_swapped_in [of p v s ss c v] by (simp add: pg_getpage_def frame_of_def)
qed

end
