(* ===== verification/Killall.thy ===== *)
theory Killall
  imports Syscall Alloc
begin

text \<open>
  Correctness of the system calls: the table and the dispatcher, \<open>memmap\<close> on RAM, and
  \<open>killall\<close>: how it reads the name, what its scan of a queue does when the processes
  have the same default priority, and what it misses when they have not.
\<close>

section \<open>Table, dispatcher, memmap\<close>

lemma decimal_small: "n < 10 \<Longrightarrow> decimal n = [''0123456789'' ! n]"
  by (simp add: decimal.simps)

lemma decimal_large: "10 \<le> n \<Longrightarrow> decimal n = decimal (n div 10) @ [''0123456789'' ! (n mod 10)]"
  by (subst decimal.simps) simp

lemma sys_call_table_eq: "sys_call_table = [''0-sys_listsyscall'', ''17-sys_memmap'', ''101-sys_killall'']"
  by (simp add: sys_call_table_def syscalltbl_def decimal_small decimal_large)

lemma sys_listsyscall_eq: "sys_listsyscall k = Inr (0, k\<lparr>k_out := k_out k @ sys_call_table\<rparr>)"
  by (simp add: sys_listsyscall_def syscall_table_size_def map_nth)

lemma syscall_unknown: "nr \<noteq> 0 \<Longrightarrow> nr \<noteq> 17 \<Longrightarrow> nr \<noteq> 101 \<Longrightarrow> syscall u k p nr r = Inr (0, k)"
  by (simp add: syscall_def sys_ni_syscall_def)

lemma byte_of_sign_extended: "u32_of_byte (byte_of_u32 w) = scast (ucast w :: u8)"
  by (simp add: u32_of_byte_def byte_of_u32_def)

text \<open>A byte written to RAM through \<open>memmap\<close> is read back, sign-extended.\<close>

lemma memmap_write_read:
  assumes "rdmflg (k_mram k) \<noteq> 0" and "in_storage (k_mram k) (int_of_u32 a)"
  shows "\<exists>k'. sys_memmap u k p \<lparr>sc_a1 = 5, sc_a2 = a, sc_a3 = v\<rparr> = Inr (0, \<lparr>sc_a1 = 5, sc_a2 = a, sc_a3 = v\<rparr>, k') \<and>
    sys_memmap u k' p \<lparr>sc_a1 = 4, sc_a2 = a, sc_a3 = w\<rparr> =
      Inr (0, \<lparr>sc_a1 = 4, sc_a2 = a, sc_a3 = u32_of_byte (byte_of_u32 v)\<rparr>, k')"
proof -
  let ?k = "k\<lparr>k_mram := (k_mram k)\<lparr>storage := (storage (k_mram k))(int_of_u32 a := byte_of_u32 v)\<rparr>\<rparr>"
  have ops: "int_of_u32 5 = 5" "int_of_u32 4 = 4" by (simp_all add: int_of_u32_def)
  have "sys_memmap u k p \<lparr>sc_a1 = 5, sc_a2 = a, sc_a3 = v\<rparr> = Inr (0, \<lparr>sc_a1 = 5, sc_a2 = a, sc_a3 = v\<rparr>, ?k)"
    using assms by (simp add: sys_memmap_def ops SYSMEM_MAP_OP_def SYSMEM_INC_OP_def
        SYSMEM_SWP_OP_def SYSMEM_IO_READ_def SYSMEM_IO_WRITE_def)
  moreover have "sys_memmap u ?k p \<lparr>sc_a1 = 4, sc_a2 = a, sc_a3 = w\<rparr> =
      Inr (0, \<lparr>sc_a1 = 4, sc_a2 = a, sc_a3 = u32_of_byte (byte_of_u32 v)\<rparr>, ?k)"
    using assms by (simp add: sys_memmap_def ops SYSMEM_MAP_OP_def SYSMEM_INC_OP_def
        SYSMEM_SWP_OP_def SYSMEM_IO_READ_def)
  ultimately show ?thesis by blast
qed

lemma memmap_other_area:
  assumes "k_heap k p = Some b" and "one_vma (mm b) v" and "0 < int_of_u32 vmaid"
  shows "sys_memmap u k p \<lparr>sc_a1 = 2, sc_a2 = vmaid, sc_a3 = n\<rparr> = Inl NullDeref"
proof -
  have "int_of_u32 2 = 2" by (simp add: int_of_u32_def)
  then show ?thesis
    using assms get_vma_by_num_beyond [OF assms(2,3)]
    by (simp add: sys_memmap_def SYSMEM_MAP_OP_def SYSMEM_INC_OP_def on_ctx_def ctx_of_def
        inc_vma_limit_def get_vm_area_node_at_brk_def Let_def)
qed

section \<open>Reading the name\<close>

lemma io_dump_returns:
  assumes "one_vma m v"
  shows "\<exists>d. io_dump m (Inr e) = Inr d" and "\<exists>d. io_dump m (mmap_end m) = Inr d"
  using get_vma_by_num_one [OF assms, of 0] assms
  by (auto simp: io_dump_def print_pgtbl_def mmap_end_def one_vma_def)

lemma libread_resident:
  assumes v: "one_vma (c_mm c) v" and "sym_ok (int_of_u32 r)"
    and "va_ok c (rg_addr (symrgtbl (c_mm c) (int_of_u32 r)) (int_of_u32 off))"
  shows "libread u c r off =
    Inr (0, u32_of_byte (va_load u c (rg_addr (symrgtbl (c_mm c) (int_of_u32 r)) (int_of_u32 off))), c)"
proof -
  obtain d where "io_dump (c_mm c) (Inr (u32_of_int (-1))) = Inr d"
    using io_dump_returns(1) [OF v] by blast
  then show ?thesis
    using rg_access_resident(1) [OF assms, of u "u_byte u"] by (simp add: libread_def)
qed

lemma u32_of_byte_minus_1: "u32_of_byte b = -1 \<longleftrightarrow> b = -1"
proof -
  have "u32_of_byte (-1) = -1" by (simp add: u32_of_byte_def)
  then show ?thesis using u32_of_byte_inj [of b "-1"] by simp
qed

lemma int_of_u32_of_nat: "n < 2147483648 \<Longrightarrow> int_of_u32 (of_nat n) = int n"
  by (simp add: int_of_u32_def sint_uint uint_nat unat_of_nat signed_take_bit_int_eq_self)

text \<open>The address of byte \<open>i\<close> of region \<open>r\<close>, and the bytes \<open>bs\<close> standing there.\<close>

definition byte_addr :: "vmctx \<Rightarrow> u32 \<Rightarrow> nat \<Rightarrow> int" where
  "byte_addr c r i = rg_addr (symrgtbl (c_mm c) (int_of_u32 r)) (int i)"

definition holds_bytes :: "uninit \<Rightarrow> vmctx \<Rightarrow> u32 \<Rightarrow> u8 list \<Rightarrow> bool" where
  "holds_bytes u c r bs \<longleftrightarrow> (\<exists>v. one_vma (c_mm c) v) \<and> sym_ok (int_of_u32 r) \<and>
    (\<forall>i < length bs. va_ok c (byte_addr c r i) \<and> va_load u c (byte_addr c r i) = bs ! i)"

lemma holds_bytes_read:
  assumes "holds_bytes u c r bs" and "i < length bs" and "length bs < 2147483648"
  shows "libread u c r (of_nat i) = Inr (0, u32_of_byte (bs ! i), c)"
  using assms libread_resident [of c _ r "of_nat i" u]
  by (auto simp: holds_bytes_def byte_addr_def int_of_u32_of_nat)

lemma name_loop_end:
  assumes "holds_bytes u c r (bs @ [-1])" and "length bs < 100" and "-1 \<notin> set bs" and "i \<le> length bs"
  shows "name_loop u r i (take i bs) c = Inr (bs, c)"
  using assms(4)
proof (induction "length bs - i" arbitrary: i)
  case 0
  then have i: "i = length bs" by simp
  show ?case
    using holds_bytes_read [OF assms(1), of "length bs"] assms(2)
    unfolding i by (subst name_loop.simps) (simp add: u32_of_byte_minus_1)
next
  case (Suc d)
  then have i: "i < length bs" by simp
  then have "bs ! i \<noteq> -1" using assms(3) nth_mem by metis
  then have "name_loop u r i (take i bs) c = name_loop u r (i + 1) (take (i + 1) bs) c"
    using holds_bytes_read [OF assms(1), of i] assms(2) i
    by (subst name_loop.simps) (simp add: u32_of_byte_minus_1 nth_append take_Suc_conv_app_nth)
  then show ?case using Suc.hyps(1) [of "i + 1"] Suc.hyps(2) i by simp
qed

lemma name_loop_overflow:
  assumes "holds_bytes u c r bs" and "length bs = 101" and "-1 \<notin> set bs" and "i \<le> 100"
  shows "name_loop u r i acc c = Inl OutOfBounds"
  using assms(4)
proof (induction "100 - i" arbitrary: i acc)
  case 0
  then show ?case
    using holds_bytes_read [OF assms(1), of i] assms(2) by (subst name_loop.simps) simp
next
  case (Suc d)
  then have i: "i < 100" by simp
  then have "bs ! i \<noteq> -1" using assms(2,3) nth_mem [of i bs] by fastforce
  then have "name_loop u r i acc c = name_loop u r (i + 1) (acc @ [bs ! i]) c"
    using holds_bytes_read [OF assms(1), of i] assms(2) i
    by (subst name_loop.simps) (simp add: u32_of_byte_minus_1)
  then show ?case using Suc.hyps(1) [of "i + 1"] Suc.hyps(2) i by simp
qed

section \<open>Scanning a queue of equal priorities\<close>

lemma put_queue_simps [simp]:
  "get_queue r (put_queue r q k) = q"
  "put_queue r q' (put_queue r q k) = put_queue r q' k"
  "k_heap (put_queue r q k) = k_heap k" "k_mram (put_queue r q k) = k_mram k"
  "k_mswp (put_queue r q k) = k_mswp k" "k_mmvm_lock (put_queue r q k) = k_mmvm_lock k"
  "(put_queue r q k)\<lparr>k_heap := h\<rparr> = put_queue r q (k\<lparr>k_heap := h\<rparr>)"
  "get_queue r (k\<lparr>k_heap := h\<rparr>) = get_queue r k"
  by (cases r; simp add: put_queue_def get_queue_def)+

text \<open>All entries are live and have the same default priority.\<close>

definition uniform :: "heap \<Rightarrow> pcb_ptr list \<Rightarrow> bool" where
  "uniform h l \<longleftrightarrow> (\<forall>p \<in> set l. h p \<noteq> None) \<and> (\<forall>p \<in> set l. \<forall>q \<in> set l. pcb_key h p = pcb_key h q)"

lemma uniform_sub: "uniform h l \<Longrightarrow> set l' \<subseteq> set l \<Longrightarrow> uniform h l'"
  unfolding uniform_def by blast

lemma dequeue_uniform:
  assumes "q_wf q" and "uniform h (q_list q)" and "q_list q = p # l"
  shows "\<exists>q'. dequeue h q = Inr (Some p, q') \<and> q_list q' = l \<and> q_wf q' \<and> q_size q' < MAX_QUEUE_SIZE"
proof -
  have size: "q_size q = Suc (length l)" using assms(3) length_q_list [of q] by simp
  have "q_live h q" using assms(2) by (auto simp: q_live_def uniform_def)
  then obtain k q' where k: "dequeue h q = Inr (Some (q_list q ! k), q')"
    "least_entry h (q_list q) (q_size q) k"
    "q_list q' = take k (q_list q) @ drop (Suc k) (q_list q)" "q_size q = Suc (q_size q')"
    using dequeue_ok [OF assms(1), of h] size by auto
  have "k = 0"
  proof (rule ccontr)
    assume "k \<noteq> 0"
    then have "pcb_key h (q_list q ! k) < pcb_key h (q_list q ! 0)" "k < length (q_list q)"
      using k(2) by (auto simp: least_entry_def)
    then show False using assms(2) size unfolding uniform_def by (metis nth_mem length_q_list order_less_irrefl zero_less_Suc)
  qed
  then show ?thesis
    using k assms(1,3) q_wf_dequeue [OF assms(1) k(1)] by (simp add: q_wf_def)
qed

definition is_target :: "heap \<Rightarrow> pcb_ptr \<Rightarrow> string \<Rightarrow> pcb_ptr \<Rightarrow> bool" where
  "is_target h caller name p \<longleftrightarrow>
    (case h p of None \<Rightarrow> False | Some b \<Rightarrow> pid b \<noteq> 0 \<and> p \<noteq> caller \<and> path b = name)"

text \<open>The heap in which the processes of \<open>T\<close> have their program counter at the end.\<close>

definition finish_all :: "pcb_ptr set \<Rightarrow> heap \<Rightarrow> heap" where
  "finish_all T h = (\<lambda>p. if p \<in> T then map_option (\<lambda>b. b\<lparr>pc := code_size (pcb_code b)\<rparr>) (h p) else h p)"

lemma finish_all_simps [simp]:
  "finish_all {} h = h" "finish_all T (finish_all S h) = finish_all (S \<union> T) h"
  "pcb_key (finish_all T h) = pcb_key h" "is_target (finish_all T h) = is_target h"
  "uniform (finish_all T h) = uniform h"
  by (auto simp: finish_all_def pcb_key_def is_target_def uniform_def fun_eq_iff option.map_comp comp_def
      split: option.splits)

lemma finish_one: "h p = Some b \<Longrightarrow> h(p \<mapsto> b\<lparr>pc := code_size (pcb_code b)\<rparr>) = finish_all {p} h"
  by (auto simp: finish_all_def fun_eq_iff)

lemma kill_running_uniform:
  assumes "q_wf (get_queue r k)" and "uniform (k_heap k) (q_list (get_queue r k))"
    and "q_list (get_queue r k) = xs @ ys"
    and "T = is_target (k_heap k) caller name"
  shows "\<exists>q'. kill_running (length xs) r caller name n k =
      Inr (n + int (length (filter T xs)),
           put_queue r q' (k\<lparr>k_heap := finish_all (set (filter T xs)) (k_heap k)\<rparr>)) \<and>
    q_list q' = ys @ filter (\<lambda>p. \<not> T p) xs \<and> q_wf q'"
  using assms(1-3) unfolding assms(4)
proof (induction xs arbitrary: k ys n)
  case Nil
  have "put_queue r (get_queue r k) k = k"
    by (cases r) (simp_all add: put_queue_def get_queue_def)
  then show ?case using Nil by (auto intro!: exI [of _ "get_queue r k"])
next
  case (Cons p xs)
  let ?T = "is_target (k_heap k) caller name"
  obtain q where q: "dequeue (k_heap k) (get_queue r k) = Inr (Some p, q)" "q_list q = xs @ ys" "q_wf q"
    "q_size q < MAX_QUEUE_SIZE"
    using dequeue_uniform [OF Cons.prems(1,2)] Cons.prems(3) by auto
  obtain b where b: "k_heap k p = Some b"
    using Cons.prems(2,3) by (auto simp: uniform_def)
  have u: "uniform (k_heap k) (xs @ ys)" "uniform (k_heap k) (xs @ ys @ [p])"
    using Cons.prems(3) by (auto intro!: uniform_sub [OF Cons.prems(2)])
  show ?case
  proof (cases "?T p")
    case True
    let ?k = "put_queue r q (k\<lparr>k_heap := finish_all {p} (k_heap k)\<rparr>)"
    have "kill_running (length (p # xs)) r caller name n k = kill_running (length xs) r caller name (n + 1) ?k"
      using q(1) b True by (simp add: is_target_def finish_one)
    then show ?thesis
      using Cons.IH [of ?k ys "n + 1"] q(2,3) u(1) True by (simp add: add.assoc)
  next
    case False
    let ?k = "put_queue r (enqueue q (Some p)) k"
    have "kill_running (length (p # xs)) r caller name n k = kill_running (length xs) r caller name n ?k"
      using q(1) b False by (auto simp: is_target_def Let_def)
    then show ?thesis
      using Cons.IH [of ?k "ys @ [p]" n] q(2-4) u(2) False
      by (simp add: q_list_enqueue q_wf_enqueue)
  qed
qed

text \<open>The scan of the ready queue frees the blocks it kills.\<close>

definition free_all :: "pcb_ptr set \<Rightarrow> heap \<Rightarrow> heap" where
  "free_all T h = (\<lambda>p. if p \<in> T then None else h p)"

definition can_free :: "heap \<Rightarrow> pcb_ptr \<Rightarrow> bool" where
  "can_free h p \<longleftrightarrow> (\<forall>b. h p = Some b \<longrightarrow> (\<exists>v. one_vma (mm b) v))"

lemma rg_free_returns:
  assumes "one_vma (c_mm c) v" and "sym_ok i"
  shows "\<exists>x c'. rg_free c 0 i = Inr (x, c') \<and> (\<exists>v'. one_vma (c_mm c') v') \<and>
    c_mram c' = c_mram c \<and> c_mswp c' = c_mswp c \<and> c_lock c' = c_lock c"
proof -
  let ?rg = "symrgtbl (c_mm c) i" and ?v = "\<lambda>l. v\<lparr>vm_freerg_list := l\<rparr>"
  have "one_vma (c_mm (put_free v ?rg (put_sym i (invalid_rg ?rg) c))) (?v (?rg # vm_freerg_list v))"
    "one_vma (c_mm (put_sym i (invalid_rg ?rg) c)) v"
    using assms(1) by (simp_all add: one_vma_def put_free_def)
  then show ?thesis
    using rg_free_ok [OF assms(2) one_vma_mmap [OF assms(1)], of 0]
    by (cases "rg_start ?rg < rg_end ?rg") (auto simp: put_free_def)
qed

lemma libfree_returns:
  assumes "one_vma (c_mm c) v" and "sym_ok (int_of_u32 r)"
  shows "\<exists>x c'. libfree c r = Inr (x, c') \<and> (\<exists>v'. one_vma (c_mm c') v') \<and>
    c_mram c' = c_mram c \<and> c_mswp c' = c_mswp c \<and> c_lock c' = c_lock c"
proof -
  obtain x c' v' where c': "rg_free c 0 (int_of_u32 r) = Inr (x, c')" "one_vma (c_mm c') v'"
    "c_mram c' = c_mram c" "c_mswp c' = c_mswp c" "c_lock c' = c_lock c"
    using rg_free_returns [OF assms] by blast
  obtain d where "io_dump (c_mm c') (mmap_end (c_mm c')) = Inr d"
    using io_dump_returns(2) [OF c'(2)] by blast
  then show ?thesis using c' by (auto simp: libfree_def)
qed

lemma kill_one:
  assumes "k_heap k p = Some b" and "can_free (k_heap k) p" and "sym_ok (int_of_u32 memrg)"
  shows "\<exists>x k'. on_ctx k p (\<lambda>c. libfree c memrg) = Inr (x, k') \<and>
    free_pcb p k' = k\<lparr>k_heap := free_all {p} (k_heap k)\<rparr>"
proof -
  obtain v where "one_vma (c_mm (ctx_of k b)) v"
    using assms(1,2) by (auto simp: can_free_def ctx_of_def)
  from libfree_returns [OF this assms(3)] obtain x c' where c': "libfree (ctx_of k b) memrg = Inr (x, c')"
    "c_mram c' = k_mram k" "c_mswp c' = k_mswp k" "c_lock c' = k_mmvm_lock k"
    by (auto simp: ctx_of_def)
  have "free_pcb p (put_ctx k p b c') = k\<lparr>k_heap := free_all {p} (k_heap k)\<rparr>"
    using c' by (cases k) (auto simp: free_pcb_def put_ctx_def free_all_def fun_eq_iff)
  then show ?thesis using c'(1) assms(1) by (simp add: on_ctx_def)
qed

lemma free_all_simps [simp]:
  "free_all {} h = h" "free_all T (free_all S h) = free_all (S \<union> T) h"
  by (auto simp: free_all_def fun_eq_iff)

lemma free_all_other:
  "p \<notin> T \<Longrightarrow> is_target (free_all T h) caller name p = is_target h caller name p"
  "p \<notin> T \<Longrightarrow> can_free (free_all T h) p = can_free h p"
  by (simp_all add: free_all_def is_target_def can_free_def)

lemma uniform_free_all:
  assumes u: "uniform h l" and d: "set l \<inter> T = {}"
  shows "uniform (free_all T h) l"
proof -
  have same: "free_all T h p = h p" if "p \<in> set l" for p
    using d that by (auto simp: free_all_def)
  have key: "pcb_key (free_all T h) p = pcb_key h p" if "p \<in> set l" for p
    unfolding pcb_key_def same [OF that] ..
  show ?thesis
    unfolding uniform_def
  proof (intro conjI ballI)
    fix p assume p: "p \<in> set l"
    show "free_all T h p \<noteq> None"
      unfolding same [OF p] using u p unfolding uniform_def by blast
    fix q assume q: "q \<in> set l"
    show "pcb_key (free_all T h) p = pcb_key (free_all T h) q"
      unfolding key [OF p] key [OF q] using u p q unfolding uniform_def by blast
  qed
qed

lemma kill_ready_uniform:
  assumes "q_wf (get_queue r k)" and "uniform (k_heap k) (q_list (get_queue r k))"
    and "q_list (get_queue r k) = xs @ ys" and "distinct (xs @ ys)"
    and "\<forall>p \<in> set xs. can_free (k_heap k) p" and "sym_ok (int_of_u32 memrg)"
    and "T = is_target (k_heap k) caller name"
  shows "\<exists>q'. kill_ready (length xs) r caller memrg name n k =
      Inr (n + int (length (filter T xs)),
           put_queue r q' (k\<lparr>k_heap := free_all (set (filter T xs)) (k_heap k)\<rparr>)) \<and>
    q_list q' = ys @ filter (\<lambda>p. \<not> T p) xs \<and> q_wf q'"
  using assms(1-5) unfolding assms(7)
proof (induction xs arbitrary: k ys n)
  case Nil
  have "put_queue r (get_queue r k) k = k"
    by (cases r) (simp_all add: put_queue_def get_queue_def)
  then show ?case using Nil by (auto intro!: exI [of _ "get_queue r k"])
next
  case (Cons p xs)
  let ?h = "k_heap k" let ?T = "is_target ?h caller name"
  obtain q where q: "dequeue ?h (get_queue r k) = Inr (Some p, q)" "q_list q = xs @ ys" "q_wf q"
    "q_size q < MAX_QUEUE_SIZE"
    using dequeue_uniform [OF Cons.prems(1,2)] Cons.prems(3) by auto
  obtain b where b: "?h p = Some b"
    using Cons.prems(2,3) by (auto simp: uniform_def)
  have u: "uniform ?h (xs @ ys)" "uniform ?h (xs @ ys @ [p])"
    using Cons.prems(3) by (auto intro!: uniform_sub [OF Cons.prems(2)])
  show ?case
  proof (cases "?T p")
    case True
    let ?k = "put_queue r q k" let ?k' = "put_queue r q (k\<lparr>k_heap := free_all {p} ?h\<rparr>)"
    obtain x k1 where k1: "on_ctx ?k p (\<lambda>c. libfree c memrg) = Inr (x, k1)" "free_pcb p k1 = ?k'"
      using kill_one [of ?k p b memrg] b Cons.prems(5) assms(6) by auto
    have run: "kill_ready (length (p # xs)) r caller memrg name n k =
        kill_ready (length xs) r caller memrg name (n + 1) ?k'"
      using q(1) b True k1 by (simp add: is_target_def Let_def)
    have other: "is_target (free_all {p} ?h) caller name y = ?T y" "can_free (free_all {p} ?h) y = can_free ?h y"
      if "y \<in> set xs" for y
      using that Cons.prems(4) by (auto intro!: free_all_other)
    have f: "filter (is_target (free_all {p} ?h) caller name) xs = filter ?T xs"
      "filter (\<lambda>y. \<not> is_target (free_all {p} ?h) caller name y) xs = filter (\<lambda>y. \<not> ?T y) xs"
      using other by (auto intro!: filter_cong)
    have "\<exists>q'. kill_ready (length xs) r caller memrg name (n + 1) ?k' =
        Inr (n + 1 + int (length (filter (is_target (k_heap ?k') caller name) xs)),
          put_queue r q' (?k'\<lparr>k_heap := free_all (set (filter (is_target (k_heap ?k') caller name) xs)) (k_heap ?k')\<rparr>)) \<and>
        q_list q' = ys @ filter (\<lambda>p. \<not> is_target (k_heap ?k') caller name p) xs \<and> q_wf q'"
      using q u Cons.prems(4,5) other by (intro Cons.IH) (auto intro!: uniform_free_all)
    then show ?thesis
      unfolding run using True f by (auto simp: add.assoc)
  next
    case False
    let ?k = "put_queue r (enqueue q (Some p)) k"
    have run: "kill_ready (length (p # xs)) r caller memrg name n k = kill_ready (length xs) r caller memrg name n ?k"
      using q(1) b False by (auto simp: is_target_def Let_def)
    show ?thesis
      unfolding run using Cons.IH [of ?k "ys @ [p]" n] q(2-4) u(2) False Cons.prems(4,5)
      by (simp add: q_list_enqueue q_wf_enqueue)
  qed
qed

section \<open>What the scan misses\<close>

text \<open>
  When the caller has the least default priority of the running list, each round takes
  the caller again: no other entry is looked at.
\<close>

lemma kill_running_starved:
  assumes "q_wf (get_queue r k)" and "q_live (k_heap k) (get_queue r k)"
    and "q_list (get_queue r k) = pre @ caller # post"
    and "\<forall>p \<in> set (pre @ post). pcb_key (k_heap k) caller < pcb_key (k_heap k) p"
  shows "\<exists>q'. kill_running n r caller name m k = Inr (m, put_queue r q' k) \<and>
    mset (q_list q') = mset (q_list (get_queue r k))"
  using assms
proof (induction n arbitrary: k pre post)
  case 0
  have "put_queue r (get_queue r k) k = k"
    by (cases r) (simp_all add: put_queue_def get_queue_def)
  then show ?case by (auto intro!: exI [of _ "get_queue r k"])
next
  case (Suc n)
  let ?h = "k_heap k" and ?q = "get_queue r k"
  have "q_size ?q \<noteq> 0" using Suc.prems(3) length_q_list [of ?q] by auto
  then obtain i q where d: "dequeue ?h ?q = Inr (Some (q_list ?q ! i), q)" "least_entry ?h (q_list ?q) (q_size ?q) i"
    "q_list q = take i (q_list ?q) @ drop (Suc i) (q_list ?q)" "q_size ?q = Suc (q_size q)"
    using dequeue_ok [OF Suc.prems(1,2)] by blast
  have i: "i = length pre"
  proof (rule ccontr)
    assume ne: "i \<noteq> length pre"
    have "i < length (q_list ?q)" using d(2) by (simp add: least_entry_def)
    then have "q_list ?q ! i \<in> set (pre @ post)"
      using ne Suc.prems(3) by (cases "i < length pre") (auto simp: nth_append nth_Cons')
    moreover have "length pre < q_size ?q"
      using Suc.prems(3) length_q_list [of ?q] by simp
    then have "pcb_key ?h (q_list ?q ! i) \<le> pcb_key ?h (q_list ?q ! length pre)"
      using d(2) unfolding least_entry_def by blast
    ultimately show False using Suc.prems(3,4) by (auto simp: not_le [symmetric])
  qed
  then have q: "dequeue ?h ?q = Inr (Some caller, q)" "q_list q = pre @ post" "q_size q < MAX_QUEUE_SIZE"
    using d Suc.prems(1,3) by (auto simp: q_wf_def)
  obtain b where b: "?h caller = Some b"
    using Suc.prems(2,3) by (auto simp: q_live_def)
  let ?k = "put_queue r (enqueue q (Some caller)) k"
  have run: "kill_running (Suc n) r caller name m k = kill_running n r caller name m ?k"
    using q(1) b by simp
  have l: "q_list (enqueue q (Some caller)) = (pre @ post) @ caller # []"
    using q by (simp add: q_list_enqueue)
  have "\<exists>q'. kill_running n r caller name m ?k = Inr (m, put_queue r q' ?k) \<and>
      mset (q_list q') = mset (q_list (get_queue r ?k))"
    using Suc.prems q l by (intro Suc.IH [of _ "pre @ post" "[]"])
      (auto simp: q_live_def q_wf_enqueue q_wf_dequeue)
  then show ?case using run l Suc.prems(3) by auto
qed

section \<open>The whole call\<close>

text \<open>
  \<open>killall\<close> on queues whose processes share one default priority: every entry of the
  running list and of level 0 that is not the caller and has the name is killed.
\<close>

lemma put_ctx_same: "k_heap k p = Some b \<Longrightarrow> put_ctx k p b (ctx_of k b) = k"
  by (simp add: put_ctx_def ctx_of_def fun_upd_idem)

lemma other_queue [simp]:
  "get_queue MlqReadyQueue (put_queue RunningList q k) = get_queue MlqReadyQueue k"
  "get_queue RunningList (put_queue MlqReadyQueue q k) = get_queue RunningList k"
  by (simp_all add: get_queue_def put_queue_def)

lemma can_free_finish_all [simp]: "can_free (finish_all T h) p = can_free h p"
  by (auto simp: can_free_def finish_all_def)

lemma sys_killall_uniform:
  assumes b: "k_heap k p = Some b" "p_running_list b = Some RunningList" "p_mlq_ready_queue b = Some MlqReadyQueue"
    and name: "holds_bytes u (ctx_of k b) r (bs @ [-1])" "length bs < 100" "-1 \<notin> set bs" "full_name bs = Inr nm"
    and run: "q_wf (running_list (k_sched k))" "uniform (k_heap k) (q_list (running_list (k_sched k)))"
    and rdy: "q_wf (mlq_ready_queue (k_sched k) 0)" "uniform (k_heap k) (level (k_sched k) 0)"
      "distinct (level (k_sched k) 0)" "\<forall>q \<in> set (level (k_sched k) 0). can_free (k_heap k) q"
  defines "T \<equiv> is_target (k_heap k) p nm" and "rl \<equiv> q_list (running_list (k_sched k))"
    and "l0 \<equiv> level (k_sched k) 0"
  shows "\<exists>k'. sys_killall u k p \<lparr>sc_a1 = r, sc_a2 = x, sc_a3 = y\<rparr> =
      Inr (int (length (filter T rl)) + int (length (filter T l0)), k') \<and>
    q_list (running_list (k_sched k')) = filter (\<lambda>q. \<not> T q) rl \<and>
    level (k_sched k') 0 = filter (\<lambda>q. \<not> T q) l0 \<and>
    (\<forall>j. j \<noteq> 0 \<longrightarrow> level (k_sched k') j = level (k_sched k) j) \<and>
    (\<forall>q. q \<noteq> p \<longrightarrow> k_heap k' q =
       free_all (set (filter T l0)) (finish_all (set (filter T rl)) (k_heap k)) q)"
proof -
  let ?r = "\<lparr>sc_a1 = r, sc_a2 = x, sc_a3 = y\<rparr>"
  obtain v where v: "one_vma (mm b) v" and r: "sym_ok (int_of_u32 r)"
    using name(1) by (auto simp: holds_bytes_def ctx_of_def)
  have nm: "on_ctx k p (name_loop u r 0 []) = Inr (bs, k)"
    using name_loop_end [OF name(1-3), of 0] b(1) by (simp add: on_ctx_def put_ctx_same)
  obtain q1 where q1: "kill_running (length rl) RunningList p nm 0 k =
      Inr (int (length (filter T rl)), put_queue RunningList q1 (k\<lparr>k_heap := finish_all (set (filter T rl)) (k_heap k)\<rparr>))"
    "q_list q1 = filter (\<lambda>q. \<not> T q) rl"
    using kill_running_uniform [of RunningList k rl "[]" T p nm 0] run
    by (auto simp: get_queue_def rl_def T_def)
  let ?k1 = "put_queue RunningList q1 (k\<lparr>k_heap := finish_all (set (filter T rl)) (k_heap k)\<rparr>)"
  let ?n1 = "int (length (filter T rl))"
  have g: "get_queue MlqReadyQueue k = mlq_ready_queue (k_sched k) 0"
    by (simp add: get_queue_def)
  obtain q2 where q2: "kill_ready (length l0) MlqReadyQueue p r nm ?n1 ?k1 =
      Inr (?n1 + int (length (filter T l0)), put_queue MlqReadyQueue q2
        (?k1\<lparr>k_heap := free_all (set (filter T l0)) (finish_all (set (filter T rl)) (k_heap k))\<rparr>))"
    "q_list q2 = filter (\<lambda>q. \<not> T q) l0"
    using kill_ready_uniform [of MlqReadyQueue ?k1 l0 "[]" r T p nm ?n1] rdy r
    by (auto simp: g l0_def T_def level_def)
  let ?k2 = "put_queue MlqReadyQueue q2
        (?k1\<lparr>k_heap := free_all (set (filter T l0)) (finish_all (set (filter T rl)) (k_heap k))\<rparr>)"
  have "\<not> T p" using b(1) by (simp add: T_def is_target_def)
  then have p2: "k_heap ?k2 p = Some b" using b(1) by (simp add: free_all_def finish_all_def)
  have "one_vma (c_mm (ctx_of ?k2 b)) v" using v by (simp add: ctx_of_def)
  from libfree_returns [OF this r] obtain z c where z: "libfree (ctx_of ?k2 b) r = Inr (z, c)" by blast
  have "sys_killall u k p ?r = Inr (?n1 + int (length (filter T l0)), put_ctx ?k2 p b c)"
    using nm name(4) b q1(1) q2(1) p2 z
    by (simp add: sys_killall_def deref_def Let_def on_ctx_def get_queue_def rl_def l0_def level_def put_queue_def)
  then show ?thesis
    using q1(2) q2(2)
    by - (rule exI [of _ "put_ctx ?k2 p b c"], simp add: put_ctx_def put_queue_def level_def)
qed
end
