(* ===== verification/Cpu.thy ===== *)
theory Cpu
  imports Killall
begin

text \<open>
  The processor (\<open>src/cpu.c\<close>, \<open>run\<close>): one instruction of a process.  The lemmas give
  what each instruction does to the process and the kernel, and that the program counter
  never leaves the code segment.
\<close>

section \<open>One instruction\<close>

text \<open>The program has \<open>size\<close> instructions; the loader allocates as many.\<close>

definition fetch :: "code_seg_t \<Rightarrow> u32 \<Rightarrow> inst_t outcome" where
  "fetch cs i = rbind (assert_that (unat i < length (code_text cs)) OutOfBounds) (\<lambda>_. Inr (code_text cs ! unat i))"

definition exec :: "uninit \<Rightarrow> kernel \<Rightarrow> pcb_ptr \<Rightarrow> inst_t \<Rightarrow> (int \<times> kernel) outcome" where
  "exec u k proc ins =
    (case opcode ins of
       CALC \<Rightarrow> Inr (calc proc, k)
     | ALLOC \<Rightarrow> on_ctx k proc (\<lambda>c. liballoc u c (arg_0 ins) (arg_1 ins))
     | FREE \<Rightarrow> on_ctx k proc (\<lambda>c. libfree c (arg_0 ins))
     | READ \<Rightarrow> on_ctx k proc (\<lambda>c.
         rbind (libread u c (arg_0 ins) (arg_1 ins)) (\<lambda>(ret, _, c). Inr (ret, c)))
     | WRITE \<Rightarrow> on_ctx k proc (\<lambda>c. libwrite u c (byte_of_u32 (arg_0 ins)) (arg_1 ins) (arg_2 ins))
     | SYSCALL \<Rightarrow> libsyscall u k proc (arg_0 ins) (arg_1 ins) (arg_2 ins) (arg_3 ins))"

definition run :: "uninit \<Rightarrow> kernel \<Rightarrow> pcb_ptr \<Rightarrow> (int \<times> kernel) outcome" where
  "run u k proc =
    rbind (pcb_at (k_heap k) proc) (\<lambda>b.
    if pc b \<ge> code_size (pcb_code b) then Inr (1, k)
    else
      rbind (fetch (pcb_code b) (pc b)) (\<lambda>ins.
      exec u (k\<lparr>k_heap := (k_heap k)(proc \<mapsto> b\<lparr>pc := pc b + 1\<rparr>)\<rparr>) proc ins))"

section \<open>What an instruction may change\<close>

lemma calc_0 [simp]: "calc p = 0"
  by (simp add: calc_def int_of_u64_def)

text \<open>Programs with their program counter within the code.\<close>

definition pcb_wf :: "pcb_t \<Rightarrow> bool" where
  "pcb_wf b \<longleftrightarrow> pc b \<le> code_size (pcb_code b) \<and> unat (code_size (pcb_code b)) = length (code_text (pcb_code b))"

definition heap_wf :: "heap \<Rightarrow> bool" where
  "heap_wf h \<longleftrightarrow> (\<forall>p b. h p = Some b \<longrightarrow> pcb_wf b)"

lemma pcb_wf_mm [simp]: "pcb_wf (b\<lparr>mm := m\<rparr>) = pcb_wf b"
  by (simp add: pcb_wf_def)

lemma heap_wf_upd: "heap_wf h \<Longrightarrow> pcb_wf b \<Longrightarrow> heap_wf (h(p \<mapsto> b))"
  by (simp add: heap_wf_def)

lemma heap_wf_None: "heap_wf h \<Longrightarrow> heap_wf (h(p := None))"
  by (simp add: heap_wf_def)

text \<open>
  The heaps a system call of \<open>caller\<close> may leave: well-formed again, and the caller's
  block as before but for its memory map.
\<close>

definition caller_keeps :: "pcb_ptr \<Rightarrow> heap \<Rightarrow> heap \<Rightarrow> bool" where
  "caller_keeps p h h' \<longleftrightarrow> (heap_wf h \<longrightarrow> heap_wf h') \<and>
    (\<forall>b. h p = Some b \<longrightarrow> (\<exists>m. h' p = Some (b\<lparr>mm := m\<rparr>)))"

lemma mm_same [simp]: "\<exists>m. b = b\<lparr>mm := m\<rparr>"
  by (rule exI [of _ "mm b"]) simp

lemma caller_keeps_refl [simp]: "caller_keeps p h h"
  by (simp add: caller_keeps_def)

lemma caller_keeps_trans: "caller_keeps p h1 h2 \<Longrightarrow> caller_keeps p h2 h3 \<Longrightarrow> caller_keeps p h1 h3"
  unfolding caller_keeps_def by fastforce

lemma on_ctx_keeps:
  assumes "on_ctx k t f = Inr (x, k')"
  shows "caller_keeps p (k_heap k) (k_heap k')" and "k_sched k' = k_sched k"
    and "\<forall>q. q \<noteq> t \<longrightarrow> k_heap k' q = k_heap k q"
proof -
  obtain b c where b: "k_heap k t = Some b" "k' = put_ctx k t b c"
    using assms by (auto simp: on_ctx_def rbind_Inr_iff pcb_at_Inr)
  show "caller_keeps p (k_heap k) (k_heap k')"
  proof (cases "p = t")
    case True
    then show ?thesis
      using b by (auto simp: caller_keeps_def put_ctx_def heap_wf_def)
  next
    case False
    have "heap_wf (k_heap k) \<longrightarrow> heap_wf (k_heap k')"
      using b by (auto simp: put_ctx_def heap_wf_def)
    moreover have "k_heap k' p = k_heap k p" using b False by (simp add: put_ctx_def)
    ultimately show ?thesis
      using caller_keeps_refl [of p "k_heap k"] by (simp add: caller_keeps_def)
  qed
  show "k_sched k' = k_sched k" "\<forall>q. q \<noteq> t \<longrightarrow> k_heap k' q = k_heap k q"
    using b by (simp_all add: put_ctx_def)
qed

lemma caller_keeps_other:
  "t \<noteq> p \<Longrightarrow> (heap_wf h \<Longrightarrow> pcb_wf b) \<Longrightarrow> caller_keeps p h (h(t \<mapsto> b))"
  "t \<noteq> p \<Longrightarrow> caller_keeps p h (h(t := None))"
  using caller_keeps_refl [of p h] by (auto simp: caller_keeps_def heap_wf_upd heap_wf_None)

lemma kill_running_keeps:
  "kill_running n r caller name m k = Inr (x, k') \<Longrightarrow> caller_keeps caller (k_heap k) (k_heap k')"
proof (induction n arbitrary: k m)
  case (Suc n)
  obtain target q where d: "dequeue (k_heap k) (get_queue r k) = Inr (target, q)"
    using Suc.prems by (auto simp: rbind_Inr_iff)
  show ?case
  proof (cases target)
    case None
    then show ?thesis using Suc d by fastforce
  next
    case (Some t)
    obtain b where b: "k_heap k t = Some b"
      using Suc.prems d Some by (auto simp: rbind_Inr_iff pcb_at_Inr Let_def)
    let ?keep = "put_queue r (enqueue q (Some t)) k"
    let ?b = "b\<lparr>pc := code_size (pcb_code b)\<rparr>"
    consider "pid b = 0 \<or> t = caller \<or> path b \<noteq> name" | "t \<noteq> caller" "pid b \<noteq> 0" "path b = name" by blast
    then show ?thesis
    proof cases
      case 1
      then have "kill_running n r caller name m ?keep = Inr (x, k')"
        using Suc.prems d Some b by (auto simp: Let_def split: if_splits)
      then show ?thesis using Suc.IH by fastforce
    next
      case 2
      then have "kill_running n r caller name (m + 1) (put_queue r q (k\<lparr>k_heap := (k_heap k)(t \<mapsto> ?b)\<rparr>)) = Inr (x, k')"
        using Suc.prems d Some b by (auto simp: Let_def)
      then have "caller_keeps caller ((k_heap k)(t \<mapsto> ?b)) (k_heap k')"
        using Suc.IH by fastforce
      moreover have "caller_keeps caller (k_heap k) ((k_heap k)(t \<mapsto> ?b))"
        using 2(1) b by (intro caller_keeps_other) (auto simp: heap_wf_def pcb_wf_def)
      ultimately show ?thesis using caller_keeps_trans by blast
    qed
  qed
qed simp

lemma kill_ready_keeps:
  "kill_ready n r caller memrg name m k = Inr (x, k') \<Longrightarrow> caller_keeps caller (k_heap k) (k_heap k')"
proof (induction n arbitrary: k m)
  case (Suc n)
  obtain target q where d: "dequeue (k_heap k) (get_queue r k) = Inr (target, q)"
    using Suc.prems by (auto simp: rbind_Inr_iff)
  show ?case
  proof (cases target)
    case None
    then show ?thesis using Suc d by fastforce
  next
    case (Some t)
    obtain b where b: "k_heap k t = Some b"
      using Suc.prems d Some by (auto simp: rbind_Inr_iff pcb_at_Inr Let_def)
    let ?keep = "put_queue r (enqueue q (Some t)) k"
    consider "pid b = 0 \<or> t = caller \<or> path b \<noteq> name" | "t \<noteq> caller" "pid b \<noteq> 0" "path b = name" by blast
    then show ?thesis
    proof cases
      case 1
      then have "kill_ready n r caller memrg name m ?keep = Inr (x, k')"
        using Suc.prems d Some b by (auto simp: Let_def split: if_splits)
      then show ?thesis using Suc.IH by fastforce
    next
      case 2
      then obtain y k1 where k1: "on_ctx (put_queue r q k) t (\<lambda>c. libfree c memrg) = Inr (y, k1)"
        "kill_ready n r caller memrg name (m + 1) (free_pcb t k1) = Inr (x, k')"
        using Suc.prems d Some b by (auto simp: Let_def rbind_Inr_iff)
      have "caller_keeps caller (k_heap k) (k_heap k1)"
        using on_ctx_keeps(1) [OF k1(1), of caller] by simp
      moreover have "caller_keeps caller (k_heap k1) (k_heap (free_pcb t k1))"
        using 2(1) by (simp add: free_pcb_def caller_keeps_other)
      ultimately show ?thesis using Suc.IH [OF k1(2)] caller_keeps_trans by blast
    qed
  qed
qed simp

lemma syscall_keeps:
  assumes "syscall u k p nr r = Inr (x, k')"
  shows "caller_keeps p (k_heap k) (k_heap k')"
proof -
  consider "nr = 17" | "nr = 101" | "nr \<noteq> 17" "nr \<noteq> 101" by blast
  then show ?thesis
  proof cases
    case 1
    then show ?thesis
      using assms by (auto simp: syscall_def sys_memmap_def Let_def rbind_Inr_iff
          dest: on_ctx_keeps(1) split: if_splits)
  next
    case 2
    then obtain bytes k1 name b rq mq n1 k2 n2 k3 y where
      "on_ctx k p (name_loop u (sc_a1 r) 0 []) = Inr (bytes, k1)"
      "kill_running (q_size (get_queue rq k1)) rq p name 0 k1 = Inr (n1, k2)"
      "kill_ready (q_size (get_queue mq k2)) mq p (sc_a1 r) name n1 k2 = Inr (n2, k3)"
      "on_ctx k3 p (\<lambda>c. libfree c (sc_a1 r)) = Inr (y, k')"
      using assms by (auto simp: syscall_def sys_killall_def Let_def rbind_Inr_iff)
    then show ?thesis
      using on_ctx_keeps(1) kill_running_keeps kill_ready_keeps caller_keeps_trans by metis
  next
    case 3
    then show ?thesis
      using assms by (auto simp: syscall_def sys_listsyscall_eq sys_ni_syscall_def split: if_splits)
  qed
qed

lemma exec_keeps:
  "exec u k p ins = Inr (x, k') \<Longrightarrow> caller_keeps p (k_heap k) (k_heap k')"
  using on_ctx_keeps(1) syscall_keeps
  by (cases "opcode ins") (auto simp: exec_def libsyscall_def)

section \<open>run\<close>

lemma run_finished: "k_heap k p = Some b \<Longrightarrow> code_size (pcb_code b) \<le> pc b \<Longrightarrow> run u k p = Inr (1, k)"
  by (simp add: run_def)

lemma run_step:
  assumes "k_heap k p = Some b" and "pc b < code_size (pcb_code b)"
    and "unat (code_size (pcb_code b)) = length (code_text (pcb_code b))"
  shows "run u k p = exec u (k\<lparr>k_heap := (k_heap k)(p \<mapsto> b\<lparr>pc := pc b + 1\<rparr>)\<rparr>) p (code_text (pcb_code b) ! unat (pc b))"
proof -
  have "\<not> code_size (pcb_code b) \<le> pc b" using assms(2) by simp
  moreover have "unat (pc b) < length (code_text (pcb_code b))"
    using assms(2,3) by (simp add: word_less_nat_alt)
  ultimately show ?thesis using assms(1) by (simp add: run_def fetch_def)
qed

lemma pc_step:
  assumes "pc b < code_size (pcb_code b)"
  shows "pc b + 1 \<le> code_size (pcb_code b)" and "unat (pc b + 1) = unat (pc b) + 1"
proof -
  have "unat (code_size (pcb_code b)) < 4294967296"
    using unsigned_less [of "code_size (pcb_code b)", where 'a = nat] by simp
  then show "unat (pc b + 1) = unat (pc b) + 1"
    using assms unat_add_lem [of "pc b" 1] by (simp add: word_less_nat_alt)
  then show "pc b + 1 \<le> code_size (pcb_code b)"
    using assms by (simp add: word_le_nat_alt word_less_nat_alt)
qed

lemma run_advances:
  assumes wf: "heap_wf (k_heap k)" and b: "k_heap k p = Some b" and run: "run u k p = Inr (x, k')"
    and lt: "pc b < code_size (pcb_code b)"
  shows "heap_wf (k_heap k') \<and> (\<exists>m. k_heap k' p = Some (b\<lparr>pc := pc b + 1, mm := m\<rparr>))"
proof -
  have w: "pcb_wf b" using wf b by (simp add: heap_wf_def)
  let ?k = "k\<lparr>k_heap := (k_heap k)(p \<mapsto> b\<lparr>pc := pc b + 1\<rparr>)\<rparr>"
  have "exec u ?k p (code_text (pcb_code b) ! unat (pc b)) = Inr (x, k')"
    using run run_step [OF b lt, of u] w by (simp add: pcb_wf_def)
  then have "caller_keeps p (k_heap ?k) (k_heap k')" by (rule exec_keeps)
  moreover have "heap_wf (k_heap ?k)"
    using wf w pc_step(1) [OF lt] by (simp add: heap_wf_def pcb_wf_def)
  ultimately show ?thesis by (auto simp: caller_keeps_def)
qed

text \<open>Every other instruction than a system call leaves the other processes and the scheduler alone.\<close>

lemma exec_isolated:
  assumes "exec u k p ins = Inr (x, k')" and "opcode ins \<noteq> SYSCALL"
  shows "k_sched k' = k_sched k \<and> (\<forall>q. q \<noteq> p \<longrightarrow> k_heap k' q = k_heap k q)"
  using assms on_ctx_keeps(2,3) by (cases "opcode ins") (fastforce simp: exec_def)+

lemma run_isolated:
  assumes wf: "heap_wf (k_heap k)" and b: "k_heap k p = Some b" and run: "run u k p = Inr (x, k')"
    and lt: "pc b < code_size (pcb_code b)"
  shows "opcode (code_text (pcb_code b) ! unat (pc b)) \<noteq> SYSCALL \<longrightarrow>
    k_sched k' = k_sched k \<and> (\<forall>q. q \<noteq> p \<longrightarrow> k_heap k' q = k_heap k q)"
proof -
  have "pcb_wf b" using wf b by (simp add: heap_wf_def)
  then have "exec u (k\<lparr>k_heap := (k_heap k)(p \<mapsto> b\<lparr>pc := pc b + 1\<rparr>)\<rparr>) p
      (code_text (pcb_code b) ! unat (pc b)) = Inr (x, k')"
    using run run_step [OF b lt, of u] by (simp add: pcb_wf_def)
  then show ?thesis using exec_isolated by fastforce
qed

end
