(* ===== verification/Loader.thy ===== *)
theory Loader
  imports Cpu
begin

text \<open>
  The loader (\<open>src/loader.c\<close>): a process description is read from a file into a new
  PCB.  A file is its characters; \<open>fscanf\<close>, \<open>fgets\<close> and \<open>sscanf\<close> are modelled for the
  conversions the code uses (\<open>%u\<close>, \<open>%d\<close>, \<open>%s\<close>), with what a failed conversion leaves
  unassigned.  The main result is a round trip: a printed description is loaded as the
  process it describes.
\<close>

section \<open>Scanning\<close>

definition is_space :: "char \<Rightarrow> bool" where
  "is_space c \<longleftrightarrow> c = CHR '' '' \<or> c = CHR 0x09 \<or> c = CHR 0x0A \<or> c = CHR 0x0B \<or> c = CHR 0x0C \<or> c = CHR 0x0D"

definition digits :: string where
  "digits = ''0123456789''"

definition is_digit :: "char \<Rightarrow> bool" where
  "is_digit c \<longleftrightarrow> c \<in> set digits"

fun index_of :: "char \<Rightarrow> string \<Rightarrow> nat" where
  "index_of c [] = 0"
| "index_of c (d # ds) = (if c = d then 0 else Suc (index_of c ds))"

definition number_of :: "string \<Rightarrow> nat" where
  "number_of ds = foldl (\<lambda>n c. n * 10 + index_of c digits) 0 ds"

definition skip_space :: "string \<Rightarrow> string" where
  "skip_space inp = dropWhile is_space inp"

text \<open>An optional sign; the rest.\<close>

definition scan_sign :: "string \<Rightarrow> bool \<times> string" where
  "scan_sign inp =
    (case inp of
       [] \<Rightarrow> (False, [])
     | c # r \<Rightarrow> if c = CHR ''-'' then (True, r) else if c = CHR ''+'' then (False, r) else (False, inp))"

text \<open>
  \<open>%u\<close> and \<open>%d\<close>: the number as the unsigned (signed) long that the library computes,
  saturating, cut to 32 bits.  \<open>None\<close>: no number, nothing assigned.
\<close>

definition scan_u :: "string \<Rightarrow> u32 option \<times> string" where
  "scan_u inp =
    (case scan_sign (skip_space inp) of (neg, r) \<Rightarrow>
      (let ds = takeWhile is_digit r; rest = dropWhile is_digit r; n = int (number_of ds)
       in if ds = [] then (None, rest)
          else if 2 ^ 64 \<le> n then (Some (-1), rest)
          else (Some (u32_of_int (if neg then - n else n)), rest)))"

definition scan_d :: "string \<Rightarrow> u32 option \<times> string" where
  "scan_d inp =
    (case scan_sign (skip_space inp) of (neg, r) \<Rightarrow>
      (let ds = takeWhile is_digit r; rest = dropWhile is_digit r; n = int (number_of ds)
       in if ds = [] then (None, rest)
          else (Some (u32_of_int (if neg then max (- (2 ^ 63)) (- n) else min (2 ^ 63 - 1) n)), rest)))"

text \<open>Up to \<open>n\<close> conversions in a row: the values assigned, in order, and the rest.\<close>

fun scan_list :: "(string \<Rightarrow> u32 option \<times> string) \<Rightarrow> nat \<Rightarrow> string \<Rightarrow> u32 list \<times> string" where
  "scan_list conv 0 inp = ([], inp)"
| "scan_list conv (Suc n) inp =
    (case conv inp of
       (None, rest) \<Rightarrow> ([], rest)
     | (Some v, rest) \<Rightarrow> (case scan_list conv n rest of (vs, rest') \<Rightarrow> (v # vs, rest')))"

text \<open>\<open>n\<close> \<open>%u\<close> conversions followed by the directive \<open>\n\<close>, which skips white space.\<close>

definition scan_us_nl :: "nat \<Rightarrow> string \<Rightarrow> u32 list \<times> string" where
  "scan_us_nl n inp =
    (case scan_list scan_u n inp of (vs, rest) \<Rightarrow> (vs, if length vs = n then skip_space rest else rest))"

text \<open>\<open>%s\<close> into a buffer that held \<open>old\<close>.\<close>

definition scan_s :: "string \<Rightarrow> string \<Rightarrow> string \<times> string" where
  "scan_s old inp =
    (let w = takeWhile (\<lambda>c. \<not> is_space c) (skip_space inp)
     in if w = [] then (old, skip_space inp) else (w, dropWhile (\<lambda>c. \<not> is_space c) (skip_space inp)))"

text \<open>\<open>fgets\<close> of at most \<open>n - 1\<close> characters up to a newline, into a buffer that held \<open>old\<close>.\<close>

definition line_length :: "string \<Rightarrow> nat" where
  "line_length inp =
    (let l = length (takeWhile (\<lambda>c. c \<noteq> CHR 0x0A) inp) in if l < length inp then l + 1 else l)"

definition fgets :: "string \<Rightarrow> nat \<Rightarrow> string \<Rightarrow> string \<times> string" where
  "fgets old n inp =
    (if inp = [] then (old, [])
     else let l = min (n - 1) (line_length inp) in (take l inp, drop l inp))"

section \<open>get_opcode and load\<close>

definition get_opcode :: "string \<Rightarrow> ins_opcode_t outcome" where
  "get_opcode opt =
    (if opt = ''calc'' then Inr CALC
     else if opt = ''alloc'' then Inr ALLOC
     else if opt = ''free'' then Inr FREE
     else if opt = ''read'' then Inr READ
     else if opt = ''write'' then Inr WRITE
     else if opt = ''syscall'' then Inr SYSCALL
     else Inl (Exits 1))"

text \<open>The arguments that were assigned, in an instruction that held something before.\<close>

definition set_args :: "u32 list \<Rightarrow> inst_t \<Rightarrow> inst_t" where
  "set_args vs ins =
    (let n = length vs in
     ins\<lparr>arg_0 := (if 0 < n then vs ! 0 else arg_0 ins), arg_1 := (if 1 < n then vs ! 1 else arg_1 ins),
         arg_2 := (if 2 < n then vs ! 2 else arg_2 ins), arg_3 := (if 3 < n then vs ! 3 else arg_3 ins)\<rparr>)"

text \<open>The arguments of one instruction: the values, the rest of the file and the line buffer.\<close>

definition load_args :: "ins_opcode_t \<Rightarrow> string \<Rightarrow> string \<Rightarrow> u32 list \<times> string \<times> string" where
  "load_args oc buf inp =
    (case oc of
       CALC \<Rightarrow> ([], inp, buf)
     | ALLOC \<Rightarrow> (case scan_us_nl 2 inp of (vs, r) \<Rightarrow> (vs, r, buf))
     | FREE \<Rightarrow> (case scan_us_nl 1 inp of (vs, r) \<Rightarrow> (vs, r, buf))
     | READ \<Rightarrow> (case scan_us_nl 3 inp of (vs, r) \<Rightarrow> (vs, r, buf))
     | WRITE \<Rightarrow> (case scan_us_nl 3 inp of (vs, r) \<Rightarrow> (vs, r, buf))
     | SYSCALL \<Rightarrow> (case fgets buf 200 inp of (buf, r) \<Rightarrow> (fst (scan_list scan_d 4 buf), r, buf)))"

text \<open>
  The loop over the instructions.  The arguments are what the allocated tx, the buffer
  \<open>opcode\<close> of 10 bytes and the line buffer hold.
\<close>

fun load_loop :: "inst_t list \<Rightarrow> string \<Rightarrow> string \<Rightarrow> string \<Rightarrow> inst_t list outcome" where
  "load_loop [] opc buf inp = Inr []"
| "load_loop (ins # tx) opc buf inp =
    (case scan_s opc inp of (opc, inp) \<Rightarrow>
     rbind (assert_that (length opc < 10) OutOfBounds) (\<lambda>_.
     rbind (get_opcode opc) (\<lambda>oc.
     case load_args oc buf inp of (vs, inp, buf) \<Rightarrow>
     rbind (load_loop tx opc buf inp) (\<lambda>rest.
     Inr (set_args vs (ins\<lparr>opcode := oc\<rparr>) # rest)))))"

text \<open>What the memory that \<open>load\<close> allocates, and its buffers, hold at first.\<close>

record load_junk =
  j_pcb :: pcb_t
  j_text :: "nat \<Rightarrow> inst_t"
  j_opcode :: string
  j_buf :: string

definition load :: "load_junk \<Rightarrow> (string \<Rightarrow> string option) \<Rightarrow> u32 \<Rightarrow> string \<Rightarrow> (pcb_t \<times> u32) outcome" where
  "load j fs next_pid pth =
    (let b = (j_pcb j)\<lparr>pid := next_pid, bp := u32_of_int PAGE_SIZE, pc := 0\<rparr> in
     case fs pth of
       None \<Rightarrow> Inl (Exits 1)
     | Some inp \<Rightarrow>
         (case scan_list scan_u 2 inp of (vs, inp) \<Rightarrow>
          (let pr = (if 0 < length vs then vs ! 0 else priority b);
               sz = (if 1 < length vs then vs ! 1 else code_size (pcb_code b))
           in rbind (load_loop (map (j_text j) [0..<unat sz]) (j_opcode j) (j_buf j) inp) (\<lambda>tx.
              Inr (b\<lparr>path := take 16 pth, priority := pr, pcb_code := \<lparr>code_text = tx, code_size = sz\<rparr>\<rparr>,
                   next_pid + 1)))))"

section \<open>Numbers round trip\<close>

lemma digits_nth: "k < 10 \<Longrightarrow> index_of (digits ! k) digits = k \<and> digits ! k \<in> set digits"
proof -
  assume "k < 10"
  then have "k \<in> {0, 1, 2, 3, 4, 5, 6, 7, 8, 9}" by auto
  then show ?thesis by (auto simp: digits_def)
qed

lemma decimal_step: "decimal n = (if n < 10 then [digits ! n] else decimal (n div 10) @ [digits ! (n mod 10)])"
  by (subst decimal.simps) (simp add: digits_def)

lemma decimal_ok: "decimal n \<noteq> [] \<and> (\<forall>c \<in> set (decimal n). is_digit c) \<and> number_of (decimal n) = n"
proof (induction n rule: decimal.induct)
  case (1 n)
  show ?case
  proof (cases "n < 10")
    case True
    then show ?thesis
      using digits_nth [of n] by (subst (1 2 3) decimal_step) (simp add: is_digit_def number_of_def)
  next
    case False
    have "number_of (decimal (n div 10) @ [digits ! (n mod 10)]) = n div 10 * 10 + n mod 10"
      using 1 False digits_nth [of "n mod 10"] by (simp add: number_of_def)
    then show ?thesis
      using 1 False digits_nth [of "n mod 10"] by (subst (1 2 3) decimal_step) (auto simp: is_digit_def)
  qed
qed

lemma is_digit_not_space: "is_digit c \<Longrightarrow> \<not> is_space c \<and> c \<noteq> CHR ''-'' \<and> c \<noteq> CHR ''+''"
  by (auto simp: is_digit_def digits_def is_space_def)

definition no_digit :: "string \<Rightarrow> bool" where
  "no_digit rest \<longleftrightarrow> (case rest of [] \<Rightarrow> True | c # _ \<Rightarrow> \<not> is_digit c)"

lemma scan_number:
  assumes "no_digit rest" and "\<forall>c \<in> set w. is_space c"
  shows "scan_sign (skip_space (w @ decimal n @ rest)) = (False, decimal n @ rest)"
    and "takeWhile is_digit (decimal n @ rest) = decimal n" and "dropWhile is_digit (decimal n @ rest) = rest"
proof -
  obtain d ds where d: "decimal n = d # ds" "is_digit d" using decimal_ok [of n] by (cases "decimal n") auto
  have "dropWhile is_space (w @ decimal n @ rest) = decimal n @ rest"
    using assms(2) d is_digit_not_space [OF d(2)] by (subst dropWhile_append2) auto
  then show "scan_sign (skip_space (w @ decimal n @ rest)) = (False, decimal n @ rest)"
    using is_digit_not_space [OF d(2)] by (simp add: skip_space_def scan_sign_def d(1))
  have "takeWhile is_digit rest = []" "dropWhile is_digit rest = rest"
    using assms(1) by (cases rest; simp add: no_digit_def)+
  then show "takeWhile is_digit (decimal n @ rest) = decimal n" "dropWhile is_digit (decimal n @ rest) = rest"
    using decimal_ok [of n] by (simp_all add: takeWhile_append2 dropWhile_append2)
qed

lemma u32_of_int_unat [simp]: "u32_of_int (int (unat w)) = w" "u32_of_int (uint w) = w"
  by (simp_all add: u32_of_int_def)

lemma unat_u32_bound: "int (unat (w :: u32)) < 4294967296"
proof -
  have "uint w < 2 ^ 32" using uint_lt2p [of w] by simp
  then show ?thesis by simp
qed

lemma scan_conv:
  assumes "no_digit rest" and "\<forall>c \<in> set w. is_space c"
  shows "scan_u (w @ decimal (unat v) @ rest) = (Some v, rest)"
    and "scan_d (w @ decimal (unat v) @ rest) = (Some v, rest)"
  using decimal_ok [of "unat v"] unat_u32_bound [of v]
  by (simp_all add: scan_u_def scan_d_def scan_number [OF assms] Let_def min_def)

section \<open>Programs round trip\<close>

fun arity :: "ins_opcode_t \<Rightarrow> nat" where
  "arity CALC = 0"
| "arity ALLOC = 2"
| "arity FREE = 1"
| "arity READ = 3"
| "arity WRITE = 3"
| "arity SYSCALL = 4"

fun opcode_name :: "ins_opcode_t \<Rightarrow> string" where
  "opcode_name CALC = ''calc''"
| "opcode_name ALLOC = ''alloc''"
| "opcode_name FREE = ''free''"
| "opcode_name READ = ''read''"
| "opcode_name WRITE = ''write''"
| "opcode_name SYSCALL = ''syscall''"

definition args_of :: "inst_t \<Rightarrow> u32 list" where
  "args_of ins = take (arity (opcode ins)) [arg_0 ins, arg_1 ins, arg_2 ins, arg_3 ins]"

definition nl :: string where
  "nl = [CHR 0x0A]"

definition print_args :: "u32 list \<Rightarrow> string" where
  "print_args vs = concat (map (\<lambda>v. '' '' @ decimal (unat v)) vs)"

definition print_inst :: "inst_t \<Rightarrow> string" where
  "print_inst ins = opcode_name (opcode ins) @ print_args (args_of ins) @ nl"

definition print_prog :: "u32 \<Rightarrow> inst_t list \<Rightarrow> string" where
  "print_prog pr tx =
    decimal (unat pr) @ '' '' @ decimal (length tx) @ nl @ concat (map print_inst tx)"

definition same_inst :: "inst_t \<Rightarrow> inst_t \<Rightarrow> bool" where
  "same_inst a b \<longleftrightarrow> opcode a = opcode b \<and> args_of a = args_of b"

lemma get_opcode_name [simp]: "get_opcode (opcode_name oc) = Inr oc"
  by (cases oc) (simp_all add: get_opcode_def)

lemma opcode_name_word:
  "opcode_name oc \<noteq> [] \<and> length (opcode_name oc) < 10 \<and> (\<forall>c \<in> set (opcode_name oc). \<not> is_space c)"
  by (cases oc) (simp_all add: is_space_def)

lemma length_args_of [simp]: "length (args_of ins) = arity (opcode ins)"
  by (cases "opcode ins") (simp_all add: args_of_def)

lemma no_digit_simps [simp]: "no_digit []" "no_digit (nl @ r)" "no_digit (print_args vs @ nl @ r)"
  "no_digit (print_args vs @ nl)"
  by (cases vs; simp add: no_digit_def nl_def print_args_def is_digit_def digits_def)+

lemma scan_list_print:
  "scan_list scan_u (length vs) (print_args vs @ nl @ r) = (vs, nl @ r)"
  "scan_list scan_d (length vs) (print_args vs @ nl) = (vs, nl)"
proof (induction vs)
  case (Cons v vs)
  have sp: "\<forall>c \<in> set '' ''. is_space c" by (simp add: is_space_def)
  have eq: "print_args (v # vs) = '' '' @ decimal (unat v) @ print_args vs" by (simp add: print_args_def)
  {
    case 1
    show ?case
      using Cons scan_conv(1) [OF no_digit_simps(3) sp, of v vs r] by (simp add: eq)
  next
    case 2
    show ?case
      using Cons scan_conv(2) [OF no_digit_simps(4) sp, of v vs] by (simp add: eq)
  }
qed (simp_all add: print_args_def)

lemma set_args_same:
  "same_inst (set_args (args_of ins) (j\<lparr>opcode := opcode ins\<rparr>)) ins"
  by (cases "opcode ins") (simp_all add: same_inst_def set_args_def args_of_def)

lemma scan_s_word:
  assumes "\<forall>c \<in> set ws. is_space c" and "w \<noteq> []" and "\<forall>c \<in> set w. \<not> is_space c"
    and "rest = [] \<or> is_space (hd rest)"
  shows "scan_s old (ws @ w @ rest) = (w, rest)"
proof -
  obtain c cs where c: "w = c # cs" "\<not> is_space c" using assms(2,3) by (cases w) auto
  have "skip_space (ws @ w @ rest) = w @ rest"
    using assms(1) c unfolding skip_space_def by (subst dropWhile_append2) auto
  moreover have "takeWhile (\<lambda>c. \<not> is_space c) rest = []" "dropWhile (\<lambda>c. \<not> is_space c) rest = rest"
    using assms(4) by (cases rest; simp)+
  ultimately show ?thesis
    using assms(2,3) by (simp add: scan_s_def Let_def takeWhile_append2 dropWhile_append2)
qed

lemma length_decimal: "n < 10 ^ Suc k \<Longrightarrow> length (decimal n) \<le> Suc k"
proof (induction k arbitrary: n)
  case 0
  then show ?case by (subst decimal_step) simp
next
  case (Suc k)
  show ?case
  proof (cases "n < 10")
    case True
    then show ?thesis by (subst decimal_step) simp
  next
    case False
    have "n div 10 < 10 ^ Suc k" using Suc.prems by (simp add: div_less_iff_less_mult)
    then show ?thesis using Suc.IH [of "n div 10"] False by (subst decimal_step) simp
  qed
qed

lemma length_print_args: "length (print_args vs) \<le> 11 * length vs"
proof (induction vs)
  case (Cons v vs)
  have "unat v < 2 ^ 32" using unsigned_less [of v, where 'a = nat] by simp
  then have "unat v < 10 ^ Suc 9" by simp
  then have "length (decimal (unat v)) \<le> Suc 9" by (rule length_decimal)
  then show ?case using Cons by (simp add: print_args_def)
qed (simp add: print_args_def)

lemma print_args_no_nl: "c \<in> set (print_args vs) \<Longrightarrow> c \<noteq> CHR 0x0A"
proof -
  assume "c \<in> set (print_args vs)"
  then have "c = CHR '' '' \<or> is_digit c" using decimal_ok by (auto simp: print_args_def split: if_splits)
  then show ?thesis by (auto simp: is_digit_def digits_def)
qed

lemma fgets_line:
  assumes "length vs \<le> 4"
  shows "fgets old 200 (print_args vs @ nl @ mr) = (print_args vs @ nl, mr)"
proof -
  have "takeWhile (\<lambda>c. c \<noteq> CHR 0x0A) (print_args vs @ nl @ mr) = print_args vs"
    using print_args_no_nl [of _ vs] by (subst takeWhile_append2) (auto simp: nl_def)
  then have "line_length (print_args vs @ nl @ mr) = length (print_args vs) + 1"
    by (simp add: line_length_def nl_def)
  moreover have "length (print_args vs) + 1 \<le> 199" using length_print_args [of vs] assms by simp
  ultimately show ?thesis by (simp add: fgets_def nl_def min_def Let_def)
qed

definition starts_word :: "string \<Rightarrow> bool" where
  "starts_word s \<longleftrightarrow> (case s of [] \<Rightarrow> True | c # _ \<Rightarrow> \<not> is_space c)"

lemma starts_word_insts: "starts_word (concat (map print_inst tx))"
proof (cases tx)
  case (Cons i t)
  obtain c cs where "opcode_name (opcode i) = c # cs" "\<not> is_space c"
    using opcode_name_word [of "opcode i"] by (cases "opcode_name (opcode i)") auto
  then show ?thesis by (simp add: Cons starts_word_def print_inst_def)
qed (simp add: starts_word_def)

lemma skip_nl: "starts_word mr \<Longrightarrow> skip_space (nl @ mr) = mr"
  by (cases mr) (simp_all add: starts_word_def skip_space_def nl_def is_space_def)

lemma load_args_print:
  assumes "starts_word mr" and "length vs = arity oc"
  shows "\<exists>buf' ws. load_args oc buf (print_args vs @ nl @ mr) = (vs, ws @ mr, buf') \<and> (\<forall>c \<in> set ws. is_space c)"
proof -
  have us: "scan_us_nl (arity oc) (print_args vs @ nl @ mr) = (vs, [] @ mr)"
    using scan_list_print(1) [of vs mr] skip_nl [OF assms(1)] assms(2) by (simp add: scan_us_nl_def)
  have nls: "\<forall>c \<in> set nl. is_space c" by (simp add: nl_def is_space_def)
  show ?thesis
  proof (cases oc)
    case CALC
    then show ?thesis using assms(2) nls by (auto simp: load_args_def print_args_def)
  next
    case SYSCALL
    then have "scan_list scan_d 4 (print_args vs @ nl) = (vs, nl)" "length vs \<le> 4"
      using scan_list_print(2) [of vs] assms(2) by simp_all
    then show ?thesis
      using SYSCALL fgets_line [of vs buf mr] by (auto simp: load_args_def intro!: exI [of _ "[]"])
  qed (use us in \<open>auto simp: load_args_def intro!: exI [of _ "[]"]\<close>)
qed

lemma load_loop_print:
  assumes "\<forall>c \<in> set ws. is_space c" and "length js = length tx"
  shows "\<exists>l. load_loop js opc buf (ws @ concat (map print_inst tx)) = Inr l \<and> list_all2 same_inst l tx"
  using assms
proof (induction tx arbitrary: js opc buf ws)
  case (Cons i tx)
  then obtain j js' where js: "js = j # js'" "length js' = length tx" by (cases js) auto
  let ?more = "concat (map print_inst tx)" and ?rest = "print_args (args_of i) @ nl @ concat (map print_inst tx)"
  have "?rest = [] \<or> is_space (hd ?rest)"
    by (cases "args_of i") (simp_all add: print_args_def nl_def is_space_def)
  then have s: "scan_s opc (ws @ opcode_name (opcode i) @ ?rest) = (opcode_name (opcode i), ?rest)"
    using opcode_name_word [of "opcode i"] Cons.prems(1) by (intro scan_s_word) auto
  obtain buf' ws' where a: "load_args (opcode i) buf ?rest = (args_of i, ws' @ ?more, buf')" "\<forall>c \<in> set ws'. is_space c"
    using load_args_print [OF starts_word_insts, of "args_of i" "opcode i" buf tx] by auto
  obtain l where l: "load_loop js' (opcode_name (opcode i)) buf' (ws' @ ?more) = Inr l" "list_all2 same_inst l tx"
    using Cons.IH [OF a(2) js(2)] by blast
  have "ws @ concat (map print_inst (i # tx)) = ws @ opcode_name (opcode i) @ ?rest"
    by (simp add: print_inst_def)
  then have "load_loop js opc buf (ws @ concat (map print_inst (i # tx))) =
      Inr (set_args (args_of i) (j\<lparr>opcode := opcode i\<rparr>) # l)"
    using s a(1) l(1) opcode_name_word [of "opcode i"] by (simp add: js(1))
  then show ?case using l(2) set_args_same by simp
qed simp

lemma load_print:
  assumes f: "fs pth = Some (print_prog pr tx)" and small: "length tx < 4294967296"
  shows "\<exists>b. load j fs next_pid pth = Inr (b, next_pid + 1) \<and> pid b = next_pid \<and> priority b = pr \<and> pc b = 0 \<and>
    path b = take 16 pth \<and> unat (code_size (pcb_code b)) = length tx \<and>
    list_all2 same_inst (code_text (pcb_code b)) tx"
proof -
  let ?n = "of_nat (length tx) :: u32" and ?insts = "concat (map print_inst tx)"
  have n: "unat ?n = length tx"
  proof -
    have "unat ?n = length tx mod 2 ^ 32" by (simp add: unat_of_nat)
    then show ?thesis using small by simp
  qed
  have sp: "\<forall>c \<in> set '' ''. is_space c" "\<forall>c \<in> set nl. is_space c" by (simp_all add: is_space_def nl_def)
  have "no_digit ('' '' @ decimal (unat ?n) @ nl @ ?insts)" by (simp add: no_digit_def is_digit_def digits_def)
  then have "scan_list scan_u 2 (print_prog pr tx) = ([pr, ?n], nl @ ?insts)"
    using scan_conv(1) [of _ "[]" pr] scan_conv(1) [OF no_digit_simps(2) sp(1), of ?n ?insts]
    by (simp add: print_prog_def n numeral_2_eq_2)
  moreover obtain l where "load_loop (map (j_text j) [0..<length tx]) (j_opcode j) (j_buf j) (nl @ ?insts) = Inr l"
    "list_all2 same_inst l tx"
    using load_loop_print [OF sp(2), of "map (j_text j) [0..<length tx]" tx] by auto
  ultimately show ?thesis
    using f n by (simp add: load_def)
qed

section \<open>Errors\<close>

lemma load_loop_length: "load_loop js opc buf inp = Inr l \<Longrightarrow> length l = length js"
proof (induction js arbitrary: opc buf inp l)
  case (Cons ins js)
  obtain opc' inp' where s: "scan_s opc inp = (opc', inp')" by fastforce
  obtain oc where o: "get_opcode opc' = Inr oc"
    using Cons.prems by (auto simp: s rbind_Inr_iff)
  obtain vs inp2 buf2 where a: "load_args oc buf inp' = (vs, inp2, buf2)" by (cases "load_args oc buf inp'")
  then show ?case
    using Cons.prems Cons.IH by (auto simp: s o a rbind_Inr_iff)
qed simp

lemma load_wf:
  assumes "load j fs n pth = Inr (b, n')"
  shows "pcb_wf b \<and> pc b = 0 \<and> pid b = n \<and> n' = n + 1"
  using assms
  by (cases "fs pth"; cases "scan_list scan_u 2 (the (fs pth))")
    (auto simp: load_def Let_def rbind_Inr_iff pcb_wf_def dest!: load_loop_length)

lemma load_no_file: "fs pth = None \<Longrightarrow> load j fs n pth = Inl (Exits 1)"
  by (simp add: load_def)

lemma load_bad_opcode:
  assumes "\<forall>c \<in> set w. \<not> is_space c" and "w \<noteq> []" and "length w < 10" and "get_opcode w = Inl e"
    and "rest = [] \<or> is_space (hd rest)"
  shows "load_loop (ins # tx) opc buf (w @ rest) = Inl (Exits 1)"
  using scan_s_word [of "[]" w rest opc] assms by (simp add: get_opcode_def split: if_splits)

end
