(* ===== verification/Timer.thy ===== *)
theory Timer
  imports Prelude
begin

text \<open>
  The timer (\<open>src/timer.c\<close>): a barrier between the timer thread and its devices (the CPUs
  and the loader).  Each step is one critical section of one thread; a condition wait is a
  step that is enabled once its condition holds.  The locale \<open>transition_system\<close> states
  what an invariant has to satisfy and is interpreted on the timer here and on the whole
  system in \<open>Os\<close>.
\<close>

section \<open>Transition systems\<close>

inductive reach :: "('s \<Rightarrow> bool) \<Rightarrow> ('s \<Rightarrow> 's \<Rightarrow> bool) \<Rightarrow> 's \<Rightarrow> bool"
  for init step where
    reach_init: "init s \<Longrightarrow> reach init step s"
  | reach_step: "reach init step s \<Longrightarrow> step s t \<Longrightarrow> reach init step t"

locale transition_system =
  fixes init :: "'s \<Rightarrow> bool"
    and step :: "'s \<Rightarrow> 's \<Rightarrow> bool"
    and inv :: "'s \<Rightarrow> bool"
  assumes inv_init: "init s \<Longrightarrow> inv s"
    and inv_step: "inv s \<Longrightarrow> step s t \<Longrightarrow> inv t"
begin

lemma inv_reach: "reach init step s \<Longrightarrow> inv s"
  by (induction rule: reach.induct) (auto intro: inv_init inv_step)

lemma reach_strengthen:
  assumes "\<And>s. init s \<Longrightarrow> P s" and "\<And>s t. inv s \<Longrightarrow> P s \<Longrightarrow> step s t \<Longrightarrow> P t"
    and "reach init step s"
  shows "P s"
  using assms(3)
proof (induction rule: reach.induct)
  case (reach_step s t)
  then show ?case using assms(2) inv_reach by blast
qed (rule assms(1))

end

section \<open>State\<close>

text \<open>
  A device thread works, or is in \<open>next_slot\<close> (it has set \<open>done\<close> and waits), or has
  detached.  The timer thread is at the head of its loop, in the collecting loop with the
  devices it has still to visit and the two counters, in the releasing loop, or stopped.
\<close>

datatype dev_pc = DWork | DWait | DExit

datatype timer_pc =
    TLoop
  | TCollect "nat list" nat nat
  | TRelease "nat list" nat nat
  | TStopped

text \<open>
  The last two fields are history: how often a device has entered \<open>next_slot\<close>, and how
  often the time slot was increased.
\<close>

record timer_sys =
  dev_list :: "nat list"
  t_done :: "nat \<Rightarrow> bool"
  t_fsh :: "nat \<Rightarrow> bool"
  d_pc :: "nat \<Rightarrow> dev_pc"
  t_pc :: timer_pc
  t_time :: u64
  timer_started :: bool
  timer_stop :: bool
  t_work :: "nat \<Rightarrow> nat"
  t_ticks :: nat

section \<open>Operations\<close>

definition current_time :: "timer_sys \<Rightarrow> u64" where
  "current_time s = t_time s"

text \<open>\<open>attach_event\<close> of device \<open>i\<close>; the result tells whether it was attached.\<close>

definition attach_event :: "nat \<Rightarrow> timer_sys \<Rightarrow> bool \<times> timer_sys" where
  "attach_event i s =
    (if timer_started s then (False, s)
     else (True, s\<lparr>t_done := (t_done s)(i := False), t_fsh := (t_fsh s)(i := False),
                   dev_list := i # dev_list s\<rparr>))"

definition start_timer :: "timer_sys \<Rightarrow> timer_sys" where
  "start_timer s = s\<lparr>timer_started := True, t_pc := TLoop\<rparr>"

text \<open>The two halves of \<open>next_slot\<close>, and \<open>detach_event\<close>.\<close>

definition next_slot_enter :: "nat \<Rightarrow> timer_sys \<Rightarrow> timer_sys" where
  "next_slot_enter i s = s\<lparr>t_done := (t_done s)(i := True), d_pc := (d_pc s)(i := DWait),
     t_work := (t_work s)(i := t_work s i + 1)\<rparr>"

definition next_slot_leave :: "nat \<Rightarrow> timer_sys \<Rightarrow> timer_sys" where
  "next_slot_leave i s = s\<lparr>d_pc := (d_pc s)(i := DWork)\<rparr>"

definition detach_event :: "nat \<Rightarrow> timer_sys \<Rightarrow> timer_sys" where
  "detach_event i s = s\<lparr>t_fsh := (t_fsh s)(i := True), d_pc := (d_pc s)(i := DExit)\<rparr>"

text \<open>The pieces of \<open>timer_routine\<close>.\<close>

definition timer_loop :: "timer_sys \<Rightarrow> timer_sys" where
  "timer_loop s = s\<lparr>t_pc := (if timer_stop s then TStopped else TCollect (dev_list s) 0 0)\<rparr>"

definition timer_visit :: "nat \<Rightarrow> nat list \<Rightarrow> nat \<Rightarrow> nat \<Rightarrow> timer_sys \<Rightarrow> timer_sys" where
  "timer_visit d rest fsh event s =
    s\<lparr>t_pc := TCollect rest (if t_fsh s d then fsh + 1 else fsh) (event + 1)\<rparr>"

definition timer_tick :: "nat \<Rightarrow> nat \<Rightarrow> timer_sys \<Rightarrow> timer_sys" where
  "timer_tick fsh event s =
    s\<lparr>t_time := t_time s + 1, t_pc := TRelease (dev_list s) fsh event, t_ticks := t_ticks s + 1\<rparr>"

definition timer_release :: "nat \<Rightarrow> nat list \<Rightarrow> nat \<Rightarrow> nat \<Rightarrow> timer_sys \<Rightarrow> timer_sys" where
  "timer_release d rest fsh event s =
    s\<lparr>t_done := (t_done s)(d := False), t_pc := TRelease rest fsh event\<rparr>"

definition timer_round_end :: "nat \<Rightarrow> nat \<Rightarrow> timer_sys \<Rightarrow> timer_sys" where
  "timer_round_end fsh event s = s\<lparr>t_pc := (if fsh = event then TStopped else TLoop)\<rparr>"

definition stop_timer :: "timer_sys \<Rightarrow> timer_sys" where
  "stop_timer s = s\<lparr>timer_stop := True\<rparr>"

inductive tstep :: "timer_sys \<Rightarrow> timer_sys \<Rightarrow> bool" where
  enter: "i \<in> set (dev_list s) \<Longrightarrow> d_pc s i = DWork \<Longrightarrow> tstep s (next_slot_enter i s)"
| leave: "i \<in> set (dev_list s) \<Longrightarrow> d_pc s i = DWait \<Longrightarrow> \<not> t_done s i \<Longrightarrow> tstep s (next_slot_leave i s)"
| detach: "i \<in> set (dev_list s) \<Longrightarrow> d_pc s i = DWork \<Longrightarrow> tstep s (detach_event i s)"
| head: "t_pc s = TLoop \<Longrightarrow> tstep s (timer_loop s)"
| visit: "t_pc s = TCollect (d # rest) f e \<Longrightarrow> t_done s d \<or> t_fsh s d \<Longrightarrow> tstep s (timer_visit d rest f e s)"
| tick: "t_pc s = TCollect [] f e \<Longrightarrow> tstep s (timer_tick f e s)"
| release: "t_pc s = TRelease (d # rest) f e \<Longrightarrow> tstep s (timer_release d rest f e s)"
| round_end: "t_pc s = TRelease [] f e \<Longrightarrow> tstep s (timer_round_end f e s)"
| stop: "\<forall>i \<in> set (dev_list s). d_pc s i = DExit \<Longrightarrow> tstep s (stop_timer s)"

inductive_cases tstepE: "tstep s t"

text \<open>\<open>main\<close> attaches the devices and starts the timer.\<close>

definition no_timer :: timer_sys where
  "no_timer = \<lparr>dev_list = [], t_done = (\<lambda>_. False), t_fsh = (\<lambda>_. False), d_pc = (\<lambda>_. DWork), t_pc = TLoop,
     t_time = 0, timer_started = False, timer_stop = False, t_work = (\<lambda>_. 0), t_ticks = 0\<rparr>"

fun attach_all :: "nat list \<Rightarrow> timer_sys \<Rightarrow> timer_sys" where
  "attach_all [] s = s"
| "attach_all (i # is) s = attach_all is (snd (attach_event i s))"

definition tinit :: "nat list \<Rightarrow> timer_sys \<Rightarrow> bool" where
  "tinit devs s \<longleftrightarrow> distinct devs \<and> s = start_timer (attach_all devs no_timer)"

section \<open>The barrier invariant\<close>

text \<open>The devices that the timer has yet to release in this round.\<close>

fun pending :: "timer_pc \<Rightarrow> nat set" where
  "pending (TRelease rest f e) = set rest"
| "pending _ = {}"

text \<open>The devices the timer has visited in this round.\<close>

fun visited :: "timer_pc \<Rightarrow> nat list \<Rightarrow> nat set" where
  "visited (TCollect rest f e) devs = set devs - set rest"
| "visited _ devs = {}"

text \<open>When the counters agree, every device counted so far has finished.\<close>

fun all_finished :: "timer_pc \<Rightarrow> timer_sys \<Rightarrow> bool" where
  "all_finished (TCollect rest f e) s \<longleftrightarrow>
    (\<exists>pre. dev_list s = pre @ rest \<and> f \<le> e \<and> (f = e \<longrightarrow> (\<forall>i \<in> set pre. t_fsh s i)))"
| "all_finished (TRelease rest f e) s \<longleftrightarrow> (f = e \<longrightarrow> (\<forall>i \<in> set (dev_list s). t_fsh s i)) \<and>
    (\<exists>pre. dev_list s = pre @ rest)"
| "all_finished TLoop s \<longleftrightarrow> True"
| "all_finished TStopped s \<longleftrightarrow> (\<forall>i \<in> set (dev_list s). t_fsh s i)"

definition tinv :: "timer_sys \<Rightarrow> bool" where
  "tinv s \<longleftrightarrow>
    distinct (dev_list s) \<and>
    (\<forall>i \<in> set (dev_list s). d_pc s i = DWork \<longrightarrow> \<not> t_done s i) \<and>
    (\<forall>i \<in> set (dev_list s). t_fsh s i \<longleftrightarrow> d_pc s i = DExit) \<and>
    (\<forall>i \<in> visited (t_pc s) (dev_list s) \<union> pending (t_pc s). t_done s i \<or> t_fsh s i) \<and>
    (\<forall>i \<in> set (dev_list s). \<not> t_fsh s i \<longrightarrow>
       t_work s i = t_ticks s + (if t_done s i \<and> i \<notin> pending (t_pc s) then 1 else 0)) \<and>
    all_finished (t_pc s) s \<and>
    (timer_stop s \<longrightarrow> (\<forall>i \<in> set (dev_list s). t_fsh s i)) \<and>
    t_time s = of_nat (t_ticks s)"

lemma attach_all_simps:
  "\<not> timer_started s \<Longrightarrow> attach_all devs s = s\<lparr>dev_list := rev devs @ dev_list s,
     t_done := (\<lambda>i. if i \<in> set devs then False else t_done s i),
     t_fsh := (\<lambda>i. if i \<in> set devs then False else t_fsh s i)\<rparr>"
  by (induction devs arbitrary: s) (auto simp: attach_event_def fun_eq_iff)

lemma tinit_eq:
  "tinit devs s \<longleftrightarrow> distinct devs \<and> s = no_timer\<lparr>dev_list := rev devs, timer_started := True\<rparr>"
  by (simp add: tinit_def attach_all_simps no_timer_def start_timer_def)

lemma tinv_init: "tinit devs s \<Longrightarrow> tinv s"
  by (simp add: tinit_eq tinv_def no_timer_def)

section \<open>Every step keeps it\<close>

lemma pending_devs: "all_finished (t_pc s) s \<Longrightarrow> pending (t_pc s) \<subseteq> set (dev_list s)"
  by (cases "t_pc s") auto

lemma tinv_enter:
  assumes "tinv s" "i \<in> set (dev_list s)" "d_pc s i = DWork"
  shows "tinv (next_slot_enter i s)"
proof -
  have "i \<notin> pending (t_pc s)" using assms by (auto simp: tinv_def)
  moreover have "\<not> t_done s i" "\<not> t_fsh s i" using assms by (auto simp: tinv_def)
  moreover have "all_finished (t_pc s) (next_slot_enter i s)"
    using assms(1) by (cases "t_pc s") (auto simp: tinv_def next_slot_enter_def)
  ultimately show ?thesis
    using assms unfolding tinv_def next_slot_enter_def by auto
qed

lemma tinv_leave:
  assumes "tinv s" "i \<in> set (dev_list s)" "d_pc s i = DWait" "\<not> t_done s i"
  shows "tinv (next_slot_leave i s)"
proof -
  have "all_finished (t_pc s) (next_slot_leave i s)"
    using assms(1) by (cases "t_pc s") (auto simp: tinv_def next_slot_leave_def)
  then show ?thesis
    using assms unfolding tinv_def next_slot_leave_def by auto
qed

lemma tinv_detach:
  assumes "tinv s" "i \<in> set (dev_list s)" "d_pc s i = DWork"
  shows "tinv (detach_event i s)"
proof -
  have "all_finished (t_pc s) (detach_event i s)"
    using assms(1) by (cases "t_pc s") (auto simp: tinv_def detach_event_def)
  then show ?thesis
    using assms unfolding tinv_def detach_event_def by auto
qed

lemma tinv_head: "tinv s \<Longrightarrow> t_pc s = TLoop \<Longrightarrow> tinv (timer_loop s)"
  by (auto simp: tinv_def timer_loop_def)

lemma tinv_visit:
  assumes inv: "tinv s" and pc: "t_pc s = TCollect (d # rest) f e" and d: "t_done s d \<or> t_fsh s d"
  shows "tinv (timer_visit d rest f e s)"
proof -
  obtain pre where pre: "dev_list s = pre @ d # rest" "f \<le> e" "f = e \<longrightarrow> (\<forall>i \<in> set pre. t_fsh s i)"
    using inv pc by (auto simp: tinv_def)
  have "all_finished (t_pc (timer_visit d rest f e s)) (timer_visit d rest f e s)"
    using pre by (auto simp: timer_visit_def intro!: exI [of _ "pre @ [d]"])
  then show ?thesis
    using inv pc d unfolding tinv_def timer_visit_def by auto
qed

lemma tinv_tick:
  assumes inv: "tinv s" and pc: "t_pc s = TCollect [] f e"
  shows "tinv (timer_tick f e s)"
proof -
  have d: "\<forall>i \<in> set (dev_list s). t_done s i \<or> t_fsh s i"
    using inv pc by (auto simp: tinv_def)
  moreover have "f = e \<longrightarrow> (\<forall>i \<in> set (dev_list s). t_fsh s i)"
    using inv pc by (auto simp: tinv_def)
  ultimately show ?thesis
    using inv pc unfolding tinv_def timer_tick_def by auto
qed

lemma tinv_release:
  assumes inv: "tinv s" and pc: "t_pc s = TRelease (d # rest) f e"
  shows "tinv (timer_release d rest f e s)"
proof -
  obtain pre where pre: "dev_list s = pre @ d # rest" using inv pc by (auto simp: tinv_def)
  then have "d \<notin> set rest" using inv by (auto simp: tinv_def)
  moreover have "all_finished (TRelease rest f e) (timer_release d rest f e s)"
    using inv pc pre by (auto simp: tinv_def timer_release_def intro!: exI [of _ "pre @ [d]"])
  ultimately show ?thesis
    using inv pc unfolding tinv_def timer_release_def by auto
qed

lemma tinv_round_end: "tinv s \<Longrightarrow> t_pc s = TRelease [] f e \<Longrightarrow> tinv (timer_round_end f e s)"
  by (auto simp: tinv_def timer_round_end_def)

lemma tinv_stop:
  assumes "tinv s" "\<forall>i \<in> set (dev_list s). d_pc s i = DExit"
  shows "tinv (stop_timer s)"
proof -
  have "all_finished (t_pc s) (stop_timer s)"
    using assms(1) by (cases "t_pc s") (auto simp: tinv_def stop_timer_def)
  then show ?thesis
    using assms unfolding tinv_def stop_timer_def by auto
qed

lemmas tinv_steps = tinv_enter tinv_leave tinv_detach tinv_head tinv_visit tinv_tick tinv_release
  tinv_round_end tinv_stop

lemma tinv_step: "tinv s \<Longrightarrow> tstep s t \<Longrightarrow> tinv t"
  by (erule tstepE) (auto intro: tinv_steps)

interpretation timer: transition_system "tinit devs" tstep tinv for devs
  by unfold_locales (auto intro: tinv_init tinv_step)

section \<open>What it gives\<close>

lemma timer_sync:
  assumes "reach (tinit devs) tstep s" and "i \<in> set (dev_list s)" and "d_pc s i = DWork"
  shows "t_work s i = t_ticks s"
proof -
  have "tinv s" by (rule timer.inv_reach [OF assms(1)])
  then show ?thesis using assms(2,3) unfolding tinv_def by fastforce
qed

lemma timer_barrier:
  assumes "reach (tinit devs) tstep s" and "i \<in> set (dev_list s)" and "j \<in> set (dev_list s)"
    and "\<not> t_fsh s i" and "\<not> t_fsh s j"
  shows "t_work s i \<le> t_work s j + 1"
proof -
  have "tinv s" by (rule timer.inv_reach [OF assms(1)])
  then show ?thesis using assms(2-5) unfolding tinv_def by auto
qed

lemma timer_stops_last:
  assumes "reach (tinit devs) tstep s" and "t_pc s = TStopped" and "i \<in> set (dev_list s)"
  shows "t_fsh s i \<and> d_pc s i = DExit"
proof -
  have "tinv s" by (rule timer.inv_reach [OF assms(1)])
  then show ?thesis using assms(2,3) unfolding tinv_def by auto
qed

text \<open>
  Some thread can always go on until the timer has stopped, whatever the devices that
  work do: when none of them moves, the timer or a released device does.
\<close>

lemma timer_no_deadlock:
  assumes "reach (tinit devs) tstep s" and "t_pc s \<noteq> TStopped"
  shows "\<exists>t. tstep s t"
proof -
  have inv: "tinv s" by (rule timer.inv_reach [OF assms(1)])
  show ?thesis
  proof (cases "t_pc s")
    case (TCollect rest f e)
    show ?thesis
    proof (cases rest)
      case Nil
      then show ?thesis using TCollect tstep.tick by blast
    next
      case (Cons d rest')
      then have d: "d \<in> set (dev_list s)" using inv TCollect by (auto simp: tinv_def)
      show ?thesis
      proof (cases "t_done s d \<or> t_fsh s d")
        case True
        then show ?thesis using TCollect Cons tstep.visit by blast
      next
        case False
        then have "d_pc s d \<noteq> DExit" using inv d by (auto simp: tinv_def)
        then show ?thesis
          using False d tstep.enter tstep.leave by (cases "d_pc s d") blast+
      qed
    qed
  next
    case (TRelease rest f e)
    then show ?thesis using tstep.release tstep.round_end by (cases rest) blast+
  qed (use assms(2) tstep.head in blast)+
qed

end
