(* ===== verification/Ownership.thy ===== *)
theory Ownership
  imports Loader Timer
begin

text \<open>
  How a running process may change what the scheduler owns: only \<open>killall\<close> touches the
  ready queues, it removes from them what it frees, and every other block stays with the
  fields the scheduler relies on.  The relation \<open>kill_rel\<close> between the kernels before and
  after an instruction states this; it is what the system invariant of \<open>Os\<close> needs.
\<close>

section \<open>Taking one entry from a queue\<close>

lemma dequeue_mset:
  assumes "q_wf q" and "q_live h q" and "dequeue h q = Inr (Some t, q')"
  shows "mset (q_list q) = add_mset t (mset (q_list q'))" and "q_wf q'" and "q_live h q'"
    and "q_size q' < MAX_QUEUE_SIZE" and "h t \<noteq> None"
proof -
  have g: "q_get h q = Some (t, q')" using assms(3) by (simp add: q_get_def)
  show m: "mset (q_list q) = add_mset t (mset (q_list q'))"
    using pq.get_mset [OF _ g] assms(1,2) by blast
  show "q_wf q'" "q_live h q'" using pq.get_Some [OF _ g] assms(1,2) by blast+
  have "length (q_list q) = Suc (length (q_list q'))" using m by (metis size_add_mset size_mset)
  then show "q_size q' < MAX_QUEUE_SIZE" using assms(1) by (simp add: q_wf_def)
  have "t \<in> set (q_list q)" using m by (metis set_mset_mset union_single_eq_member)
  then show "h t \<noteq> None" using assms(2) by (auto simp: q_live_def)
qed

lemma dequeue_nothing: "q_wf q \<Longrightarrow> q_live h q \<Longrightarrow> dequeue h q = Inr (None, q') \<Longrightarrow> q' = q"
  using dequeue_ok [of q h] by (cases "q_size q = 0") auto

lemma ready_upd_level:
  assumes "k < MAX_PRIO"
  shows "ready (s\<lparr>mlq_ready_queue := (mlq_ready_queue s)(k := q)\<rparr>) + mset (level s k) = ready s + mset (q_list q)"
  using ready_upd [OF assms, where s = s and q = q and cp = "curr_prio s" and cs = "curr_slot s"] by simp

lemma in_ready: "p \<in># ready s \<longleftrightarrow> (\<exists>k < MAX_PRIO. p \<in> set (level s k))"
  by (auto simp: ready_def set_mset_sum)

lemma ready_empty: "ready s = {#} \<longleftrightarrow> (\<forall>k < MAX_PRIO. level s k = [])"
proof
  assume e: "ready s = {#}"
  show "\<forall>k < MAX_PRIO. level s k = []"
  proof (intro allI impI)
    fix k assume "k < MAX_PRIO"
    then show "level s k = []" using in_ready [of "hd (level s k)" s] e by (cases "level s k") auto
  qed
qed (simp add: ready_def)

section \<open>The relation\<close>

definition keeps_links :: "pcb_t \<Rightarrow> pcb_t \<Rightarrow> bool" where
  "keeps_links b b' \<longleftrightarrow> pid b' = pid b \<and> prio b' = prio b \<and> p_running_list b' = p_running_list b \<and>
    p_mlq_ready_queue b' = p_mlq_ready_queue b"

definition unique_ready :: "sched_t \<Rightarrow> bool" where
  "unique_ready s \<longleftrightarrow> (\<forall>p. count (ready s) p \<le> 1)"

definition sched_ok :: "kernel \<Rightarrow> bool" where
  "sched_ok k \<longleftrightarrow> sched_wf (k_sched k) \<and> sched_live (k_heap k) (k_sched k) \<and> unique_ready (k_sched k)"

definition kill_rel :: "kernel \<Rightarrow> kernel \<Rightarrow> bool" where
  "kill_rel k k' \<longleftrightarrow> avail_pid k' = avail_pid k \<and> (sched_ok k \<longrightarrow> sched_ok k' \<and> ready (k_sched k') \<subseteq># ready (k_sched k) \<and>
    (\<forall>p b. k_heap k p = Some b \<longrightarrow> (p \<in># ready (k_sched k) \<longrightarrow> p \<in># ready (k_sched k')) \<longrightarrow>
       (\<exists>b'. k_heap k' p = Some b' \<and> keeps_links b b')) \<and>
    (\<forall>p. k_heap k' p \<noteq> None \<longrightarrow> k_heap k p \<noteq> None \<and> (p \<in># ready (k_sched k) \<longrightarrow> p \<in># ready (k_sched k'))))"

lemma keeps_links_refl [simp]: "keeps_links b b"
  by (simp add: keeps_links_def)

lemma keeps_links_trans: "keeps_links a b \<Longrightarrow> keeps_links b c \<Longrightarrow> keeps_links a c"
  by (simp add: keeps_links_def)

lemma kill_rel_refl [simp]: "kill_rel k k"
  by (simp add: kill_rel_def)

lemma kill_relD:
  assumes "kill_rel k k'" and "sched_ok k"
  shows "sched_ok k'" and "ready (k_sched k') \<subseteq># ready (k_sched k)"
    and "k_heap k p = Some b \<Longrightarrow> (p \<in># ready (k_sched k) \<Longrightarrow> p \<in># ready (k_sched k')) \<Longrightarrow>
      \<exists>b'. k_heap k' p = Some b' \<and> keeps_links b b'"
    and "k_heap k' p \<noteq> None \<Longrightarrow> k_heap k p \<noteq> None \<and> (p \<in># ready (k_sched k) \<longrightarrow> p \<in># ready (k_sched k'))"
  using assms unfolding kill_rel_def by blast+

lemma kill_rel_trans:
  assumes r1: "kill_rel k1 k2" and r2: "kill_rel k2 k3"
  shows "kill_rel k1 k3"
  unfolding kill_rel_def
proof (intro impI conjI allI)
  show "avail_pid k3 = avail_pid k1" using r1 r2 by (simp add: kill_rel_def)
next
  assume ok: "sched_ok k1"
  note 2 = kill_relD [OF r1 ok]
  note 3 = kill_relD [OF r2 2(1)]
  show "sched_ok k3" "ready (k_sched k3) \<subseteq># ready (k_sched k1)"
    using 2(2) 3(1,2) subset_mset.order_trans by blast+
  show "\<exists>b'. k_heap k3 p = Some b' \<and> keeps_links b b'"
    if b: "k_heap k1 p = Some b" "p \<in># ready (k_sched k1) \<longrightarrow> p \<in># ready (k_sched k3)" for p b
  proof -
    have "p \<in># ready (k_sched k1) \<Longrightarrow> p \<in># ready (k_sched k2)"
      using b(2) 3(2) by (meson mset_subset_eqD)
    then obtain b' where b': "k_heap k2 p = Some b'" "keeps_links b b'" using 2(3) b(1) by blast
    have "p \<in># ready (k_sched k2) \<Longrightarrow> p \<in># ready (k_sched k3)"
      using b(2) 2(2) by (meson mset_subset_eqD)
    then show ?thesis using 3(3) b' keeps_links_trans by blast
  qed
  show "p \<in># ready (k_sched k3)"
    if "k_heap k3 p \<noteq> None" "p \<in># ready (k_sched k1)" for p
    using that 2(4) 3(4) by blast+
  show "k_heap k1 p \<noteq> None" if "k_heap k3 p \<noteq> None" for p
    using that 2(4) 3(4) by blast
qed

text \<open>Changes that leave the ready queues alone.\<close>

lemma kill_rel_same_ready:
  assumes "mlq_ready_queue (k_sched k') = mlq_ready_queue (k_sched k)" "slot (k_sched k') = slot (k_sched k)"
    and "queue_lock (k_sched k') = queue_lock (k_sched k)"
    and "q_wf (running_list (k_sched k)) \<Longrightarrow> q_wf (running_list (k_sched k'))"
    and "\<And>p b. k_heap k p = Some b \<Longrightarrow> \<exists>b'. k_heap k' p = Some b' \<and> keeps_links b b'"
    and "\<And>p. k_heap k' p \<noteq> None \<Longrightarrow> k_heap k p \<noteq> None" and "avail_pid k' = avail_pid k"
  shows "kill_rel k k'"
proof -
  have lv: "level (k_sched k') = level (k_sched k)" using assms(1) by (simp add: level_def fun_eq_iff)
  then have r: "ready (k_sched k') = ready (k_sched k)" by (simp add: ready_def)
  have "sched_ok k'" if "sched_ok k"
    using that assms(1-4) r assms(5)
    by (fastforce simp: sched_ok_def sched_wf_def sched_live_def q_live_def unique_ready_def)
  then show ?thesis using r assms(5-7) by (simp add: kill_rel_def)
qed

lemma kill_rel_on_ctx:
  assumes "on_ctx k t f = Inr (x, k')"
  shows "kill_rel k k'"
proof -
  obtain b c where "k_heap k t = Some b" "k' = put_ctx k t b c"
    using assms by (auto simp: on_ctx_def rbind_Inr_iff pcb_at_Inr)
  then show ?thesis
    by (intro kill_rel_same_ready) (auto simp: put_ctx_def keeps_links_def split: if_splits)
qed

section \<open>killall\<close>

lemma kill_rel_running:
  "kill_running n RunningList caller name m k = Inr (x, k') \<Longrightarrow> kill_rel k k'"
proof (induction n arbitrary: k m)
  case (Suc n)
  let ?put = "\<lambda>q. put_queue RunningList q k"
  obtain target q where d: "dequeue (k_heap k) (get_queue RunningList k) = Inr (target, q)"
    using Suc.prems by (auto simp: rbind_Inr_iff)
  have wf: "q_wf (running_list (k_sched k)) \<Longrightarrow> q_wf q"
    using q_wf_dequeue [OF _ d] by (simp add: get_queue_def)
  have rel: "kill_rel k (?put q')" if "q_wf (running_list (k_sched k)) \<Longrightarrow> q_wf q'" for q'
    using that by (intro kill_rel_same_ready) (auto simp: put_queue_def)
  show ?case
  proof (cases target)
    case None
    then have "kill_running n RunningList caller name m (?put q) = Inr (x, k')"
      using Suc.prems d by (simp add: Let_def)
    then show ?thesis using Suc.IH rel [OF wf] kill_rel_trans by blast
  next
    case (Some t)
    obtain b where b: "k_heap k t = Some b"
      using Suc.prems d Some by (auto simp: rbind_Inr_iff pcb_at_Inr Let_def)
    let ?kill = "(?put q)\<lparr>k_heap := (k_heap k)(t \<mapsto> b\<lparr>pc := code_size (pcb_code b)\<rparr>)\<rparr>"
    have "kill_rel k (?put (enqueue q (Some t)))" using wf q_wf_enqueue by (intro rel) blast
    moreover have "kill_rel k ?kill"
      using b wf by (intro kill_rel_same_ready) (auto simp: put_queue_def keeps_links_def split: if_splits)
    moreover have "kill_running n RunningList caller name m (?put (enqueue q (Some t))) = Inr (x, k') \<or>
        kill_running n RunningList caller name (m + 1) ?kill = Inr (x, k')"
      using Suc.prems d Some b by (auto simp: Let_def split: if_splits)
    ultimately show ?thesis using Suc.IH kill_rel_trans by blast
  qed
qed simp

text \<open>One round on level 0: the entry is put back, or freed.\<close>

lemma level0_put_back:
  assumes "dequeue (k_heap k) (get_queue MlqReadyQueue k) = Inr (Some t, q)"
  shows "kill_rel k (put_queue MlqReadyQueue (enqueue q (Some t)) k)"
  unfolding kill_rel_def
proof (rule conjI [OF _ impI])
  show "avail_pid (put_queue MlqReadyQueue (enqueue q (Some t)) k) = avail_pid k" by (simp add: put_queue_def)
next
  assume ok: "sched_ok k"
  let ?s = "k_sched k" and ?q = "enqueue q (Some t)"
  let ?k = "put_queue MlqReadyQueue ?q k"
  have q0: "q_wf (mlq_ready_queue ?s 0)" "q_live (k_heap k) (mlq_ready_queue ?s 0)"
    using ok by (simp_all add: sched_ok_def sched_wf_def sched_live_def MAX_PRIO_def)
  note d = dequeue_mset [OF q0, of t q] assms [unfolded get_queue_def, simplified]
  have l: "q_list ?q = q_list q @ [t]" using d by (simp add: q_list_enqueue)
  have "mset (q_list ?q) = mset (level ?s 0)" using d l by (simp add: level_def)
  then have r: "ready (k_sched ?k) = ready ?s"
    using ready_upd_level [of 0 ?s ?q] by (simp add: put_queue_def MAX_PRIO_def)
  have "q_wf ?q" "q_live (k_heap k) ?q"
    using d l by (auto simp: q_wf_enqueue q_live_def)
  then have "sched_ok ?k"
    using ok r by (auto simp: sched_ok_def sched_wf_def sched_live_def unique_ready_def put_queue_def)
  then show "sched_ok ?k \<and> ready (k_sched ?k) \<subseteq># ready ?s \<and>
    (\<forall>p b. k_heap k p = Some b \<longrightarrow> (p \<in># ready ?s \<longrightarrow> p \<in># ready (k_sched ?k)) \<longrightarrow>
       (\<exists>b'. k_heap ?k p = Some b' \<and> keeps_links b b')) \<and>
    (\<forall>p. k_heap ?k p \<noteq> None \<longrightarrow> k_heap k p \<noteq> None \<and> (p \<in># ready ?s \<longrightarrow> p \<in># ready (k_sched ?k)))"
    using r by simp
qed

lemma level0_free:
  assumes d: "dequeue (k_heap k) (get_queue MlqReadyQueue k) = Inr (Some t, q)"
    and c: "on_ctx (put_queue MlqReadyQueue q k) t f = Inr (x, k1)"
  shows "kill_rel k (free_pcb t k1)"
  unfolding kill_rel_def
proof (rule conjI [OF _ impI])
  show "avail_pid (free_pcb t k1) = avail_pid k"
    using c by (auto simp: on_ctx_def rbind_Inr_iff put_ctx_def put_queue_def free_pcb_def)
next
  assume ok: "sched_ok k"
  let ?s = "k_sched k" and ?k = "free_pcb t k1"
  have q0: "q_wf (mlq_ready_queue ?s 0)" "q_live (k_heap k) (mlq_ready_queue ?s 0)"
    using ok by (simp_all add: sched_ok_def sched_wf_def sched_live_def MAX_PRIO_def)
  note m = dequeue_mset [OF q0 d [unfolded get_queue_def, simplified]]
  have s1: "k_sched ?k = ?s\<lparr>mlq_ready_queue := (mlq_ready_queue ?s)(0 := q)\<rparr>"
    and h1: "\<And>p. p \<noteq> t \<Longrightarrow> k_heap ?k p = k_heap k p" "k_heap ?k t = None"
    using on_ctx_keeps(2,3) [OF c] by (auto simp: free_pcb_def put_queue_def)
  have "ready (k_sched ?k) + mset (level ?s 0) = ready ?s + mset (q_list q)"
    using ready_upd_level [of 0 ?s q] by (simp add: s1 MAX_PRIO_def)
  then have r: "ready ?s = add_mset t (ready (k_sched ?k))"
    using m(1) by (simp add: level_def)
  then have t: "t \<notin># ready (k_sched ?k)"
    using ok by (auto simp: sched_ok_def unique_ready_def not_in_iff dest!: spec [of _ t])
  have "q_live (k_heap ?k) (mlq_ready_queue (k_sched ?k) j)" if "j < MAX_PRIO" for j
  proof -
    have "h \<noteq> t" if "h \<in> set (q_list (mlq_ready_queue (k_sched ?k) j))" for h
      using that t \<open>j < MAX_PRIO\<close> by (auto simp: in_ready level_def)
    moreover have "q_live (k_heap k) (mlq_ready_queue (k_sched ?k) j)"
      using that ok m(3) by (simp add: s1 sched_ok_def sched_live_def)
    ultimately show ?thesis using h1(1) by (simp add: q_live_def)
  qed
  moreover have "sched_wf (k_sched ?k)" using ok m(2) by (simp add: s1 sched_ok_def sched_wf_def)
  moreover have "unique_ready (k_sched ?k)"
  proof -
    have "count (ready (k_sched ?k)) p \<le> count (ready ?s) p" for p using r by simp
    then show ?thesis using ok le_trans unfolding sched_ok_def unique_ready_def by blast
  qed
  ultimately have "sched_ok ?k" by (simp add: sched_ok_def sched_live_def)
  then show "sched_ok ?k \<and> ready (k_sched ?k) \<subseteq># ready ?s \<and>
    (\<forall>p b. k_heap k p = Some b \<longrightarrow> (p \<in># ready ?s \<longrightarrow> p \<in># ready (k_sched ?k)) \<longrightarrow>
       (\<exists>b'. k_heap ?k p = Some b' \<and> keeps_links b b')) \<and>
    (\<forall>p. k_heap ?k p \<noteq> None \<longrightarrow> k_heap k p \<noteq> None \<and> (p \<in># ready ?s \<longrightarrow> p \<in># ready (k_sched ?k)))"
    using r t h1 by (auto simp: subset_mset.add_increasing2) (metis option.distinct(1))+
qed

lemma kill_rel_ready:
  "kill_ready n MlqReadyQueue caller memrg name m k = Inr (x, k') \<Longrightarrow> sched_ok k \<Longrightarrow> kill_rel k k'"
proof (induction n arbitrary: k m)
  case (Suc n)
  have ok: "q_wf (get_queue MlqReadyQueue k)" "q_live (k_heap k) (get_queue MlqReadyQueue k)"
    using Suc.prems(2) by (simp_all add: get_queue_def sched_ok_def sched_wf_def sched_live_def MAX_PRIO_def)
  have step: "kill_rel k k'"
    if "kill_rel k k2" "kill_ready n MlqReadyQueue caller memrg name j k2 = Inr (x, k')" for k2 j
  proof -
    have "sched_ok k2" using that(1) Suc.prems(2) by (simp add: kill_rel_def)
    then show ?thesis using Suc.IH [OF that(2)] that(1) kill_rel_trans by blast
  qed
  obtain target q where d: "dequeue (k_heap k) (get_queue MlqReadyQueue k) = Inr (target, q)"
    using Suc.prems by (auto simp: rbind_Inr_iff)
  show ?case
  proof (cases target)
    case None
    then have "put_queue MlqReadyQueue q k = k"
      using dequeue_nothing [OF ok] d by (simp add: put_queue_def get_queue_def)
    then show ?thesis using Suc None d by (simp add: Let_def)
  next
    case (Some t)
    obtain b where b: "k_heap k t = Some b"
      using Suc.prems d Some by (auto simp: rbind_Inr_iff pcb_at_Inr Let_def)
    consider "kill_ready n MlqReadyQueue caller memrg name m (put_queue MlqReadyQueue (enqueue q (Some t)) k) = Inr (x, k')"
      | y k1 where "on_ctx (put_queue MlqReadyQueue q k) t (\<lambda>c. libfree c memrg) = Inr (y, k1)"
        "kill_ready n MlqReadyQueue caller memrg name (m + 1) (free_pcb t k1) = Inr (x, k')"
    proof (cases "pid b = 0 \<or> t = caller \<or> path b \<noteq> name")
      case True
      then show ?thesis using Suc.prems d Some b that(1) by (auto simp: Let_def split: if_splits)
    next
      case False
      then show ?thesis using Suc.prems d Some b that(2) by (auto simp: Let_def rbind_Inr_iff)
    qed
    then show ?thesis
    proof cases
      case 1
      have "kill_rel k (put_queue MlqReadyQueue (enqueue q (Some t)) k)"
        by (rule level0_put_back) (simp add: d Some)
      then show ?thesis using step 1 by blast
    next
      case 2
      have "kill_rel k (free_pcb t k1)"
        by (rule level0_free [OF _ 2(1)]) (simp add: d Some)
      then show ?thesis using step 2(2) by blast
    qed
  qed
qed simp

text \<open>The PCB of a process that was handed to the scheduler.\<close>

definition linked :: "pcb_t \<Rightarrow> bool" where
  "linked b \<longleftrightarrow> p_running_list b = Some RunningList \<and> p_mlq_ready_queue b = Some MlqReadyQueue"

lemma kill_rel_run:
  assumes run: "run u k p = Inr (x, k')" and b: "k_heap k p = Some b" "linked b" and ok: "sched_ok k"
    and np: "p \<notin># ready (k_sched k)"
  shows "kill_rel k k'"
proof (cases "code_size (pcb_code b) \<le> pc b")
  case True
  then show ?thesis using run b by (simp add: run_def)
next
  case False
  let ?k = "k\<lparr>k_heap := (k_heap k)(p \<mapsto> b\<lparr>pc := pc b + 1\<rparr>)\<rparr>"
  obtain ins where ins: "exec u ?k p ins = Inr (x, k')"
    using run b False by (auto simp: run_def rbind_Inr_iff)
  have rel: "kill_rel k ?k"
    using b(1) by (intro kill_rel_same_ready) (auto simp: keeps_links_def split: if_splits)
  then have ok': "sched_ok ?k" using ok by (simp add: kill_rel_def)
  have "kill_rel ?k k'"
  proof (cases "opcode ins = SYSCALL \<and> arg_0 ins = 101")
    case True
    let ?r = "arg_1 ins"
    obtain bytes k1 name b1 rq mq n1 k2 n2 k3 y where s:
      "on_ctx ?k p (name_loop u ?r 0 []) = Inr (bytes, k1)" "k_heap k1 p = Some b1"
      "p_running_list b1 = Some rq" "p_mlq_ready_queue b1 = Some mq"
      "kill_running (q_size (get_queue rq k1)) rq p name 0 k1 = Inr (n1, k2)"
      "kill_ready (q_size (get_queue mq k2)) mq p ?r name n1 k2 = Inr (n2, k3)"
      "on_ctx k3 p (\<lambda>c. libfree c ?r) = Inr (y, k')"
      using ins True
      by (auto simp: exec_def libsyscall_def syscall_def sys_killall_def Let_def rbind_Inr_iff
          pcb_at_Inr deref_def split: option.splits)
    have k1: "kill_rel ?k k1" by (rule kill_rel_on_ctx [OF s(1)])
    then obtain b1' where "k_heap k1 p = Some b1'" "keeps_links (b\<lparr>pc := pc b + 1\<rparr>) b1'"
      using kill_relD(3) [OF k1 ok', of p "b\<lparr>pc := pc b + 1\<rparr>"] np by auto
    then have "rq = RunningList" "mq = MlqReadyQueue"
      using s(2-4) b(2) by (auto simp: keeps_links_def linked_def)
    then have k2: "kill_rel k1 k2" using kill_rel_running s(5) by blast
    have "sched_ok k1" using k1 ok' by (simp add: kill_rel_def)
    then have "sched_ok k2" using k2 by (simp add: kill_rel_def)
    then have k3: "kill_rel k2 k3" using kill_rel_ready s(6) \<open>mq = MlqReadyQueue\<close> by blast
    have "kill_rel k3 k'" by (rule kill_rel_on_ctx [OF s(7)])
    then show ?thesis using k1 k2 k3 kill_rel_trans by blast
  next
    case False
    have "kill_rel ?k (?k\<lparr>k_out := l\<rparr>)" "kill_rel ?k (?k\<lparr>k_mram := r\<rparr>)" for l r
      by (intro kill_rel_same_ready; simp)+
    then show ?thesis
      using ins False kill_rel_on_ctx
      by (cases "opcode ins")
        (auto simp: exec_def libsyscall_def syscall_def sys_memmap_def sys_listsyscall_eq
          sys_ni_syscall_def Let_def rbind_Inr_iff split: if_splits)
  qed
  then show ?thesis using rel kill_rel_trans by blast
qed

end
