(* ===== verification/Os.thy ===== *)
theory Os
  imports Ownership
begin

text \<open>
  The simulator (\<open>src/os.c\<close>): reading the configuration, the CPU threads, the loader
  thread and the system they form with the timer, whose threads are interleaved in any
  order.  A step of a CPU or of the loader holds \<open>queue_lock\<close> at most once: \<open>get_proc\<close> is
  one step, \<open>put_proc\<close> and \<open>add_proc\<close>, which take it twice, are two.  An instruction (\<open>run\<close>)
  is one step, together with the entry to \<open>next_slot\<close> that follows it.  What the scheduler
  sees does not depend on this, unless the instruction is \<open>killall\<close> or a race in the memory
  library runs into undefined behaviour: no other instruction touches the queues or the
  control block of another process.  \<open>killall\<close> uses the queues
  without the lock, and what is proved here does not cover a \<open>killall\<close> that runs while
  another thread uses them (QueueRace has what can happen then).

  The invariant says that every process has one owner (a ready queue, one CPU or the
  loader), so that no process is run by two CPUs and the scheduler reads no freed block.
\<close>

section \<open>The configuration\<close>

record config =
  time_slot :: int
  num_cpus :: nat
  memramsz :: int
  memswpsz :: "int list"
  ld_path :: "string list"
  ld_start :: "u64 list"
  ld_prio :: "u64 list"

definition PAGING_MAX_MMSWP :: nat where
  "PAGING_MAX_MMSWP = 4"

text \<open>\<open>%lu\<close>.\<close>

definition scan_lu :: "string \<Rightarrow> u64 option \<times> string" where
  "scan_lu inp =
    (case scan_sign (skip_space inp) of (neg, r) \<Rightarrow>
      (let ds = takeWhile is_digit r; rest = dropWhile is_digit r; n = int (number_of ds)
       in if ds = [] then (None, rest)
          else if 2 ^ 64 \<le> n then (Some (-1), rest)
          else (Some (u64_of_int (if neg then - n else n)), rest)))"

definition or_else :: "'a option \<Rightarrow> 'a \<Rightarrow> 'a" where
  "or_else x d = (case x of None \<Rightarrow> d | Some y \<Rightarrow> y)"

text \<open>
  The line of one process: start time, name and priority, into memory that held \<open>st\<close>,
  \<open>old\<close> and \<open>pr\<close>; a failed conversion ends the line.  The name goes to a buffer of 100
  bytes and is appended to \<open>input/proc/\<close> in another of 100.
\<close>

definition scan_proc :: "u64 \<Rightarrow> string \<Rightarrow> u64 \<Rightarrow> string \<Rightarrow> (u64 \<times> string \<times> u64) \<times> string" where
  "scan_proc st old pr inp =
    (case scan_lu inp of
       (None, r) \<Rightarrow> ((st, old, pr), r)
     | (Some s, r) \<Rightarrow>
         (case scan_s [] r of (w, r) \<Rightarrow>
           if w = [] then ((s, old, pr), r)
           else (case scan_lu r of
                   (None, r) \<Rightarrow> ((s, w, pr), r)
                 | (Some p, r) \<Rightarrow> ((s, w, p), skip_space r))))"

fun read_procs :: "(u64 \<times> u64) list \<Rightarrow> string \<Rightarrow> string \<Rightarrow> (string \<times> u64 \<times> u64) list outcome" where
  "read_procs [] old inp = Inr []"
| "read_procs ((st, pr) # js) old inp =
    (case scan_proc st old pr inp of ((s, w, p), r) \<Rightarrow>
     rbind (assert_that (length w < 100) OutOfBounds) (\<lambda>_.
     rbind (assert_that (length (''input/proc/'' @ w) < 100) OutOfBounds) (\<lambda>_.
     rbind (read_procs js w r) (\<lambda>rest. Inr ((''input/proc/'' @ w, s, p) # rest)))))"

text \<open>
  \<open>read_config\<close>: the static variables are zero at first, \<open>junk\<close> is what the allocated
  arrays hold.
\<close>

definition read_config :: "(nat \<Rightarrow> u64 \<times> u64) \<Rightarrow> (string \<Rightarrow> string option) \<Rightarrow> string \<Rightarrow> config outcome" where
  "read_config junk fs pth =
    (case fs pth of
       None \<Rightarrow> Inl (Exits 1)
     | Some inp \<Rightarrow>
         (case scan_list scan_d 3 inp of (vs, r) \<Rightarrow>
          let v = (\<lambda>i. if i < length vs then int_of_u32 (vs ! i) else 0);
              r = (if length vs = 3 then skip_space r else r)
          in case scan_d r of (ram, r) \<Rightarrow>
          let r = (if ram \<noteq> None then skip_space r else r);
              scan1 = (\<lambda>(ws, r). case scan_d r of (w, r) \<Rightarrow> (ws @ [int_of_u32 (or_else w 0)], r))
          in case (scan1 ^^ PAGING_MAX_MMSWP) ([], r) of (swps, r) \<Rightarrow>
          rbind (read_procs (map junk [0..<nat (v 2)]) [] (skip_space r)) (\<lambda>ps.
          Inr \<lparr>time_slot = v 0, num_cpus = nat (v 1), memramsz = int_of_u32 (or_else ram 0),
               memswpsz = swps, ld_path = map fst ps, ld_start = map (fst \<circ> snd) ps,
               ld_prio = map (snd \<circ> snd) ps\<rparr>)))"

section \<open>CPU threads\<close>

datatype cpu_at = AtTop | AtPut | AtGet | AtCheck | AtRun | AtSlot | AtExit

record cpu_t =
  c_proc :: "pcb_ptr option"
  time_left :: int
  c_at :: cpu_at

text \<open>
  The head of the loop, and the second half of \<open>put_proc\<close>.  After \<open>free\<close> or \<open>put_proc\<close> the
  pointer is not read again.
\<close>

definition cpu_top :: "kernel \<Rightarrow> cpu_t \<Rightarrow> (kernel \<times> cpu_t) outcome" where
  "cpu_top k c =
    (case c_proc c of
       None \<Rightarrow>
         rbind (get_proc (k_heap k) (k_sched k)) (\<lambda>(p, s).
         Inr (k\<lparr>k_sched := s\<rparr>, c\<lparr>c_proc := p, c_at := (if p = None then AtSlot else AtCheck)\<rparr>))
     | Some p \<Rightarrow>
         rbind (pcb_at (k_heap k) p) (\<lambda>b.
         if pc b = code_size (pcb_code b) then
           Inr (free_pcb p k, c\<lparr>c_proc := None, time_left := 0, c_at := AtGet\<rparr>)
         else if time_left c = 0 then
           rbind (enlist_running (k_heap k) (k_sched k) p) (\<lambda>(h, s).
           Inr (k\<lparr>k_heap := h, k_sched := s\<rparr>, c\<lparr>c_at := AtPut\<rparr>))
         else Inr (k, c\<lparr>c_at := AtCheck\<rparr>)))"

definition cpu_put :: "kernel \<Rightarrow> cpu_t \<Rightarrow> (kernel \<times> cpu_t) outcome" where
  "cpu_put k c =
    rbind (deref (c_proc c)) (\<lambda>p.
    rbind (put_mlq_proc (k_heap k) (k_sched k) p) (\<lambda>s.
    Inr (k\<lparr>k_sched := s\<rparr>, c\<lparr>c_proc := None, c_at := AtGet\<rparr>)))"

definition cpu_get :: "kernel \<Rightarrow> cpu_t \<Rightarrow> (kernel \<times> cpu_t) outcome" where
  "cpu_get k c =
    rbind (get_proc (k_heap k) (k_sched k)) (\<lambda>(p, s).
    Inr (k\<lparr>k_sched := s\<rparr>, c\<lparr>c_proc := p, c_at := AtCheck\<rparr>))"

definition cpu_check :: "int \<Rightarrow> bool \<Rightarrow> kernel \<Rightarrow> cpu_t \<Rightarrow> (kernel \<times> cpu_t) outcome" where
  "cpu_check tslot dn k c =
    (case c_proc c of
       None \<Rightarrow> Inr (k, c\<lparr>c_at := (if dn then AtExit else AtSlot)\<rparr>)
     | Some p \<Rightarrow>
         if time_left c = 0 then
           rbind (pcb_at (k_heap k) p) (\<lambda>_. Inr (k, c\<lparr>time_left := tslot, c_at := AtRun\<rparr>))
         else Inr (k, c\<lparr>c_at := AtRun\<rparr>))"

definition cpu_run :: "uninit \<Rightarrow> kernel \<Rightarrow> cpu_t \<Rightarrow> (kernel \<times> cpu_t) outcome" where
  "cpu_run u k c =
    rbind (deref (c_proc c)) (\<lambda>p.
    rbind (run u k p) (\<lambda>(_, k).
    Inr (k, c\<lparr>time_left := i32 (time_left c - 1), c_at := AtSlot\<rparr>)))"

definition cpu_step :: "uninit \<Rightarrow> int \<Rightarrow> bool \<Rightarrow> kernel \<Rightarrow> cpu_t \<Rightarrow> (kernel \<times> cpu_t) outcome" where
  "cpu_step u tslot dn k c =
    (case c_at c of
       AtTop \<Rightarrow> cpu_top k c
     | AtPut \<Rightarrow> cpu_put k c
     | AtGet \<Rightarrow> cpu_get k c
     | AtCheck \<Rightarrow> cpu_check tslot dn k c
     | AtRun \<Rightarrow> cpu_run u k c
     | AtSlot \<Rightarrow> Inr (k, c)
     | AtExit \<Rightarrow> Inr (k, c))"

section \<open>The loader thread\<close>

datatype ld_at = LdLoad | LdWait | LdAdd | LdSlotWait | LdSlotNext | LdExit

record ld_t =
  l_i :: nat
  l_proc :: "pcb_ptr option"
  l_at :: ld_at

text \<open>
  Loading the next process into the block \<open>p\<close> that \<open>malloc\<close> returns, or the end of the
  loop; the result tells whether the loop has ended.
\<close>

definition ld_load :: "load_junk \<Rightarrow> (string \<Rightarrow> string option) \<Rightarrow> config \<Rightarrow> pcb_ptr \<Rightarrow> kernel \<Rightarrow> ld_t \<Rightarrow>
    (bool \<times> kernel \<times> ld_t) outcome" where
  "ld_load j fs cfg p k l =
    (if l_i l < length (ld_path cfg) then
       rbind (load j fs (avail_pid k) (ld_path cfg ! l_i l)) (\<lambda>(b, n).
       Inr (False, k\<lparr>k_heap := (k_heap k)(p \<mapsto> b\<lparr>prio := ucast (ld_prio cfg ! l_i l)\<rparr>), avail_pid := n\<rparr>,
            l\<lparr>l_proc := Some p, l_at := LdWait\<rparr>))
     else Inr (True, k, l\<lparr>l_at := LdExit\<rparr>))"

text \<open>A new process is given its memory and added, up to and after the first release of the lock.\<close>

definition ld_add :: "uninit \<Rightarrow> mm_struct \<Rightarrow> kernel \<Rightarrow> ld_t \<Rightarrow> (kernel \<times> ld_t) outcome" where
  "ld_add u m k l =
    rbind (deref (l_proc l)) (\<lambda>p.
    rbind (pcb_at (k_heap k) p) (\<lambda>b.
    rbind (enlist_running ((k_heap k)(p \<mapsto> b\<lparr>mm := init_mm u m\<rparr>)) (k_sched k) p) (\<lambda>(h, s).
    Inr (k\<lparr>k_heap := h, k_sched := s\<rparr>, l\<lparr>l_at := LdAdd\<rparr>))))"

definition ld_put :: "kernel \<Rightarrow> ld_t \<Rightarrow> (kernel \<times> ld_t) outcome" where
  "ld_put k l =
    rbind (deref (l_proc l)) (\<lambda>p.
    rbind (add_mlq_proc (k_heap k) (k_sched k) p) (\<lambda>s.
    Inr (k\<lparr>k_sched := s\<rparr>, l\<lparr>l_i := l_i l + 1, l_proc := None, l_at := LdSlotNext\<rparr>)))"

section \<open>The system\<close>

record system =
  sys_k :: kernel
  sys_cpu :: "nat \<Rightarrow> cpu_t"
  sys_ld :: ld_t
  sys_timer :: timer_sys
  sys_done :: bool

definition cpu_turn :: "nat \<Rightarrow> kernel \<Rightarrow> cpu_t \<Rightarrow> system \<Rightarrow> system" where
  "cpu_turn i k c s = s\<lparr>sys_k := k, sys_cpu := (sys_cpu s)(i := c),
     sys_timer := (case c_at c of AtSlot \<Rightarrow> next_slot_enter i (sys_timer s)
                   | AtExit \<Rightarrow> detach_event i (sys_timer s) | _ \<Rightarrow> sys_timer s)\<rparr>"

text \<open>The devices of the timer are the CPUs, by number, and the loader after them.\<close>

text \<open>
  The system.  A CPU's instruction (\<open>cpu_run\<close>) is one step, \<open>killall\<close> included, although the
  source takes no lock around it: runs in which a \<open>killall\<close> overlaps with another thread's
  use of the queues are not among the runs of this relation.
\<close>

inductive sstep :: "uninit \<Rightarrow> load_junk \<Rightarrow> (string \<Rightarrow> string option) \<Rightarrow> config \<Rightarrow> system \<Rightarrow> system \<Rightarrow> bool"
  for u j fs cfg where
  cpu: "i < num_cpus cfg \<Longrightarrow> d_pc (sys_timer s) i = DWork \<Longrightarrow> c_at (sys_cpu s i) \<notin> {AtSlot, AtExit} \<Longrightarrow>
    cpu_step u (time_slot cfg) (sys_done s) (sys_k s) (sys_cpu s i) = Inr (k, c) \<Longrightarrow>
    sstep u j fs cfg s (cpu_turn i k c s)"
| cpu_resume: "i < num_cpus cfg \<Longrightarrow> d_pc (sys_timer s) i = DWait \<Longrightarrow> \<not> t_done (sys_timer s) i \<Longrightarrow>
    sstep u j fs cfg s (s\<lparr>sys_cpu := (sys_cpu s)(i := (sys_cpu s i)\<lparr>c_at := AtTop\<rparr>),
      sys_timer := next_slot_leave i (sys_timer s)\<rparr>)"
| ld_load: "l_at (sys_ld s) = LdLoad \<Longrightarrow> d_pc (sys_timer s) (num_cpus cfg) = DWork \<Longrightarrow> k_heap (sys_k s) p = None \<Longrightarrow>
    ld_load j fs cfg p (sys_k s) (sys_ld s) = Inr (False, k, l) \<Longrightarrow>
    sstep u j fs cfg s (s\<lparr>sys_k := k, sys_ld := l\<rparr>)"
| ld_end: "l_at (sys_ld s) = LdLoad \<Longrightarrow> d_pc (sys_timer s) (num_cpus cfg) = DWork \<Longrightarrow>
    ld_load j fs cfg p (sys_k s) (sys_ld s) = Inr (True, k, l) \<Longrightarrow>
    sstep u j fs cfg s (s\<lparr>sys_ld := l, sys_done := True,
      sys_timer := detach_event (num_cpus cfg) (sys_timer s)\<rparr>)"
| ld_wait: "l_at (sys_ld s) = LdWait \<Longrightarrow> d_pc (sys_timer s) (num_cpus cfg) = DWork \<Longrightarrow>
    current_time (sys_timer s) < ld_start cfg ! l_i (sys_ld s) \<Longrightarrow>
    sstep u j fs cfg s (s\<lparr>sys_ld := (sys_ld s)\<lparr>l_at := LdSlotWait\<rparr>,
      sys_timer := next_slot_enter (num_cpus cfg) (sys_timer s)\<rparr>)"
| ld_add: "l_at (sys_ld s) = LdWait \<Longrightarrow> d_pc (sys_timer s) (num_cpus cfg) = DWork \<Longrightarrow>
    \<not> current_time (sys_timer s) < ld_start cfg ! l_i (sys_ld s) \<Longrightarrow>
    ld_add u m (sys_k s) (sys_ld s) = Inr (k, l) \<Longrightarrow>
    sstep u j fs cfg s (s\<lparr>sys_k := k, sys_ld := l\<rparr>)"
| ld_put: "l_at (sys_ld s) = LdAdd \<Longrightarrow> d_pc (sys_timer s) (num_cpus cfg) = DWork \<Longrightarrow>
    ld_put (sys_k s) (sys_ld s) = Inr (k, l) \<Longrightarrow>
    sstep u j fs cfg s (s\<lparr>sys_k := k, sys_ld := l,
      sys_timer := next_slot_enter (num_cpus cfg) (sys_timer s)\<rparr>)"
| ld_resume: "d_pc (sys_timer s) (num_cpus cfg) = DWait \<Longrightarrow> \<not> t_done (sys_timer s) (num_cpus cfg) \<Longrightarrow>
    sstep u j fs cfg s (s\<lparr>sys_ld := (sys_ld s)\<lparr>l_at := (if l_at (sys_ld s) = LdSlotWait then LdWait else LdLoad)\<rparr>,
      sys_timer := next_slot_leave (num_cpus cfg) (sys_timer s)\<rparr>)"
| timer: "tstep (sys_timer s) t \<Longrightarrow> d_pc t = d_pc (sys_timer s) \<Longrightarrow>
    sstep u j fs cfg s (s\<lparr>sys_timer := t\<rparr>)"

inductive_cases sstepE: "sstep u j fs cfg s t"

text \<open>
  \<open>main\<close>: the memory devices, the scheduler and the threads.  \<open>mp\<close> and \<open>q\<close> are what
  the device and the scheduler hold before they are initialised; the scheduler's data is
  static, so its running list is empty.
\<close>

definition sched_start :: "sched_t \<Rightarrow> bool" where
  "sched_start s \<longleftrightarrow> (\<exists>q. s = init_scheduler q \<and> q_size (running_list q) = 0)"

definition init_devices :: "int list \<Rightarrow> memphy_struct \<Rightarrow> config \<Rightarrow> memphy_struct \<times> memphy_struct list" where
  "init_devices junk mp cfg =
    (init_memphy junk mp (memramsz cfg) 1,
     map (\<lambda>sit. init_memphy junk mp (memswpsz cfg ! sit) 1) [0..<PAGING_MAX_MMSWP])"

definition sinit :: "config \<Rightarrow> system \<Rightarrow> bool" where
  "sinit cfg s \<longleftrightarrow>
    k_heap (sys_k s) = (\<lambda>_. None) \<and> sched_start (k_sched (sys_k s)) \<and>
    (\<exists>junk mp. k_mram (sys_k s) = fst (init_devices junk mp cfg) \<and>
       k_mswp (sys_k s) = snd (init_devices junk mp cfg) ! 0) \<and>
    \<not> k_mmvm_lock (sys_k s) \<and> avail_pid (sys_k s) = 1 \<and> k_out (sys_k s) = [] \<and>
    sys_cpu s = (\<lambda>_. \<lparr>c_proc = None, time_left = 0, c_at = AtTop\<rparr>) \<and>
    sys_ld s = \<lparr>l_i = 0, l_proc = None, l_at = LdLoad\<rparr> \<and>
    tinit [0..<num_cpus cfg + 1] (sys_timer s) \<and> \<not> sys_done s"

text \<open>
  \<open>main\<close> as a whole, up to the creation of the threads: the return value for a wrong number
  of arguments, or the configuration and the state the threads start in.  \<open>args\<close> is
  \<open>argv\<close>; the path goes to a buffer of 100 bytes.
\<close>

definition config_path :: "string \<Rightarrow> string outcome" where
  "config_path arg =
    rbind (assert_that (length (''input/'' @ arg) < 100) OutOfBounds) (\<lambda>_. Inr (''input/'' @ arg))"

definition boot :: "int list \<Rightarrow> memphy_struct \<Rightarrow> sched_t \<Rightarrow> config \<Rightarrow> system" where
  "boot junk mp q cfg =
    (case init_devices junk mp cfg of (ram, swps) \<Rightarrow>
     \<lparr>sys_k = \<lparr>k_heap = (\<lambda>_. None), k_sched = init_scheduler q, k_mram = ram, k_mswp = swps ! 0,
        k_mmvm_lock = False, avail_pid = 1, k_out = []\<rparr>,
      sys_cpu = (\<lambda>_. \<lparr>c_proc = None, time_left = 0, c_at = AtTop\<rparr>),
      sys_ld = \<lparr>l_i = 0, l_proc = None, l_at = LdLoad\<rparr>,
      sys_timer = start_timer (attach_all [0..<num_cpus cfg + 1] no_timer), sys_done = False\<rparr>)"

definition os_main :: "(nat \<Rightarrow> u64 \<times> u64) \<Rightarrow> int list \<Rightarrow> memphy_struct \<Rightarrow> sched_t \<Rightarrow> (string \<Rightarrow> string option) \<Rightarrow>
    string list \<Rightarrow> (int + config \<times> system) outcome" where
  "os_main cj junk mp q fs args =
    (if length args \<noteq> 2 then Inr (Inl 1)
     else rbind (config_path (args ! 1)) (\<lambda>pth.
          rbind (read_config cj fs pth) (\<lambda>cfg.
          Inr (Inr (cfg, boot junk mp q cfg)))))"

lemma boot_sinit: "q_size (running_list q) = 0 \<Longrightarrow> sinit cfg (boot junk mp q cfg)"
  by (auto simp: sinit_def boot_def init_devices_def sched_start_def tinit_def)

section \<open>One owner for every process\<close>

text \<open>
  Who holds a process outside the ready queues: CPU \<open>i\<close> is holder \<open>i\<close>, the loader is
  holder \<open>n\<close>, the number of CPUs.
\<close>

definition sound_pcb :: "pcb_t \<Rightarrow> bool" where
  "sound_pcb b \<longleftrightarrow> unat (prio b) < MAX_PRIO"

definition own :: "kernel \<Rightarrow> nat \<Rightarrow> (nat \<Rightarrow> pcb_ptr option) \<Rightarrow> bool" where
  "own k n H \<longleftrightarrow> sched_ok k \<and> heap_wf (k_heap k) \<and>
    (\<forall>i \<le> n. \<forall>p. H i = Some p \<longrightarrow> p \<notin># ready (k_sched k) \<and> (\<forall>j \<le> n. j \<noteq> i \<longrightarrow> H j \<noteq> Some p) \<and>
       (\<exists>b. k_heap k p = Some b \<and> sound_pcb b \<and> (i < n \<longrightarrow> linked b))) \<and>
    (\<forall>p. p \<in># ready (k_sched k) \<longrightarrow> (\<exists>b. k_heap k p = Some b \<and> sound_pcb b \<and> linked b))"

lemma ownD:
  assumes "own k n H" and "i \<le> n" and "H i = Some p"
  shows "p \<notin># ready (k_sched k)" and "\<And>j. j \<le> n \<Longrightarrow> j \<noteq> i \<Longrightarrow> H j \<noteq> Some p"
    and "\<exists>b. k_heap k p = Some b \<and> sound_pcb b \<and> (i < n \<longrightarrow> linked b)"
  using assms unfolding own_def by blast+

lemma own_ready: "own k n H \<Longrightarrow> p \<in># ready (k_sched k) \<Longrightarrow> \<exists>b. k_heap k p = Some b \<and> sound_pcb b \<and> linked b"
  unfolding own_def by blast

lemma own_sched: "own k n H \<Longrightarrow> sched_ok k" "own k n H \<Longrightarrow> heap_wf (k_heap k)"
  unfolding own_def by blast+

lemma ownI:
  assumes "sched_ok k" and "heap_wf (k_heap k)"
    and "\<And>i p. i \<le> n \<Longrightarrow> H i = Some p \<Longrightarrow> p \<notin># ready (k_sched k)"
    and "\<And>i j p. i \<le> n \<Longrightarrow> j \<le> n \<Longrightarrow> H i = Some p \<Longrightarrow> H j = Some p \<Longrightarrow> i = j"
    and "\<And>i p. i \<le> n \<Longrightarrow> H i = Some p \<Longrightarrow> \<exists>b. k_heap k p = Some b \<and> sound_pcb b \<and> (i < n \<longrightarrow> linked b)"
    and "\<And>p. p \<in># ready (k_sched k) \<Longrightarrow> \<exists>b. k_heap k p = Some b \<and> sound_pcb b \<and> linked b"
  shows "own k n H"
  unfolding own_def using assms by blast

lemma own_holders: "own k n H \<Longrightarrow> i \<le> n \<Longrightarrow> j \<le> n \<Longrightarrow> H i = Some p \<Longrightarrow> H j = Some p \<Longrightarrow> i = j"
  unfolding own_def by blast

text \<open>Taking a process from the scheduler.\<close>

lemma own_get:
  assumes o: "own k n H" and i: "i < n" "H i = None" and g: "get_proc (k_heap k) (k_sched k) = Inr (po, s')"
  shows "own (k\<lparr>k_sched := s'\<rparr>) n (H(i := po))"
proof (cases po)
  case None
  have "sched_ok k" by (rule own_sched [OF o])
  then have wf: "sched_wf (k_sched k)" and live: "sched_live (k_heap k) (k_sched k)"
    by (simp_all add: sched_ok_def)
  have none: "\<forall>k' < MAX_PRIO. level (k_sched k) k' = []"
    using get_proc_returns [OF wf live] g None by auto
  then have s': "s' = (k_sched k)\<lparr>curr_prio := 0, curr_slot := 0\<rparr>"
    using get_proc_None [OF wf none, of "k_heap k"] g by simp
  have "H(i := po) = H" using None i by auto
  moreover have "ready s' = ready (k_sched k)" by (simp add: s' ready_def level_def)
  moreover have "sched_ok (k\<lparr>k_sched := s'\<rparr>)"
    using \<open>sched_ok k\<close> by (simp add: sched_ok_def sched_wf_def sched_live_def s' unique_ready_def ready_def level_def)
  ultimately show ?thesis using o by (simp add: own_def)
next
  case (Some p)
  have ok: "sched_wf (k_sched k)" "sched_live (k_heap k) (k_sched k)" "unique_ready (k_sched k)"
    using own_sched [OF o] by (simp_all add: sched_ok_def)
  have t: "ready (k_sched k) = add_mset p (ready s')" "sched_wf s'" "sched_live (k_heap k) s'"
    using get_proc_taken [OF ok(1,2) g [unfolded Some]] by blast+
  have c: "count (ready (k_sched k)) q = (if q = p then Suc (count (ready s') q) else count (ready s') q)" for q
    by (simp add: t(1))
  have p: "p \<notin># ready s'" "p \<in># ready (k_sched k)"
    using ok(3) c [of p] by (auto simp: unique_ready_def not_in_iff t(1) dest!: spec [of _ p])
  have uniq: "unique_ready s'"
    using ok(3) c by (auto simp: unique_ready_def) (metis Suc_leD)
  have np: "H j \<noteq> Some p" if "j \<le> n" for j using ownD(1) [OF o that] p(2) by blast
  show ?thesis
  proof (rule ownI)
    show "sched_ok (k\<lparr>k_sched := s'\<rparr>)" using t uniq by (simp add: sched_ok_def)
    show "heap_wf (k_heap (k\<lparr>k_sched := s'\<rparr>))" using own_sched(2) [OF o] by simp
    fix j q assume j: "j \<le> n" "(H(i := po)) j = Some q"
    show "q \<notin># ready (k_sched (k\<lparr>k_sched := s'\<rparr>))"
      using j p(1) ownD(1) [OF o j(1)] t(1) Some by (auto split: if_splits)
    show "\<exists>b. k_heap (k\<lparr>k_sched := s'\<rparr>) q = Some b \<and> sound_pcb b \<and> (j < n \<longrightarrow> linked b)"
      using j own_ready [OF o p(2)] ownD(3) [OF o j(1)] Some by (auto split: if_splits)
  next
    fix j l q assume "j \<le> n" "l \<le> n" "(H(i := po)) j = Some q" "(H(i := po)) l = Some q"
    then show "j = l"
      using np own_holders [OF o] Some by (auto split: if_splits)
  next
    fix q assume "q \<in># ready (k_sched (k\<lparr>k_sched := s'\<rparr>))"
    then show "\<exists>b. k_heap (k\<lparr>k_sched := s'\<rparr>) q = Some b \<and> sound_pcb b \<and> linked b"
      using own_ready [OF o, of q] t(1) by simp
  qed
qed

text \<open>Dropping a holder, freeing what it holds.\<close>

lemma own_free:
  assumes o: "own k n H" and i: "i \<le> n" "H i = Some p"
  shows "own (free_pcb p k) n (H(i := None))"
proof -
  have p: "p \<notin># ready (k_sched k)" by (rule ownD(1) [OF o i])
  have h: "k_heap (free_pcb p k) q = k_heap k q" if "q \<noteq> p" for q using that by (simp add: free_pcb_def)
  have s: "k_sched (free_pcb p k) = k_sched k" by (simp add: free_pcb_def)
  have "q_live (k_heap (free_pcb p k)) (mlq_ready_queue (k_sched k) j)" if "j < MAX_PRIO" for j
  proof -
    have "q \<noteq> p" if "q \<in> set (q_list (mlq_ready_queue (k_sched k) j))" for q
      using that p \<open>j < MAX_PRIO\<close> by (auto simp: in_ready level_def)
    then show ?thesis
      using own_sched(1) [OF o] that h by (simp add: q_live_def sched_ok_def sched_live_def)
  qed
  then have "sched_ok (free_pcb p k)"
    using own_sched(1) [OF o] by (simp add: sched_ok_def sched_live_def s)
  moreover have "heap_wf (k_heap (free_pcb p k))"
    using own_sched(2) [OF o] by (simp add: free_pcb_def heap_wf_None)
  ultimately show ?thesis
  proof (rule ownI)
    fix j q assume j: "j \<le> n" "(H(i := None)) j = Some q"
    then have "j \<noteq> i" "H j = Some q" by (auto split: if_splits)
    then have "q \<noteq> p" using own_holders [OF o i(1) j(1) i(2)] by auto
    then show "\<exists>b. k_heap (free_pcb p k) q = Some b \<and> sound_pcb b \<and> (j < n \<longrightarrow> linked b)"
      using ownD(3) [OF o j(1) \<open>H j = Some q\<close>] h by simp
    show "q \<notin># ready (k_sched (free_pcb p k))"
      using ownD(1) [OF o j(1) \<open>H j = Some q\<close>] by (simp add: s)
  next
    fix j l q assume "j \<le> n" "l \<le> n" "(H(i := None)) j = Some q" "(H(i := None)) l = Some q"
    then show "j = l" using own_holders [OF o] by (auto split: if_splits)
  next
    fix q assume q: "q \<in># ready (k_sched (free_pcb p k))"
    then have "q \<noteq> p" using p by (auto simp: s)
    then show "\<exists>b. k_heap (free_pcb p k) q = Some b \<and> sound_pcb b \<and> linked b"
      using own_ready [OF o, of q] q h by (simp add: s)
  qed
qed

text \<open>Changing the block of a holder.\<close>

lemma sched_live_upd: "sched_live h s \<Longrightarrow> sched_live (h(p \<mapsto> b)) s"
  by (auto simp: sched_live_def q_live_def)

lemma own_upd:
  assumes o: "own k n H" and i: "i \<le> n" "H i = Some p"
    and b: "pcb_wf b" "sound_pcb b" "i < n \<longrightarrow> linked b"
  shows "own (k\<lparr>k_heap := (k_heap k)(p \<mapsto> b)\<rparr>) n H"
proof (rule ownI)
  have p: "p \<notin># ready (k_sched k)" by (rule ownD(1) [OF o i])
  show "sched_ok (k\<lparr>k_heap := (k_heap k)(p \<mapsto> b)\<rparr>)"
    using own_sched(1) [OF o] by (simp add: sched_ok_def sched_live_upd)
  show "heap_wf (k_heap (k\<lparr>k_heap := (k_heap k)(p \<mapsto> b)\<rparr>))"
    using own_sched(2) [OF o] b(1) by (simp add: heap_wf_upd)
  fix q assume "q \<in># ready (k_sched (k\<lparr>k_heap := (k_heap k)(p \<mapsto> b)\<rparr>))"
  then show "\<exists>b'. k_heap (k\<lparr>k_heap := (k_heap k)(p \<mapsto> b)\<rparr>) q = Some b' \<and> sound_pcb b' \<and> linked b'"
    using p own_ready [OF o, of q] by auto
next
  fix j q assume j: "j \<le> n" "H j = Some q"
  then show "q \<notin># ready (k_sched (k\<lparr>k_heap := (k_heap k)(p \<mapsto> b)\<rparr>))"
    using ownD(1) [OF o] by simp
  show "\<exists>b'. k_heap (k\<lparr>k_heap := (k_heap k)(p \<mapsto> b)\<rparr>) q = Some b' \<and> sound_pcb b' \<and> (j < n \<longrightarrow> linked b')"
    using ownD(3) [OF o j] b own_holders [OF o j(1) i(1) j(2)] i(2) by (cases "q = p") auto
qed (use own_holders [OF o] in blast)

text \<open>Handing a process to the scheduler.\<close>

lemma own_listed:
  assumes o: "own k n H"
  shows "own (k\<lparr>k_sched := listed (k_sched k) p\<rparr>) n H"
  using o sched_wf_listed [of "k_sched k" p] sched_live_listed [of "k_heap k" "k_sched k" p]
  by (simp add: own_def sched_ok_def unique_ready_def)

lemma own_enlist:
  assumes o: "own k n H" and i: "i \<le> n" "H i = Some p"
  shows "\<exists>b. k_heap k p = Some b \<and>
    enlist_running (k_heap k) (k_sched k) p = Inr ((k_heap k)(p \<mapsto> link_queues b), listed (k_sched k) p) \<and>
    own (k\<lparr>k_heap := (k_heap k)(p \<mapsto> link_queues b), k_sched := listed (k_sched k) p\<rparr>) n H"
proof -
  obtain b where b: "k_heap k p = Some b" "sound_pcb b" using ownD(3) [OF o i] by blast
  let ?b = "link_queues b"
  have lb: "linked ?b" "sound_pcb ?b" "pcb_wf ?b"
    using b own_sched(2) [OF o] by (simp_all add: linked_def link_queues_def sound_pcb_def pcb_wf_def heap_wf_def)
  have "\<not> queue_lock (k_sched k)" using own_sched(1) [OF o] by (simp add: sched_ok_def sched_wf_def)
  then have "enlist_running (k_heap k) (k_sched k) p = Inr ((k_heap k)(p \<mapsto> ?b), listed (k_sched k) p)"
    using b(1) by (rule enlist_running_ok)
  moreover have "own (k\<lparr>k_heap := (k_heap k)(p \<mapsto> ?b)\<rparr>) n H" using lb by (intro own_upd [OF o i]) simp_all
  ultimately show ?thesis using own_listed [of "k\<lparr>k_heap := (k_heap k)(p \<mapsto> ?b)\<rparr>" n H p] b(1) by simp
qed

lemma own_queue:
  assumes o: "own k n H" and i: "i \<le> n" "H i = Some p" and b: "k_heap k p = Some b" "linked b"
  shows "put_mlq_proc (k_heap k) (k_sched k) p = Inr (queued (k_sched k) p (unat (prio b)))"
    and "add_mlq_proc (k_heap k) (k_sched k) p = Inr (queued (k_sched k) p (unat (prio b)))"
    and "own (k\<lparr>k_sched := queued (k_sched k) p (unat (prio b))\<rparr>) n (H(i := None))"
proof -
  have ok: "sched_wf (k_sched k)" "sched_live (k_heap k) (k_sched k)" "unique_ready (k_sched k)"
    using own_sched(1) [OF o] by (simp_all add: sched_ok_def)
  let ?l = "unat (prio b)" and ?s = "queued (k_sched k) p (unat (prio b))"
  have sb: "sound_pcb b" using ownD(3) [OF o i] b(1) by auto
  then have lt: "?l < MAX_PRIO" by (simp add: sound_pcb_def)
  have "\<not> queue_lock (k_sched k)" using ok(1) by (simp add: sched_wf_def)
  note q = put_mlq_proc_ok [where h = "k_heap k", OF this b(1)]
  show "put_mlq_proc (k_heap k) (k_sched k) p = Inr ?s" "add_mlq_proc (k_heap k) (k_sched k) p = Inr ?s"
    using q lt by simp_all
  have p: "p \<notin># ready (k_sched k)" by (rule ownD(1) [OF o i])
  have count: "count (ready ?s) q \<le> count (add_mset p (ready (k_sched k))) q" for q
    using ready_queued [OF lt, of "k_sched k" p] by simp
  have mem: "q = p \<or> q \<in># ready (k_sched k)" if "q \<in># ready ?s" for q
    using that ready_queued [OF lt, of "k_sched k" p] by (auto split: if_splits)
  have uniq: "unique_ready ?s"
    unfolding unique_ready_def
  proof
    fix q
    have "count (add_mset p (ready (k_sched k))) q \<le> 1" using p ok(3) by (auto simp: unique_ready_def not_in_iff)
    then show "count (ready ?s) q \<le> 1" using count [of q] by linarith
  qed
  have H: "H j = Some q \<and> q \<noteq> p" if "j \<le> n" "(H(i := None)) j = Some q" for j q
    using that own_holders [OF o that(1) i(1) _ i(2)] by (cases "j = i") auto
  show "own (k\<lparr>k_sched := ?s\<rparr>) n (H(i := None))"
  proof (rule ownI)
    show "sched_ok (k\<lparr>k_sched := ?s\<rparr>)"
      using sched_wf_queued [OF ok(1)] sched_live_queued [OF ok(2) b(1)] uniq by (simp add: sched_ok_def)
    show "heap_wf (k_heap (k\<lparr>k_sched := ?s\<rparr>))" using own_sched(2) [OF o] by simp
    fix q assume "q \<in># ready (k_sched (k\<lparr>k_sched := ?s\<rparr>))"
    then show "\<exists>b. k_heap (k\<lparr>k_sched := ?s\<rparr>) q = Some b \<and> sound_pcb b \<and> linked b"
      using mem [of q] own_ready [OF o, of q] b sb by auto
  next
    fix j q assume j: "j \<le> n" "(H(i := None)) j = Some q"
    show "q \<notin># ready (k_sched (k\<lparr>k_sched := ?s\<rparr>))"
      using H [OF j] ownD(1) [OF o j(1)] mem [of q] by auto
    show "\<exists>b. k_heap (k\<lparr>k_sched := ?s\<rparr>) q = Some b \<and> sound_pcb b \<and> (j < n \<longrightarrow> linked b)"
      using H [OF j] ownD(3) [OF o j(1)] by simp
  next
    fix j l q assume "j \<le> n" "l \<le> n" "(H(i := None)) j = Some q" "(H(i := None)) l = Some q"
    then show "j = l" using H own_holders [OF o] by blast
  qed
qed

text \<open>A holder whose process points to the queues may count as a CPU.\<close>

lemma own_Suc:
  assumes o: "own k n H" and b: "\<And>p. H n = Some p \<Longrightarrow> \<exists>b. k_heap k p = Some b \<and> linked b"
  shows "own k (Suc n) (H(Suc n := None))"
proof (rule ownI)
  fix i p assume i: "i \<le> Suc n" "(H(Suc n := None)) i = Some p"
  then have le: "i \<le> n" "H i = Some p" by (auto simp: le_Suc_eq split: if_splits)
  show "p \<notin># ready (k_sched k)" by (rule ownD(1) [OF o le])
  show "\<exists>b. k_heap k p = Some b \<and> sound_pcb b \<and> (i < Suc n \<longrightarrow> linked b)"
    using ownD(3) [OF o le] b [of p] le by (cases "i = n") auto
next
  fix i j p assume "i \<le> Suc n" "j \<le> Suc n" "(H(Suc n := None)) i = Some p" "(H(Suc n := None)) j = Some p"
  then show "i = j" using own_holders [OF o] by (auto simp: le_Suc_eq split: if_splits)
qed (use own_sched [OF o] own_ready [OF o] in blast)+

text \<open>Running a process.\<close>

lemma own_run:
  assumes o: "own k n H" and i: "i < n" "H i = Some p" and r: "run u k p = Inr (x, k')"
  shows "own k' n H"
proof -
  obtain b where b: "k_heap k p = Some b" "sound_pcb b" "linked b" using ownD(3) [OF o, of i] i by auto
  have np: "p \<notin># ready (k_sched k)" using ownD(1) [OF o, of i] i by simp
  have rel: "kill_rel k k'" by (rule kill_rel_run [OF r b(1,3) own_sched(1) [OF o] np])
  note d = kill_relD [OF rel own_sched(1) [OF o]]
  have keep: "\<exists>b'. k_heap k' q = Some b' \<and> sound_pcb b' \<and> (P \<longrightarrow> linked b')"
    if "\<exists>b. k_heap k q = Some b \<and> sound_pcb b \<and> (P \<longrightarrow> linked b)"
      "q \<in># ready (k_sched k) \<Longrightarrow> q \<in># ready (k_sched k')" for q P
    using that(1) d(3) [OF _ that(2)] by (fastforce simp: keeps_links_def sound_pcb_def linked_def)
  have wf: "heap_wf (k_heap k')"
  proof (cases "pc b < code_size (pcb_code b)")
    case True
    then show ?thesis using run_advances [OF own_sched(2) [OF o] b(1) r] by blast
  next
    case False
    then show ?thesis using r run_finished [OF b(1), of u] own_sched(2) [OF o] by simp
  qed
  show ?thesis
  proof (rule ownI [OF d(1) wf])
    fix j q assume j: "j \<le> n" "H j = Some q"
    show nq: "q \<notin># ready (k_sched k')" using ownD(1) [OF o j] d(2) by (meson mset_subset_eqD)
    show "\<exists>b. k_heap k' q = Some b \<and> sound_pcb b \<and> (j < n \<longrightarrow> linked b)"
      using keep [OF ownD(3) [OF o j]] ownD(1) [OF o j] by blast
  next
    fix q assume q: "q \<in># ready (k_sched k')"
    then have "q \<in># ready (k_sched k)" using d(2) by (meson mset_subset_eqD)
    then show "\<exists>b. k_heap k' q = Some b \<and> sound_pcb b \<and> linked b"
      using keep [of q True] own_ready [OF o] q by simp
  qed (use own_holders [OF o] in blast)
qed

text \<open>A new process in a block that nothing owned.\<close>

lemma own_new:
  assumes o: "own k n H" and p: "k_heap k p = None" and h: "H n = None"
    and b: "pcb_wf b" "sound_pcb b"
  shows "own (k\<lparr>k_heap := (k_heap k)(p \<mapsto> b), avail_pid := a\<rparr>) n (H(n := Some p))"
proof -
  have nr: "p \<notin># ready (k_sched k)" using own_ready [OF o, of p] p by auto
  have nh: "j \<le> n \<Longrightarrow> H j \<noteq> Some p" for j using ownD(3) [OF o, of j p] p by auto
  show ?thesis
  proof (rule ownI)
    let ?k = "k\<lparr>k_heap := (k_heap k)(p \<mapsto> b), avail_pid := a\<rparr>"
    show "sched_ok ?k" using own_sched(1) [OF o] by (simp add: sched_ok_def sched_live_upd)
    show "heap_wf (k_heap ?k)" using own_sched(2) [OF o] b(1) by (simp add: heap_wf_upd)
    fix q assume "q \<in># ready (k_sched ?k)"
    then show "\<exists>b'. k_heap ?k q = Some b' \<and> sound_pcb b' \<and> linked b'"
      using nr own_ready [OF o, of q] by auto
  next
    fix j q assume "j \<le> n" "(H(n := Some p)) j = Some q"
    then show "q \<notin># ready (k_sched (k\<lparr>k_heap := (k_heap k)(p \<mapsto> b), avail_pid := a\<rparr>))"
      "\<exists>b'. k_heap (k\<lparr>k_heap := (k_heap k)(p \<mapsto> b), avail_pid := a\<rparr>) q = Some b' \<and> sound_pcb b' \<and> (j < n \<longrightarrow> linked b')"
      using nr nh ownD(1,3) [OF o, of j q] b by (auto split: if_splits)
  next
    fix j l q assume "j \<le> n" "l \<le> n" "(H(n := Some p)) j = Some q" "(H(n := Some p)) l = Some q"
    then show "j = l" using nh own_holders [OF o] by (auto split: if_splits)
  qed
qed

section \<open>The system invariant\<close>

definition cfg_ok :: "config \<Rightarrow> bool" where
  "cfg_ok cfg \<longleftrightarrow> 0 < time_slot cfg \<and> time_slot cfg < 2147483648 \<and>
    (\<forall>i < length (ld_path cfg). unat (ucast (ld_prio cfg ! i) :: u32) < MAX_PRIO)"

definition holders :: "config \<Rightarrow> system \<Rightarrow> nat \<Rightarrow> pcb_ptr option" where
  "holders cfg s = (\<lambda>i. if i = num_cpus cfg then l_proc (sys_ld s) else c_proc (sys_cpu s i))"

definition cpu_inv :: "config \<Rightarrow> cpu_t \<Rightarrow> bool" where
  "cpu_inv cfg c \<longleftrightarrow> (c_at c = AtRun \<longrightarrow> c_proc c \<noteq> None \<and> 0 < time_left c) \<and> (c_at c = AtGet \<longrightarrow> c_proc c = None) \<and>
    (c_at c = AtPut \<longrightarrow> c_proc c \<noteq> None \<and> time_left c = 0) \<and> (c_proc c = None \<longrightarrow> time_left c = 0) \<and> 0 \<le> time_left c \<and> time_left c \<le> time_slot cfg"

definition ld_inv :: "ld_t \<Rightarrow> dev_pc \<Rightarrow> bool" where
  "ld_inv l d \<longleftrightarrow> (l_at l \<in> {LdWait, LdSlotWait, LdAdd} \<longleftrightarrow> l_proc l \<noteq> None) \<and>
    (d = DWait \<longrightarrow> l_at l \<in> {LdSlotWait, LdSlotNext})"

definition ld_linked :: "kernel \<Rightarrow> ld_t \<Rightarrow> bool" where
  "ld_linked k l \<longleftrightarrow> (l_at l = LdAdd \<longrightarrow> (\<forall>p. l_proc l = Some p \<longrightarrow> (\<exists>b. k_heap k p = Some b \<and> linked b)))"

definition sys_inv :: "config \<Rightarrow> system \<Rightarrow> bool" where
  "sys_inv cfg s \<longleftrightarrow> own (sys_k s) (num_cpus cfg) (holders cfg s) \<and>
    (\<forall>i < num_cpus cfg. cpu_inv cfg (sys_cpu s i)) \<and>
    ld_inv (sys_ld s) (d_pc (sys_timer s) (num_cpus cfg)) \<and>
    dev_list (sys_timer s) = rev [0..<num_cpus cfg + 1] \<and>
    reach (tinit [0..<num_cpus cfg + 1]) tstep (sys_timer s) \<and> ld_linked (sys_k s) (sys_ld s)"

lemma tstep_devs: "tstep s t \<Longrightarrow> dev_list t = dev_list s"
  by (erule tstepE) (simp_all add: next_slot_enter_def next_slot_leave_def detach_event_def timer_loop_def
      timer_visit_def timer_tick_def timer_release_def timer_round_end_def stop_timer_def)

lemma sched_start_ok:
  assumes "sched_start s"
  shows "sched_wf s" "sched_live h s" "ready s = {#}" "unique_ready s"
proof -
  obtain q where s: "s = init_scheduler q" "q_size (running_list q) = 0"
    using assms by (auto simp: sched_start_def)
  show "sched_wf s"
    using s by (auto simp: sched_wf_def init_scheduler_def q_wf_def)
  have l: "level s k = []" if "k < MAX_PRIO" for k
    using that by (simp add: s(1) level_def init_scheduler_def q_list_def)
  then show "sched_live h s" "ready s = {#}" by (auto simp: sched_live_def q_live_def level_def ready_def)
  then show "unique_ready s" by (simp add: unique_ready_def)
qed

lemma sys_inv_init:
  assumes "sinit cfg s" and "cfg_ok cfg"
  shows "sys_inv cfg s"
proof -
  have st: "sched_start (k_sched (sys_k s))" and h: "k_heap (sys_k s) = (\<lambda>_. None)"
    and c: "sys_cpu s = (\<lambda>_. \<lparr>c_proc = None, time_left = 0, c_at = AtTop\<rparr>)"
    and l: "sys_ld s = \<lparr>l_i = 0, l_proc = None, l_at = LdLoad\<rparr>"
    and t: "tinit [0..<num_cpus cfg + 1] (sys_timer s)"
    using assms(1) by (simp_all add: sinit_def)
  note st = sched_start_ok [OF st]
  have "holders cfg s = (\<lambda>_. None)" by (simp add: holders_def c l fun_eq_iff)
  then have "own (sys_k s) (num_cpus cfg) (holders cfg s)"
    using st by (intro ownI) (auto simp: sched_ok_def heap_wf_def h)
  moreover have "dev_list (sys_timer s) = rev [0..<num_cpus cfg + 1]"
    "d_pc (sys_timer s) (num_cpus cfg) = DWork"
    using t by (simp_all add: tinit_eq no_timer_def)
  ultimately show ?thesis
    using assms(2) reach_init [of "tinit [0..<num_cpus cfg + 1]" "sys_timer s" tstep] t
    by (simp add: sys_inv_def cpu_inv_def ld_inv_def ld_linked_def c l cfg_ok_def)
qed

text \<open>One step of a CPU.\<close>

lemma own_cpu_top:
  assumes o: "own k n H" and i: "i < n" "H i = c_proc c" and r: "cpu_top k c = Inr (k', c')"
  shows "own k' n (H(i := c_proc c'))"
proof (cases "c_proc c")
  case None
  then obtain p s where g: "get_proc (k_heap k) (k_sched k) = Inr (p, s)" "k' = k\<lparr>k_sched := s\<rparr>" "c_proc c' = p"
    using r by (auto simp: cpu_top_def rbind_Inr_iff)
  show ?thesis unfolding g(2,3) using own_get [OF o i(1) _ g(1)] i(2) None by simp
next
  case (Some p)
  then obtain b where b: "k_heap k p = Some b" using r by (auto simp: cpu_top_def rbind_Inr_iff pcb_at_Inr)
  have hp: "H i = Some p" "i \<le> n" using i Some by simp_all
  consider (fin) "pc b = code_size (pcb_code b)" | (put) "pc b \<noteq> code_size (pcb_code b)" "time_left c = 0"
    | (go) "pc b \<noteq> code_size (pcb_code b)" "time_left c \<noteq> 0" by blast
  then show ?thesis
  proof cases
    case fin
    then have "k' = free_pcb p k" "c_proc c' = None" using r Some b by (auto simp: cpu_top_def)
    then show ?thesis using own_free [OF o hp(2,1)] by simp
  next
    case put
    obtain h s where "enlist_running (k_heap k) (k_sched k) p = Inr (h, s)" "own (k\<lparr>k_heap := h, k_sched := s\<rparr>) n H"
      using own_enlist [OF o hp(2,1)] by blast
    then show ?thesis using put r Some b hp(1) by (auto simp: cpu_top_def fun_upd_idem)
  next
    case go
    then have "k' = k" "c_proc c' = Some p" using r Some b by (auto simp: cpu_top_def)
    then show ?thesis using o hp(1) by (simp add: fun_upd_idem)
  qed
qed

lemma own_cpu_step:
  assumes o: "own k n H" and i: "i < n" "H i = c_proc c" and inv: "cpu_inv cfg c"
    and r: "cpu_step u ts dn k c = Inr (k', c')"
  shows "own k' n (H(i := c_proc c'))"
proof -
  have same: "own k n (H(i := c_proc c))" using o i(2) by (simp add: fun_upd_idem)
  show ?thesis
  proof (cases "c_at c")
    case AtTop
    then show ?thesis using own_cpu_top [OF o i] r by (simp add: cpu_step_def)
  next
    case AtPut
    then obtain p s where p: "c_proc c = Some p" "put_mlq_proc (k_heap k) (k_sched k) p = Inr s"
      "k' = k\<lparr>k_sched := s\<rparr>" "c_proc c' = None"
      using r by (auto simp: cpu_step_def cpu_put_def rbind_Inr_iff deref_def split: option.splits)
    have hp: "i \<le> n" "H i = Some p" using i p(1) by simp_all
    then obtain b where b: "k_heap k p = Some b" "linked b" using ownD(3) [OF o hp] i(1) by auto
    show ?thesis using own_queue(1,3) [OF o hp b] p(2-4) by simp
  next
    case AtGet
    then obtain p s where g: "get_proc (k_heap k) (k_sched k) = Inr (p, s)" "k' = k\<lparr>k_sched := s\<rparr>" "c_proc c' = p"
      using r by (auto simp: cpu_step_def cpu_get_def rbind_Inr_iff)
    have "H i = None" using AtGet inv i(2) by (simp add: cpu_inv_def)
    then show ?thesis unfolding g(2,3) using own_get [OF o i(1) _ g(1)] by blast
  next
    case AtCheck
    then have "k' = k" "c_proc c' = c_proc c"
      using r by (auto simp: cpu_step_def cpu_check_def rbind_Inr_iff split: option.splits if_splits)
    then show ?thesis using same by simp
  next
    case AtRun
    then obtain p x where p: "c_proc c = Some p" "run u k p = Inr (x, k')" "c_proc c' = c_proc c"
      using r by (auto simp: cpu_step_def cpu_run_def rbind_Inr_iff deref_def split: option.splits)
    then have "own k' n H" using own_run [OF o i(1)] i(2) by simp
    then show ?thesis using p(3) i(2) by (simp add: fun_upd_idem)
  qed (use r same in \<open>simp_all add: cpu_step_def\<close>)
qed

lemma cpu_inv_step:
  assumes inv: "cpu_inv cfg c" and cfg: "cfg_ok cfg" and r: "cpu_step u (time_slot cfg) dn k c = Inr (k', c')"
  shows "cpu_inv cfg c'"
proof (cases "c_at c")
  case AtRun
  then have "i32 (time_left c - 1) = time_left c - 1"
    using inv cfg by (intro i32_id) (auto simp: cpu_inv_def cfg_ok_def)
  then show ?thesis
    using AtRun inv r by (auto simp: cpu_step_def cpu_run_def cpu_inv_def rbind_Inr_iff)
qed (use inv cfg r in \<open>auto simp: cpu_step_def cpu_top_def cpu_put_def cpu_get_def cpu_check_def cpu_inv_def cfg_ok_def
    rbind_Inr_iff split: option.splits if_splits\<close>)

lemma ld_linked_cpu:
  assumes o: "own k n H" and i: "i < n" "H i = c_proc c" and inv: "cpu_inv cfg c"
    and r: "cpu_step u ts dn k c = Inr (k', c')" and l: "ld_linked k l" "H n = l_proc l"
  shows "ld_linked k' l"
  unfolding ld_linked_def
proof (intro impI allI)
  fix p assume at: "l_at l = LdAdd" "l_proc l = Some p"
  let ?H = "H(Suc n := None)"
  have o': "own k (Suc n) ?H" using l at by (intro own_Suc [OF o]) (simp add: ld_linked_def)
  have "own k' (Suc n) (?H(i := c_proc c'))"
    using i by (intro own_cpu_step [OF o' _ _ inv r]) simp_all
  moreover have "(?H(i := c_proc c')) n = Some p" using i(1) l(2) at(2) by simp
  ultimately show "\<exists>b. k_heap k' p = Some b \<and> linked b"
    using ownD(3) [of k' "Suc n" "?H(i := c_proc c')" n p] by auto
qed

lemma holders_cpu: "i < num_cpus cfg \<Longrightarrow> holders cfg s i = c_proc (sys_cpu s i)"
  by (simp add: holders_def)

lemma holders_ld: "holders cfg s (num_cpus cfg) = l_proc (sys_ld s)"
  by (simp add: holders_def)

text \<open>The timer's part of a step is a step of the timer, or none.\<close>

lemma cpu_turn_timer:
  assumes "reach (tinit devs) tstep (sys_timer s)" and "i \<in> set (dev_list (sys_timer s))"
    and "d_pc (sys_timer s) i = DWork"
  shows "reach (tinit devs) tstep (sys_timer (cpu_turn i k c s))"
    and "dev_list (sys_timer (cpu_turn i k c s)) = dev_list (sys_timer s)"
    and "j \<noteq> i \<Longrightarrow> d_pc (sys_timer (cpu_turn i k c s)) j = d_pc (sys_timer s) j"
  using assms tstep.enter [of i "sys_timer s"] tstep.detach [of i "sys_timer s"]
  by (cases "c_at c"; fastforce simp: cpu_turn_def next_slot_enter_def detach_event_def
      intro: reach_step)+

lemma sys_inv_cpu:
  assumes inv: "sys_inv cfg s" and cfg: "cfg_ok cfg" and i: "i < num_cpus cfg" "d_pc (sys_timer s) i = DWork"
    and r: "cpu_step u (time_slot cfg) (sys_done s) (sys_k s) (sys_cpu s i) = Inr (k, c)"
  shows "sys_inv cfg (cpu_turn i k c s)"
proof -
  let ?t = "cpu_turn i k c s" and ?H = "holders cfg s"
  have o: "own (sys_k s) (num_cpus cfg) ?H" and ci: "cpu_inv cfg (sys_cpu s i)"
    and dev: "dev_list (sys_timer s) = rev [0..<num_cpus cfg + 1]"
    and re: "reach (tinit [0..<num_cpus cfg + 1]) tstep (sys_timer s)"
    using inv i(1) by (simp_all add: sys_inv_def)
  have H: "holders cfg ?t = ?H(i := c_proc c)"
    using i(1) by (auto simp: holders_def cpu_turn_def)
  have "i \<in> set (dev_list (sys_timer s))" using dev i(1) by simp
  note tm = cpu_turn_timer [OF re this i(2), where k = k and c = c]
  have "own k (num_cpus cfg) (?H(i := c_proc c))"
    by (rule own_cpu_step [OF o i(1) holders_cpu [OF i(1)] ci r])
  moreover have "ld_linked k (sys_ld s)"
    using inv by (intro ld_linked_cpu [OF o i(1) holders_cpu [OF i(1)] ci r _ holders_ld]) (simp add: sys_inv_def)
  moreover have "\<forall>j < num_cpus cfg. cpu_inv cfg (sys_cpu ?t j)"
    using inv cpu_inv_step [OF ci cfg r] by (simp add: sys_inv_def cpu_turn_def)
  moreover have "sys_ld ?t = sys_ld s" "sys_k ?t = k" by (simp_all add: cpu_turn_def)
  ultimately show ?thesis
    using inv tm(1,2) tm(3) [of "num_cpus cfg"] i(1) by (simp add: sys_inv_def H)
qed

lemma sys_inv_step:
  assumes inv: "sys_inv cfg s" and cfg: "cfg_ok cfg" and st: "sstep u j fs cfg s t"
  shows "sys_inv cfg t"
proof -
  let ?n = "num_cpus cfg" and ?H = "holders cfg s"
  have o: "own (sys_k s) ?n ?H" and cs: "\<forall>i < ?n. cpu_inv cfg (sys_cpu s i)"
    and ld: "ld_inv (sys_ld s) (d_pc (sys_timer s) ?n)"
    and dev: "dev_list (sys_timer s) = rev [0..<?n + 1]"
    and re: "reach (tinit [0..<?n + 1]) tstep (sys_timer s)"
    using inv by (simp_all add: sys_inv_def)
  have n: "?n \<in> set (dev_list (sys_timer s))" by (simp add: dev)
  note rs = reach_step [OF re]
  from st show ?thesis
  proof (cases rule: sstep.cases)
    case (cpu i k c)
    then show ?thesis using sys_inv_cpu [OF inv cfg] by simp
  next
    case (cpu_resume i)
    then have i: "i \<in> set (dev_list (sys_timer s))" by (simp add: dev)
    have "holders cfg t = ?H" using cpu_resume by (auto simp: holders_def)
    moreover have "cpu_inv cfg ((sys_cpu s i)\<lparr>c_at := AtTop\<rparr>)"
      using cs cpu_resume(2) by (simp add: cpu_inv_def)
    ultimately show ?thesis
      using inv cpu_resume rs [OF tstep.leave [OF i cpu_resume(3,4)]]
      by (simp add: sys_inv_def next_slot_leave_def)
  next
    case (ld_load p k l)
    then obtain b a where b: "load j fs (avail_pid (sys_k s)) (ld_path cfg ! l_i (sys_ld s)) = Inr (b, a)"
      "l_i (sys_ld s) < length (ld_path cfg)"
      "k = (sys_k s)\<lparr>k_heap := (k_heap (sys_k s))(p \<mapsto> b\<lparr>prio := ucast (ld_prio cfg ! l_i (sys_ld s))\<rparr>), avail_pid := a\<rparr>"
      "l = (sys_ld s)\<lparr>l_proc := Some p, l_at := LdWait\<rparr>"
      by (auto simp: ld_load_def rbind_Inr_iff split: if_splits)
    have "l_proc (sys_ld s) = None" using ld ld_load(2) by (simp add: ld_inv_def)
    moreover have "sound_pcb (b\<lparr>prio := ucast (ld_prio cfg ! l_i (sys_ld s))\<rparr>)"
      using cfg b(2) by (simp add: sound_pcb_def cfg_ok_def)
    moreover have "pcb_wf (b\<lparr>prio := ucast (ld_prio cfg ! l_i (sys_ld s))\<rparr>)"
      using load_wf [OF b(1)] by (simp add: pcb_wf_def)
    ultimately have "own k ?n (?H(?n := Some p))"
      unfolding b(3) by (intro own_new [OF o ld_load(4)]) (simp_all add: holders_ld)
    moreover have "holders cfg t = ?H(?n := Some p)" using ld_load(1) b(4) by (auto simp: holders_def)
    ultimately show ?thesis
      using inv ld_load b(4) by (simp add: sys_inv_def ld_inv_def ld_linked_def)
  next
    case (ld_end p k l)
    then have l: "l = (sys_ld s)\<lparr>l_at := LdExit\<rparr>"
      by (auto simp: ld_load_def rbind_Inr_iff split: if_splits)
    have "l_proc (sys_ld s) = None" using ld ld_end(2) by (simp add: ld_inv_def)
    moreover have "holders cfg t = ?H" using ld_end(1) l by (auto simp: holders_def)
    ultimately show ?thesis
      using inv ld_end l rs [OF tstep.detach [OF n ld_end(3)]]
      by (simp add: sys_inv_def ld_inv_def ld_linked_def detach_event_def)
  next
    case ld_wait
    then have "holders cfg t = ?H" by (auto simp: holders_def)
    then show ?thesis
      using inv ld_wait rs [OF tstep.enter [OF n ld_wait(3)]]
      by (simp add: sys_inv_def ld_inv_def ld_linked_def next_slot_enter_def)
  next
    case (ld_add m k l)
    then obtain p b h sc where p: "l_proc (sys_ld s) = Some p" "k_heap (sys_k s) p = Some b"
      "enlist_running ((k_heap (sys_k s))(p \<mapsto> b\<lparr>mm := init_mm u m\<rparr>)) (k_sched (sys_k s)) p = Inr (h, sc)"
      "k = (sys_k s)\<lparr>k_heap := h, k_sched := sc\<rparr>" "l = (sys_ld s)\<lparr>l_at := LdAdd\<rparr>"
      by (auto simp: ld_add_def rbind_Inr_iff deref_def pcb_at_Inr split: option.splits)
    let ?k = "(sys_k s)\<lparr>k_heap := (k_heap (sys_k s))(p \<mapsto> b\<lparr>mm := init_mm u m\<rparr>)\<rparr>"
    have hn: "?H ?n = Some p" using p(1) by (simp add: holders_ld)
    have "sound_pcb b" "pcb_wf b"
      using ownD(3) [OF o _ hn] p(2) own_sched(2) [OF o] by (auto simp: heap_wf_def)
    then have o': "own ?k ?n ?H" by (intro own_upd [OF o _ hn]) (simp_all add: sound_pcb_def)
    obtain b' where b': "h = (k_heap ?k)(p \<mapsto> link_queues b')" "own k ?n ?H"
      using own_enlist [OF o' _ hn] p(3,4) by auto
    then have "ld_linked k l" using p(1,4,5) by (simp add: ld_linked_def linked_def link_queues_def)
    moreover have "holders cfg t = ?H" using ld_add(1) p(5) by (auto simp: holders_def)
    ultimately show ?thesis
      using inv ld_add p(1,5) b'(2) by (simp add: sys_inv_def ld_inv_def)
  next
    case (ld_put k l)
    then obtain p sc where p: "l_proc (sys_ld s) = Some p" "add_mlq_proc (k_heap (sys_k s)) (k_sched (sys_k s)) p = Inr sc"
      "k = (sys_k s)\<lparr>k_sched := sc\<rparr>"
      "l = (sys_ld s)\<lparr>l_i := l_i (sys_ld s) + 1, l_proc := None, l_at := LdSlotNext\<rparr>"
      by (auto simp: ld_put_def rbind_Inr_iff deref_def split: option.splits)
    have hn: "?H ?n = Some p" using p(1) by (simp add: holders_ld)
    obtain b where b: "k_heap (sys_k s) p = Some b" "linked b"
      using inv p(1) ld_put(2) by (auto simp: sys_inv_def ld_linked_def)
    have "own k ?n (?H(?n := None))" using own_queue(2,3) [OF o _ hn b] p(2,3) by simp
    moreover have "holders cfg t = ?H(?n := None)" using ld_put(1) p(4) by (auto simp: holders_def)
    ultimately show ?thesis
      using inv ld_put p(4) rs [OF tstep.enter [OF n ld_put(3)]]
      by (simp add: sys_inv_def ld_inv_def ld_linked_def next_slot_enter_def)
  next
    case ld_resume
    have "holders cfg t = ?H" using ld_resume by (auto simp: holders_def)
    then show ?thesis
      using inv ld ld_resume rs [OF tstep.leave [OF n ld_resume(2,3)]]
      by (auto simp: sys_inv_def ld_inv_def ld_linked_def next_slot_leave_def)
  next
    case (timer t')
    have "holders cfg t = ?H" using timer(1) by (auto simp: holders_def)
    then show ?thesis
      using inv timer rs [OF timer(2)] tstep_devs [OF timer(2)] by (simp add: sys_inv_def)
  qed
qed

interpretation os: transition_system "sinit cfg" "sstep u j fs cfg" "\<lambda>s. cfg_ok cfg \<longrightarrow> sys_inv cfg s"
  for u j fs cfg
  by unfold_locales (auto intro: sys_inv_init sys_inv_step)

section \<open>What it gives\<close>

lemma sys_inv_reach: "reach (sinit cfg) (sstep u j fs cfg) s \<Longrightarrow> cfg_ok cfg \<Longrightarrow> sys_inv cfg s"
  using os.inv_reach by blast

lemma scheduler_part_returns:
  assumes inv: "sys_inv cfg s" and i: "i < num_cpus cfg" and "c_at (sys_cpu s i) \<in> {AtTop, AtPut, AtGet, AtCheck}"
  shows "\<exists>k c. cpu_step u (time_slot cfg) (sys_done s) (sys_k s) (sys_cpu s i) = Inr (k, c)"
proof -
  let ?k = "sys_k s" and ?c = "sys_cpu s i"
  have o: "own ?k (num_cpus cfg) (holders cfg s)" using inv by (simp add: sys_inv_def)
  then have "sched_wf (k_sched ?k)" "sched_live (k_heap ?k) (k_sched ?k)"
    by (simp_all add: own_def sched_ok_def)
  then obtain po sc where g: "get_proc (k_heap ?k) (k_sched ?k) = Inr (po, sc)"
    using get_proc_returns by blast
  show ?thesis
  proof (cases "c_proc ?c")
    case None
    moreover have "cpu_inv cfg ?c" using inv i by (simp add: sys_inv_def)
    ultimately show ?thesis
      using assms(3) g by (auto simp: cpu_step_def cpu_top_def cpu_get_def cpu_check_def cpu_inv_def)
  next
    case (Some p)
    then have h: "i \<le> num_cpus cfg" "holders cfg s i = Some p" using i by (simp_all add: holders_cpu)
    obtain b where b: "k_heap ?k p = Some b" "linked b" using ownD(3) [OF o h] i by auto
    obtain h' sc' where "enlist_running (k_heap ?k) (k_sched ?k) p = Inr (h', sc')"
      using own_enlist [OF o h] by auto
    then show ?thesis
      using assms(3) g b(1) Some own_queue(1) [OF o h b]
      by (auto simp: cpu_step_def cpu_top_def cpu_put_def cpu_get_def cpu_check_def deref_def)
  qed
qed

end
