(* ===== verification/Conserve.thy ===== *)
theory Conserve
  imports Os
begin

text \<open>
  No process is lost.  Together with the single owner of \<open>Os\<close>: as long as the
  configuration names no more processes than a ready queue has places, every PCB that was
  loaded and not freed is in a ready queue or held by a CPU or the loader, and no two PCBs
  share a process identifier.
\<close>

section \<open>What an operation keeps\<close>

definition pids :: "kernel \<Rightarrow> pcb_ptr \<rightharpoonup> u32" where
  "pids k p = map_option pid (k_heap k p)"

definition held :: "kernel \<Rightarrow> nat \<Rightarrow> (nat \<Rightarrow> pcb_ptr option) \<Rightarrow> pcb_ptr \<Rightarrow> bool" where
  "held k n H p \<longleftrightarrow> p \<in># ready (k_sched k) \<or> (\<exists>i \<le> n. H i = Some p)"

text \<open>
  From \<open>k\<close> with the holders \<open>H\<close> to \<open>k'\<close> with \<open>H'\<close>: no identifier changes, no block
  appears, and a block that stays is not let go.
\<close>

definition keeps_all :: "nat \<Rightarrow> kernel \<Rightarrow> (nat \<Rightarrow> pcb_ptr option) \<Rightarrow> kernel \<Rightarrow> (nat \<Rightarrow> pcb_ptr option) \<Rightarrow> bool" where
  "keeps_all n k H k' H' \<longleftrightarrow> pids k' \<subseteq>\<^sub>m pids k \<and> avail_pid k' = avail_pid k \<and>
    (\<forall>p. k_heap k' p \<noteq> None \<longrightarrow> held k n H p \<longrightarrow> held k' n H' p)"

lemma dom_pids [simp]: "dom (pids k) = dom (k_heap k)"
  by (auto simp: pids_def)

lemma pids_sub_dom: "pids k' \<subseteq>\<^sub>m pids k \<Longrightarrow> dom (k_heap k') \<subseteq> dom (k_heap k)"
  using map_le_implies_dom_le [of "pids k'" "pids k"] by simp

lemma pids_sched [simp]: "pids (k\<lparr>k_sched := s\<rparr>) = pids k"
  by (simp add: pids_def fun_eq_iff)

lemma held_drop:
  assumes "held k n H q" and "H i = Some p" and "q \<noteq> p"
    and "q \<in># ready (k_sched k) \<Longrightarrow> q \<in># ready (k_sched k')"
  shows "held k' n (H(i := None)) q"
  using assms unfolding held_def by (metis fun_upd_apply option.inject)

lemma keeps_all_refl [simp]: "keeps_all n k H k H"
  by (simp add: keeps_all_def)

lemma keeps_all_get:
  assumes o: "own k n H" and i: "i < n" "H i = None" and g: "get_proc (k_heap k) (k_sched k) = Inr (po, s')"
  shows "keeps_all n k H (k\<lparr>k_sched := s'\<rparr>) (H(i := po))"
proof -
  have wf: "sched_wf (k_sched k)" "sched_live (k_heap k) (k_sched k)"
    using own_sched(1) [OF o] by (simp_all add: sched_ok_def)
  have r: "p \<in># ready (k_sched k) \<Longrightarrow> p \<in># ready s' \<or> po = Some p" for p
  proof (cases po)
    case None
    then have "\<forall>k' < MAX_PRIO. level (k_sched k) k' = []" using get_proc_returns [OF wf] g by auto
    then have "ready (k_sched k) = {#}" by (simp add: ready_def)
    then show "p \<in># ready (k_sched k) \<Longrightarrow> ?thesis" by simp
  next
    case (Some q)
    then show "p \<in># ready (k_sched k) \<Longrightarrow> ?thesis" using get_proc_taken [OF wf g [unfolded Some]] by auto
  qed
  have "held (k\<lparr>k_sched := s'\<rparr>) n (H(i := po)) p" if h: "held k n H p" for p
  proof -
    consider "p \<in># ready s'" | "po = Some p" | j where "j \<le> n" "H j = Some p"
      using h r by (auto simp: held_def)
    then show ?thesis
    proof cases
      case 2
      then show ?thesis using i(1) by (auto simp: held_def intro: exI [of _ i])
    next
      case 3
      then have "j \<noteq> i" using i(2) by auto
      then show ?thesis using 3 by (auto simp: held_def)
    qed (simp add: held_def)
  qed
  then show ?thesis by (simp add: keeps_all_def)
qed

lemma keeps_all_free:
  assumes "H i = Some p"
  shows "keeps_all n k H (free_pcb p k) (H(i := None))"
proof -
  have "held (free_pcb p k) n (H(i := None)) q" if "held k n H q" "q \<noteq> p" for q
    using held_drop [OF that(1) assms that(2)] by (simp add: free_pcb_def)
  moreover have "pids (free_pcb p k) \<subseteq>\<^sub>m pids k"
    by (auto simp: map_le_def pids_def free_pcb_def)
  ultimately show ?thesis by (auto simp: keeps_all_def free_pcb_def)
qed

text \<open>A level has room for a process that is not in it when there are few enough blocks.\<close>

lemma level_room:
  assumes o: "own k n H" and i: "i \<le> n" "H i = Some p"
    and fin: "finite (dom (k_heap k))" "card (dom (k_heap k)) \<le> MAX_QUEUE_SIZE" and j: "j < MAX_PRIO"
  shows "length (level (k_sched k) j) < MAX_QUEUE_SIZE"
proof -
  let ?l = "level (k_sched k) j"
  have sub: "mset ?l \<subseteq># ready (k_sched k)"
    unfolding ready_def using j by (simp add: sum.remove [of _ j])
  have "count (mset ?l) q \<le> 1" for q
    using own_sched(1) [OF o] mset_subset_eq_count [OF sub, of q] le_trans
    unfolding sched_ok_def unique_ready_def by blast
  then have "distinct ?l" by (simp add: distinct_count_atmost_1 not_in_iff [symmetric] count_eq_zero_iff le_Suc_eq)
  then have "length ?l = card (set ?l)" by (simp add: distinct_card)
  moreover have "p \<notin> set ?l" using ownD(1) [OF o i] j by (auto simp: in_ready)
  moreover have "insert p (set ?l) \<subseteq> dom (k_heap k)"
    using ownD(3) [OF o i] own_ready [OF o] j by (auto simp: in_ready)
  then have "card (insert p (set ?l)) \<le> card (dom (k_heap k))" using fin(1) by (rule card_mono [rotated])
  ultimately show ?thesis using fin(2) by simp
qed

lemma keeps_all_list:
  assumes "k_heap k p = Some b"
  shows "keeps_all n k H (k\<lparr>k_heap := (k_heap k)(p \<mapsto> link_queues b), k_sched := listed (k_sched k) p\<rparr>) H"
proof -
  have "pids (k\<lparr>k_heap := (k_heap k)(p \<mapsto> link_queues b), k_sched := listed (k_sched k) p\<rparr>) = pids k"
    using assms by (auto simp: pids_def link_queues_def fun_eq_iff)
  then show ?thesis by (simp add: keeps_all_def held_def)
qed

lemma keeps_all_queue:
  assumes o: "own k n H" and i: "i \<le> n" "H i = Some p" and b: "k_heap k p = Some b" "linked b"
    and fin: "finite (dom (k_heap k))" "card (dom (k_heap k)) \<le> MAX_QUEUE_SIZE"
  shows "keeps_all n k H (k\<lparr>k_sched := queued (k_sched k) p (unat (prio b))\<rparr>) (H(i := None))"
proof -
  have lt: "unat (prio b) < MAX_PRIO" using ownD(3) [OF o i] b(1) by (auto simp: sound_pcb_def)
  then have rd: "ready (queued (k_sched k) p (unat (prio b))) = add_mset p (ready (k_sched k))"
    using ready_queued [OF lt] level_room [OF o i fin lt] by simp
  have "held (k\<lparr>k_sched := queued (k_sched k) p (unat (prio b))\<rparr>) n (H(i := None)) q" if "held k n H q" for q
    using held_drop [OF that i(2)] by (cases "q = p") (simp_all add: held_def rd)
  then show ?thesis by (simp add: keeps_all_def)
qed

lemma keeps_all_run:
  assumes o: "own k n H" and i: "i < n" "H i = Some p" and r: "run u k p = Inr (x, k')"
  shows "keeps_all n k H k' H"
proof -
  obtain b where b: "k_heap k p = Some b" "linked b" using ownD(3) [OF o, of i] i by auto
  have rel: "kill_rel k k'"
    using ownD(1) [OF o, of i] i by (intro kill_rel_run [OF r b own_sched(1) [OF o]]) simp
  note d = kill_relD [OF rel own_sched(1) [OF o]]
  have "pids k' \<subseteq>\<^sub>m pids k"
    unfolding map_le_def
  proof
    fix q assume "q \<in> dom (pids k')"
    then have q: "k_heap k' q \<noteq> None" by auto
    then obtain c where c: "k_heap k q = Some c" using d(4) by blast
    then obtain c' where "k_heap k' q = Some c'" "keeps_links c c'" using d(3) d(4) [OF q] by blast
    then show "pids k' q = pids k q" using c by (simp add: pids_def keeps_links_def)
  qed
  moreover have "avail_pid k' = avail_pid k" using rel by (simp add: kill_rel_def)
  ultimately show ?thesis using d(4) by (auto simp: keeps_all_def held_def)
qed

lemma keeps_all_cpu:
  assumes o: "own k n H" and i: "i < n" "H i = c_proc c" and inv: "cpu_inv cfg c"
    and fin: "finite (dom (k_heap k))" "card (dom (k_heap k)) \<le> MAX_QUEUE_SIZE"
    and r: "cpu_step u ts dn k c = Inr (k', c')"
  shows "keeps_all n k H k' (H(i := c_proc c'))"
proof -
  have same: "keeps_all n k H k (H(i := c_proc c))" using i(2) by (simp add: fun_upd_idem)
  have get: "keeps_all n k H k' (H(i := c_proc c'))"
    if "c_proc c = None" "get_proc (k_heap k) (k_sched k) = Inr (po, s)" "k' = k\<lparr>k_sched := s\<rparr>" "c_proc c' = po" for po s
    using keeps_all_get [OF o i(1) _ that(2)] that i(2) by simp
  have le: "i \<le> n" using i(1) by simp
  show ?thesis
  proof (cases "c_at c")
    case AtTop
    show ?thesis
    proof (cases "c_proc c")
      case None
      then show ?thesis using AtTop r get by (auto simp: cpu_step_def cpu_top_def rbind_Inr_iff)
    next
      case (Some p)
      then obtain b where b: "k_heap k p = Some b"
        using AtTop r by (auto simp: cpu_step_def cpu_top_def rbind_Inr_iff pcb_at_Inr)
      have "enlist_running (k_heap k) (k_sched k) p = Inr ((k_heap k)(p \<mapsto> link_queues b), listed (k_sched k) p)"
        using own_enlist [OF o le, of p] i(2) Some b by auto
      then show ?thesis
        using AtTop r b same Some keeps_all_free [of H i p n k] i keeps_all_list [OF b, of n H]
        by (auto simp: cpu_step_def cpu_top_def rbind_Inr_iff fun_upd_idem split: if_splits)
    qed
  next
    case AtPut
    then obtain p s where p: "c_proc c = Some p" "put_mlq_proc (k_heap k) (k_sched k) p = Inr s"
      "k' = k\<lparr>k_sched := s\<rparr>" "c_proc c' = None"
      using r by (auto simp: cpu_step_def cpu_put_def rbind_Inr_iff deref_def split: option.splits)
    have hp: "H i = Some p" using i p(1) by simp
    obtain b where b: "k_heap k p = Some b" "linked b" using ownD(3) [OF o le hp] i(1) by auto
    show ?thesis using keeps_all_queue [OF o le hp b fin] own_queue(1) [OF o le hp b] p(2-4) by simp
  next
    case AtGet
    then show ?thesis using r get inv by (auto simp: cpu_step_def cpu_get_def cpu_inv_def rbind_Inr_iff)
  next
    case AtCheck
    then have "k' = k" "c_proc c' = c_proc c"
      using r by (auto simp: cpu_step_def cpu_check_def rbind_Inr_iff split: option.splits if_splits)
    then show ?thesis using same by simp
  next
    case AtRun
    then obtain p x where p: "c_proc c = Some p" "run u k p = Inr (x, k')" "c_proc c' = c_proc c"
      using r by (auto simp: cpu_step_def cpu_run_def rbind_Inr_iff deref_def split: option.splits)
    then show ?thesis
      using keeps_all_run [OF o i(1) _ p(2)] i(2) by (simp add: fun_upd_idem)
  qed (use r same in \<open>simp_all add: cpu_step_def\<close>)
qed

section \<open>The system\<close>

text \<open>The number of processes the loader has made.\<close>

definition loaded :: "system \<Rightarrow> nat" where
  "loaded s = l_i (sys_ld s) + (if l_proc (sys_ld s) = None then 0 else 1)"

definition ids_ok :: "nat \<Rightarrow> kernel \<Rightarrow> bool" where
  "ids_ok m k \<longleftrightarrow> finite (dom (k_heap k)) \<and> card (dom (k_heap k)) \<le> m \<and> avail_pid k = of_nat (m + 1) \<and>
    inj_on (pids k) (dom (k_heap k)) \<and> (\<forall>p i. pids k p = Some i \<longrightarrow> 1 \<le> unat i \<and> unat i \<le> m)"

definition conserved :: "config \<Rightarrow> system \<Rightarrow> bool" where
  "conserved cfg s \<longleftrightarrow> loaded s \<le> length (ld_path cfg) \<and> ids_ok (loaded s) (sys_k s) \<and>
    (\<forall>p. k_heap (sys_k s) p \<noteq> None \<longrightarrow> held (sys_k s) (num_cpus cfg) (holders cfg s) p)"

lemma ids_ok_sub:
  assumes "ids_ok m k" and "pids k' \<subseteq>\<^sub>m pids k" and "avail_pid k' = avail_pid k"
  shows "ids_ok m k'"
proof -
  have sub: "dom (k_heap k') \<subseteq> dom (k_heap k)" by (rule pids_sub_dom [OF assms(2)])
  have eq: "q \<in> dom (k_heap k') \<Longrightarrow> pids k' q = pids k q" for q
    using assms(2) by (simp add: map_le_def)
  have "inj_on (pids k') (dom (k_heap k'))"
    using assms(1) sub eq unfolding ids_ok_def inj_on_def by (metis subsetD)
  moreover have "pids k p = Some i" if "pids k' p = Some i" for p i
    using that assms(2) by (auto simp: map_le_def dom_def)
  moreover have "finite (dom (k_heap k))" using assms(1) by (simp add: ids_ok_def)
  then have "finite (dom (k_heap k'))" "card (dom (k_heap k')) \<le> card (dom (k_heap k))"
    using sub finite_subset card_mono by blast+
  ultimately show ?thesis using assms(1,3) unfolding ids_ok_def by (metis order_trans)
qed

lemma conserved_keeps:
  assumes "conserved cfg s" and "keeps_all (num_cpus cfg) (sys_k s) (holders cfg s) (sys_k t) (holders cfg t)"
    and "loaded t = loaded s"
  shows "conserved cfg t"
proof -
  have "k_heap (sys_k s) p \<noteq> None" if "k_heap (sys_k t) p \<noteq> None" for p
    using that pids_sub_dom [of "sys_k t" "sys_k s"] assms(2) by (auto simp: keeps_all_def)
  then show ?thesis
    using assms ids_ok_sub [of "loaded s" "sys_k s" "sys_k t"] unfolding conserved_def keeps_all_def by metis
qed

lemma conserved_init: "sinit cfg s \<Longrightarrow> conserved cfg s"
  by (simp add: sinit_def conserved_def loaded_def ids_ok_def pids_def)

text \<open>A new block with the next identifier.\<close>

lemma ids_ok_new:
  assumes ids: "ids_ok m k" and p: "k_heap k p = None" and b: "pid b = avail_pid k" and m: "m + 2 < 4294967296"
  shows "ids_ok (m + 1) (k\<lparr>k_heap := (k_heap k)(p \<mapsto> b), avail_pid := avail_pid k + 1\<rparr>)"
proof -
  let ?k = "k\<lparr>k_heap := (k_heap k)(p \<mapsto> b), avail_pid := avail_pid k + 1\<rparr>"
  have pd: "pids ?k = (pids k)(p \<mapsto> avail_pid k)" by (simp add: pids_def fun_eq_iff b)
  have av: "unat (avail_pid k) = m + 1"
    using ids m unfolding ids_ok_def by (simp add: unat_of_nat take_bit_nat_eq_self del: of_nat_Suc of_nat_add)
  have old: "pids k q = Some i \<Longrightarrow> 1 \<le> unat i \<and> unat i \<le> m" for q i
    using ids by (simp add: ids_ok_def)
  have new: "pids k q \<noteq> Some (avail_pid k)" for q using old [of q "avail_pid k"] av by auto
  have inj: "inj_on (pids k) (dom (k_heap k))" using ids by (simp add: ids_ok_def)
  have "inj_on (pids ?k) (dom (k_heap ?k))"
  proof (rule inj_onI)
    fix x y assume "x \<in> dom (k_heap ?k)" "y \<in> dom (k_heap ?k)" "pids ?k x = pids ?k y"
    then show "x = y"
      using new [of x] new [of y] inj_onD [OF inj, of x y] unfolding pd by (cases "x = p"; cases "y = p") auto
  qed
  moreover have "1 \<le> unat i \<and> unat i \<le> m + 1" if "pids ?k q = Some i" for q i
    using that old [of q i] av by (auto simp: pd split: if_splits)
  ultimately show ?thesis
    using ids p by (simp add: ids_ok_def domIff)
qed

lemma conserved_step:
  assumes inv: "conserved cfg s" and sys: "sys_inv cfg s" and cfg: "length (ld_path cfg) \<le> MAX_QUEUE_SIZE"
    and step: "sstep u j fs cfg s t"
  shows "conserved cfg t"
proof -
  let ?n = "num_cpus cfg" and ?k = "sys_k s" and ?H = "holders cfg s"
  have o: "own ?k ?n ?H" and ld: "ld_inv (sys_ld s) (d_pc (sys_timer s) ?n)"
    and ci: "\<forall>i < ?n. cpu_inv cfg (sys_cpu s i)"
    using sys by (simp_all add: sys_inv_def)
  have lo: "loaded s \<le> length (ld_path cfg)" and ids: "ids_ok (loaded s) ?k" using inv by (simp_all add: conserved_def)
  have fin: "finite (dom (k_heap ?k))" "card (dom (k_heap ?k)) \<le> MAX_QUEUE_SIZE"
    using lo ids cfg by (simp_all add: ids_ok_def)
  have still: "conserved cfg t" if "sys_k t = ?k" "holders cfg t = ?H" "loaded t = loaded s"
    using inv that by (simp add: conserved_def)
  from step show ?thesis
  proof cases
    case (cpu i k c)
    then have "holders cfg t = ?H(i := c_proc c)" by (auto simp: holders_def cpu_turn_def)
    moreover have "keeps_all ?n ?k ?H k (?H(i := c_proc c))"
      using keeps_all_cpu [OF o cpu(2) holders_cpu [OF cpu(2)] _ fin cpu(5), of cfg] ci cpu(2) by blast
    ultimately show ?thesis
      using cpu(1) by (intro conserved_keeps [OF inv]) (simp_all add: cpu_turn_def loaded_def)
  next
    case (ld_load p k l)
    then obtain b a where b: "load j fs (avail_pid ?k) (ld_path cfg ! l_i (sys_ld s)) = Inr (b, a)"
      "l_i (sys_ld s) < length (ld_path cfg)"
      "k = ?k\<lparr>k_heap := (k_heap ?k)(p \<mapsto> b\<lparr>prio := ucast (ld_prio cfg ! l_i (sys_ld s))\<rparr>), avail_pid := a\<rparr>"
      "l = (sys_ld s)\<lparr>l_proc := Some p, l_at := LdWait\<rparr>"
      by (auto simp: ld_load_def rbind_Inr_iff split: if_splits)
    have none: "l_proc (sys_ld s) = None" using ld ld_load(2) by (simp add: ld_inv_def)
    have "a = avail_pid ?k + 1" "pid b = avail_pid ?k" using load_wf [OF b(1)] by simp_all
    moreover have "loaded s = l_i (sys_ld s)" "loaded t = loaded s + 1"
      using none ld_load(1) b(4) by (simp_all add: loaded_def)
    ultimately have "ids_ok (loaded t) k"
      unfolding b(3) using ids_ok_new [OF ids ld_load(4)] lo cfg by (simp add: MAX_QUEUE_SIZE_def)
    moreover have "held k ?n (holders cfg t) q" if "k_heap k q \<noteq> None" for q
    proof (cases "q = p")
      case True
      then show ?thesis using ld_load(1) b(4) by (auto simp: held_def holders_def)
    next
      case False
      then have "held ?k ?n ?H q" using that inv b(3) by (auto simp: conserved_def)
      then show ?thesis
        using ld_load(1) b(3) none by (auto simp: held_def holders_def split: if_splits)
    qed
    ultimately show ?thesis
      using ld_load(1) b(2) \<open>loaded s = l_i (sys_ld s)\<close> \<open>loaded t = loaded s + 1\<close> by (simp add: conserved_def)
  next
    case (ld_end p k l)
    then have "l = (sys_ld s)\<lparr>l_at := LdExit\<rparr>"
      by (auto simp: ld_load_def rbind_Inr_iff split: if_splits)
    then show ?thesis using ld_end(1) by (intro still) (auto simp: holders_def loaded_def)
  next
    case (ld_add m k l)
    then obtain p b h sc where p: "l_proc (sys_ld s) = Some p" "k_heap ?k p = Some b"
      "enlist_running ((k_heap ?k)(p \<mapsto> b\<lparr>mm := init_mm u m\<rparr>)) (k_sched ?k) p = Inr (h, sc)"
      "k = ?k\<lparr>k_heap := h, k_sched := sc\<rparr>" "l = (sys_ld s)\<lparr>l_at := LdAdd\<rparr>"
      by (auto simp: ld_add_def rbind_Inr_iff deref_def pcb_at_Inr split: option.splits)
    let ?b = "b\<lparr>mm := init_mm u m\<rparr>"
    have "\<not> queue_lock (k_sched ?k)" using own_sched(1) [OF o] by (simp add: sched_ok_def sched_wf_def)
    then have hs: "h = (k_heap ?k)(p \<mapsto> link_queues ?b)" "sc = listed (k_sched ?k) p"
      using p(3) enlist_running_ok [of "k_sched ?k" "(k_heap ?k)(p \<mapsto> ?b)" p ?b] by simp_all
    have "pids k = pids ?k" using p(2) by (auto simp: p(4) hs pids_def link_queues_def fun_eq_iff)
    moreover have "k_heap k q \<noteq> None \<longleftrightarrow> k_heap ?k q \<noteq> None" "ready (k_sched k) = ready (k_sched ?k)" for q
      using p(2) by (simp_all add: p(4) hs)
    ultimately have "keeps_all ?n ?k ?H k ?H" by (simp add: keeps_all_def held_def p(4))
    moreover have "holders cfg t = ?H" using ld_add(1) p(5) by (auto simp: holders_def)
    ultimately show ?thesis
      using ld_add(1) p(5) by (intro conserved_keeps [OF inv]) (simp_all add: loaded_def)
  next
    case (ld_put k l)
    then obtain p sc where p: "l_proc (sys_ld s) = Some p" "add_mlq_proc (k_heap ?k) (k_sched ?k) p = Inr sc"
      "k = ?k\<lparr>k_sched := sc\<rparr>"
      "l = (sys_ld s)\<lparr>l_i := l_i (sys_ld s) + 1, l_proc := None, l_at := LdSlotNext\<rparr>"
      by (auto simp: ld_put_def rbind_Inr_iff deref_def split: option.splits)
    have hn: "?H ?n = Some p" using p(1) by (simp add: holders_ld)
    obtain b where b: "k_heap ?k p = Some b" "linked b"
      using sys p(1) ld_put(2) by (auto simp: sys_inv_def ld_linked_def)
    have "keeps_all ?n ?k ?H k (?H(?n := None))"
      using keeps_all_queue [OF o _ hn b fin] own_queue(2) [OF o _ hn b] p(2,3) by simp
    moreover have "holders cfg t = ?H(?n := None)" using ld_put(1) p(4) by (auto simp: holders_def)
    ultimately show ?thesis
      using ld_put(1) p(1,4) by (intro conserved_keeps [OF inv]) (simp_all add: loaded_def)
  qed (rule still; auto simp: holders_def loaded_def)+
qed

lemma conserved_reach:
  assumes "reach (sinit cfg) (sstep u j fs cfg) s" and "cfg_ok cfg" and "length (ld_path cfg) \<le> MAX_QUEUE_SIZE"
  shows "conserved cfg s"
  by (rule os.reach_strengthen [OF _ _ assms(1)]) (auto intro: conserved_init conserved_step simp: assms(2,3))

end
