(* ===== verification/Phases.thy ===== *)
theory Phases
  imports Conserve
begin

text \<open>
  The threads' control state (\<open>src/os.c\<close> with \<open>src/timer.c\<close>): where a thread stands in its
  routine agrees with what the timer knows of it.  From that follow the time slot
  discipline, that the threads never block each other for good, and that a CPU which is
  idle when the last process has ended never leaves its loop.
\<close>

section \<open>Where the threads stand\<close>

fun cpu_phase :: "dev_pc \<Rightarrow> cpu_at \<Rightarrow> bool" where
  "cpu_phase DWork a \<longleftrightarrow> a \<noteq> AtSlot \<and> a \<noteq> AtExit"
| "cpu_phase DWait a \<longleftrightarrow> a = AtSlot"
| "cpu_phase DExit a \<longleftrightarrow> a = AtExit"

fun ld_phase :: "dev_pc \<Rightarrow> ld_at \<Rightarrow> bool" where
  "ld_phase DWork a \<longleftrightarrow> a = LdLoad \<or> a = LdWait \<or> a = LdAdd"
| "ld_phase DWait a \<longleftrightarrow> a = LdSlotWait \<or> a = LdSlotNext"
| "ld_phase DExit a \<longleftrightarrow> a = LdExit"

definition phase_inv :: "config \<Rightarrow> system \<Rightarrow> bool" where
  "phase_inv cfg s \<longleftrightarrow>
    (\<forall>i < num_cpus cfg. cpu_phase (d_pc (sys_timer s) i) (c_at (sys_cpu s i))) \<and>
    ld_phase (d_pc (sys_timer s) (num_cpus cfg)) (l_at (sys_ld s)) \<and>
    (sys_done s \<longleftrightarrow> l_at (sys_ld s) = LdExit)"

lemma phase_cpu: "phase_inv cfg s \<Longrightarrow> i < num_cpus cfg \<Longrightarrow> cpu_phase (d_pc (sys_timer s) i) (c_at (sys_cpu s i))"
  by (simp add: phase_inv_def)

lemma phase_ld: "phase_inv cfg s \<Longrightarrow> ld_phase (d_pc (sys_timer s) (num_cpus cfg)) (l_at (sys_ld s))"
  by (simp add: phase_inv_def)

lemma phase_init: "sinit cfg s \<Longrightarrow> phase_inv cfg s"
  by (simp add: sinit_def phase_inv_def tinit_eq no_timer_def)

lemma cpu_turn_phase:
  assumes "d_pc (sys_timer s) i = DWork"
  shows "cpu_phase (d_pc (sys_timer (cpu_turn i k c s)) i) (c_at c)"
  using assms by (cases "c_at c") (simp_all add: cpu_turn_def next_slot_enter_def detach_event_def)

lemma cpu_turn_others: "j \<noteq> i \<Longrightarrow> d_pc (sys_timer (cpu_turn i k c s)) j = d_pc (sys_timer s) j"
  by (cases "c_at c") (simp_all add: cpu_turn_def next_slot_enter_def detach_event_def)

lemma phase_step:
  assumes inv: "phase_inv cfg s" and step: "sstep u j fs cfg s t"
  shows "phase_inv cfg t"
  using step
proof cases
  case (cpu i k c)
  then show ?thesis
    using inv cpu_turn_phase [of s i k c] cpu_turn_others [of _ i k c s]
    by (auto simp: phase_inv_def cpu_turn_def)
next
  case (ld_load p k l)
  then show ?thesis
    using inv by (auto simp: phase_inv_def ld_load_def rbind_Inr_iff split: if_splits)
next
  case (ld_end p k l)
  then show ?thesis
    using inv by (auto simp: phase_inv_def ld_load_def detach_event_def rbind_Inr_iff split: if_splits)
next
  case (ld_add m k l)
  then show ?thesis
    using inv by (auto simp: phase_inv_def ld_add_def rbind_Inr_iff)
next
  case (ld_put k l)
  then show ?thesis
    using inv by (auto simp: phase_inv_def ld_put_def next_slot_enter_def rbind_Inr_iff)
qed (use inv in \<open>auto simp: phase_inv_def next_slot_enter_def next_slot_leave_def\<close>)

interpretation phases: transition_system "sinit cfg" "sstep u j fs cfg" "phase_inv cfg" for u j fs cfg
  by unfold_locales (auto intro: phase_init phase_step)

section \<open>The time slot\<close>

text \<open>
  What one step of a CPU does to its time slot: an instruction takes one unit, a dispatch
  starts a full slot, and a process is given up at its end or at the end of its slot only.
\<close>

definition at_end :: "kernel \<Rightarrow> pcb_ptr \<Rightarrow> bool" where
  "at_end k p \<longleftrightarrow> (\<exists>b. k_heap k p = Some b \<and> pc b = code_size (pcb_code b))"

definition slot_step :: "config \<Rightarrow> kernel \<Rightarrow> cpu_t \<Rightarrow> cpu_t \<Rightarrow> bool" where
  "slot_step cfg k c c' \<longleftrightarrow>
    (c_at c = AtRun \<and> c_at c' \<noteq> AtRun \<longrightarrow> c_proc c' = c_proc c \<and> time_left c' = time_left c - 1) \<and>
    (c_at c \<noteq> AtRun \<and> c_at c' = AtRun \<longrightarrow>
       time_left c' = (if time_left c = 0 then time_slot cfg else time_left c)) \<and>
    (\<forall>p. c_proc c = Some p \<and> c_proc c' \<noteq> Some p \<longrightarrow> time_left c = 0 \<or> at_end k p)"

lemma slot_step_refl [simp]: "slot_step cfg k c c"
  by (simp add: slot_step_def)

lemma slot_step_cpu:
  assumes inv: "cpu_inv cfg c" and cfg: "cfg_ok cfg" and r: "cpu_step u (time_slot cfg) dn k c = Inr (k', c')"
  shows "slot_step cfg k c c'"
proof (cases "c_at c")
  case AtRun
  then have "i32 (time_left c - 1) = time_left c - 1"
    using inv cfg by (intro i32_id) (auto simp: cpu_inv_def cfg_ok_def)
  then show ?thesis
    using AtRun r by (auto simp: slot_step_def cpu_step_def cpu_run_def rbind_Inr_iff)
qed (use inv cfg r in \<open>auto simp: slot_step_def at_end_def pcb_at_def cpu_step_def cpu_top_def cpu_put_def cpu_get_def cpu_check_def
    cpu_inv_def rbind_Inr_iff deref_def split: option.splits if_splits\<close>)

lemma slot_step_sys:
  assumes inv: "cpu_inv cfg (sys_cpu s i)" and cfg: "cfg_ok cfg" and ph: "phase_inv cfg s"
    and step: "sstep u j fs cfg s t"
  shows "slot_step cfg (sys_k s) (sys_cpu s i) (sys_cpu t i)"
  using step
proof cases
  case (cpu i' k c)
  then show ?thesis
    using slot_step_cpu [OF inv cfg, of u "sys_done s" "sys_k s" k c] by (cases "i = i'") (simp_all add: cpu_turn_def)
next
  case (cpu_resume i')
  then show ?thesis using phase_cpu [OF ph, of i'] by (simp add: slot_step_def)
qed simp_all

section \<open>Some thread can always go on\<close>

text \<open>What can stop a thread that is not waiting: a fault of the instruction, or of the loader's input.\<close>

definition cpu_faults :: "uninit \<Rightarrow> system \<Rightarrow> nat \<Rightarrow> bool" where
  "cpu_faults u s i \<longleftrightarrow> c_at (sys_cpu s i) = AtRun \<and> (\<exists>e. cpu_run u (sys_k s) (sys_cpu s i) = Inl e)"

definition load_faults :: "load_junk \<Rightarrow> (string \<Rightarrow> string option) \<Rightarrow> config \<Rightarrow> system \<Rightarrow> bool" where
  "load_faults j fs cfg s \<longleftrightarrow> l_at (sys_ld s) = LdLoad \<and> l_i (sys_ld s) < length (ld_path cfg) \<and>
    (\<exists>e. load j fs (avail_pid (sys_k s)) (ld_path cfg ! l_i (sys_ld s)) = Inl e)"

lemma cpu_can_go_on:
  assumes inv: "sys_inv cfg s" and ph: "phase_inv cfg s" and i: "i < num_cpus cfg" "d_pc (sys_timer s) i = DWork"
  shows "(\<exists>t. sstep u j fs cfg s t) \<or> cpu_faults u s i"
proof -
  have at: "c_at (sys_cpu s i) \<notin> {AtSlot, AtExit}" using phase_cpu [OF ph i(1)] i(2) by simp
  have "(\<exists>k c. cpu_step u (time_slot cfg) (sys_done s) (sys_k s) (sys_cpu s i) = Inr (k, c)) \<or> cpu_faults u s i"
  proof (cases "c_at (sys_cpu s i) = AtRun")
    case True
    then show ?thesis
      by (cases "cpu_run u (sys_k s) (sys_cpu s i)") (auto simp: cpu_faults_def cpu_step_def)
  next
    case False
    then have "c_at (sys_cpu s i) \<in> {AtTop, AtPut, AtGet, AtCheck}" using at by (cases "c_at (sys_cpu s i)") auto
    then show ?thesis using scheduler_part_returns [OF inv i(1)] by blast
  qed
  then show ?thesis using sstep.cpu [OF i at] by blast
qed

lemma loader_can_go_on:
  assumes inv: "sys_inv cfg s" and ph: "phase_inv cfg s" and w: "d_pc (sys_timer s) (num_cpus cfg) = DWork"
    and room: "k_heap (sys_k s) q = None"
  shows "(\<exists>t. sstep u j fs cfg s t) \<or> load_faults j fs cfg s"
proof (cases "l_at (sys_ld s) = LdLoad")
  case True
  show ?thesis
  proof (cases "ld_load j fs cfg q (sys_k s) (sys_ld s)")
    case (Inl e)
    then show ?thesis using True by (auto simp: load_faults_def ld_load_def rbind_Inl_iff split: if_splits)
  next
    case (Inr y)
    obtain b k l where "y = (b, k, l)" by (cases y)
    then show ?thesis
      using sstep.ld_load [OF True w room, of j fs k l u] sstep.ld_end [OF True w, of j fs q k l u] Inr
      by (cases b) auto
  qed
next
  case False
  have o: "own (sys_k s) (num_cpus cfg) (holders cfg s)" and ld: "ld_inv (sys_ld s) (d_pc (sys_timer s) (num_cpus cfg))"
    and lk: "ld_linked (sys_k s) (sys_ld s)"
    using inv by (simp_all add: sys_inv_def)
  have at: "l_at (sys_ld s) = LdWait \<or> l_at (sys_ld s) = LdAdd" using False phase_ld [OF ph] w by simp
  then obtain p where p: "l_proc (sys_ld s) = Some p" using ld by (auto simp: ld_inv_def)
  have h: "holders cfg s (num_cpus cfg) = Some p" using p by (simp add: holders_ld)
  obtain b where b: "k_heap (sys_k s) p = Some b" using ownD(3) [OF o _ h] by auto
  from at show ?thesis
  proof
    assume at: "l_at (sys_ld s) = LdWait"
    define m :: mm_struct where "m = undefined"
    have "\<not> queue_lock (k_sched (sys_k s))" using own_sched(1) [OF o] by (simp add: sched_ok_def sched_wf_def)
    then obtain k l where "ld_add u m (sys_k s) (sys_ld s) = Inr (k, l)"
      using p b by (simp add: ld_add_def deref_def enlist_running_ok)
    then show ?thesis using sstep.ld_wait [OF at w] sstep.ld_add [OF at w] by blast
  next
    assume at: "l_at (sys_ld s) = LdAdd"
    then have "linked b" using lk p b by (auto simp: ld_linked_def)
    then obtain k l where "ld_put (sys_k s) (sys_ld s) = Inr (k, l)"
      using own_queue(2) [OF o _ h b] p by (simp add: ld_put_def deref_def)
    then show ?thesis using sstep.ld_put [OF at w] by blast
  qed
qed

text \<open>A timer step of the timer thread itself leaves the devices where they are.\<close>

lemma timer_thread_step:
  assumes "tstep (sys_timer s) t" and "d_pc t = d_pc (sys_timer s)"
  shows "\<exists>t. sstep u j fs cfg s t"
  using sstep.timer [OF assms] by blast

lemma someone_can_go_on:
  assumes inv: "sys_inv cfg s" and ph: "phase_inv cfg s" and run: "t_pc (sys_timer s) \<noteq> TStopped"
    and room: "k_heap (sys_k s) q = None"
  shows "(\<exists>t. sstep u j fs cfg s t) \<or> (\<exists>i < num_cpus cfg. cpu_faults u s i) \<or> load_faults j fs cfg s"
proof -
  let ?T = "sys_timer s" and ?n = "num_cpus cfg"
  have tv: "tinv ?T" and dev: "dev_list ?T = rev [0..<?n + 1]"
    using inv timer.inv_reach by (auto simp: sys_inv_def)
  show ?thesis
  proof (cases "t_pc ?T")
    case TLoop
    then show ?thesis using timer_thread_step [OF tstep.head [OF TLoop]] by (simp add: timer_loop_def)
  next
    case (TCollect rest f e)
    show ?thesis
    proof (cases rest)
      case Nil
      then have pc: "t_pc ?T = TCollect [] f e" using TCollect by simp
      then show ?thesis using timer_thread_step [OF tstep.tick [OF pc]] by (simp add: timer_tick_def)
    next
      case (Cons d rest')
      then have pc: "t_pc ?T = TCollect (d # rest') f e" using TCollect by simp
      have d: "d \<in> set (dev_list ?T)" using tv TCollect Cons by (auto simp: tinv_def)
      then have le: "d \<le> ?n" by (auto simp: dev)
      show ?thesis
      proof (cases "t_done ?T d \<or> t_fsh ?T d")
        case True
        then show ?thesis using timer_thread_step [OF tstep.visit [OF pc]] by (simp add: timer_visit_def)
      next
        case False
        then have "d_pc ?T d \<noteq> DExit" using tv d by (auto simp: tinv_def)
        then consider (work) "d_pc ?T d = DWork" | (wait) "d_pc ?T d = DWait" by (cases "d_pc ?T d") auto
        then show ?thesis
        proof cases
          case work
          then show ?thesis
            using cpu_can_go_on [OF inv ph, of d u j fs] loader_can_go_on [OF inv ph _ room, of u j fs] le
            by (cases "d = ?n") auto
        next
          case wait
          then show ?thesis
            using sstep.cpu_resume [of d cfg s] sstep.ld_resume [of s cfg] False le
            by (cases "d = ?n") (force simp: le_less)+
        qed
      qed
    qed
  next
    case (TRelease rest f e)
    show ?thesis
    proof (cases rest)
      case Nil
      then have pc: "t_pc ?T = TRelease [] f e" using TRelease by simp
      then show ?thesis using timer_thread_step [OF tstep.round_end [OF pc]] by (simp add: timer_round_end_def)
    next
      case (Cons d rest')
      then have pc: "t_pc ?T = TRelease (d # rest') f e" using TRelease by simp
      then show ?thesis using timer_thread_step [OF tstep.release [OF pc]] by (simp add: timer_release_def)
    qed
  qed (use run in simp)
qed

section \<open>An idle CPU\<close>

text \<open>
  The loader has ended, no process is left, and CPU \<open>i\<close> is at the head of its loop, or in
  the slot it spends there.
\<close>

definition nothing_left :: "config \<Rightarrow> nat \<Rightarrow> system \<Rightarrow> bool" where
  "nothing_left cfg i s \<longleftrightarrow> l_at (sys_ld s) = LdExit \<and> ready (k_sched (sys_k s)) = {#} \<and>
    (\<forall>i < num_cpus cfg. c_proc (sys_cpu s i) = None) \<and> c_at (sys_cpu s i) \<in> {AtTop, AtSlot}"

lemma cpu_step_idle:
  assumes wf: "sched_wf (k_sched k)" "sched_live (k_heap k) (k_sched k)" and r: "ready (k_sched k) = {#}"
    and idle: "c_proc c = None" and step: "cpu_step u ts dn k c = Inr (k', c')"
  shows "ready (k_sched k') = {#} \<and> c_proc c' = None \<and> (c_at c = AtTop \<longrightarrow> c_at c' = AtSlot)"
proof -
  have none: "\<forall>j < MAX_PRIO. level (k_sched k) j = []"
    using r by (simp add: ready_empty)
  let ?s = "(k_sched k)\<lparr>curr_prio := 0, curr_slot := 0\<rparr>"
  have "get_proc (k_heap k) (k_sched k) = Inr (None, ?s)" by (rule get_proc_None [OF wf(1) none])
  moreover have "ready ?s = {#}" using none by (simp add: ready_def level_def)
  ultimately show ?thesis
    using idle step r
    by (cases "c_at c") (auto simp: cpu_step_def cpu_top_def cpu_put_def cpu_get_def cpu_check_def cpu_run_def deref_def)
qed

lemma nothing_left_step:
  assumes no: "nothing_left cfg i s" and inv: "sys_inv cfg s" and ph: "phase_inv cfg s" and i: "i < num_cpus cfg"
    and step: "sstep u j fs cfg s t"
  shows "nothing_left cfg i t"
proof -
  have "sched_wf (k_sched (sys_k s))" "sched_live (k_heap (sys_k s)) (k_sched (sys_k s))"
    using inv by (simp_all add: sys_inv_def own_def sched_ok_def)
  note idle = cpu_step_idle [OF this]
  have ld: "d_pc (sys_timer s) (num_cpus cfg) = DExit"
    using no phase_ld [OF ph] by (cases "d_pc (sys_timer s) (num_cpus cfg)") (auto simp: nothing_left_def)
  from step show ?thesis
  proof cases
    case (cpu i' k c)
    then show ?thesis
      using no idle [of "sys_cpu s i'" u "time_slot cfg" "sys_done s" k c]
      by (auto simp: nothing_left_def cpu_turn_def)
  qed (use no ld in \<open>auto simp: nothing_left_def\<close>)
qed

lemma nothing_left_forever:
  assumes "(sstep u j fs cfg)\<^sup>*\<^sup>* s t" and no: "nothing_left cfg i s" and re: "reach (sinit cfg) (sstep u j fs cfg) s"
    and cfg: "cfg_ok cfg" and i: "i < num_cpus cfg"
  shows "nothing_left cfg i t \<and> reach (sinit cfg) (sstep u j fs cfg) t"
  using assms(1)
proof (induction rule: rtranclp_induct)
  case (step t t')
  have t: "nothing_left cfg i t" "reach (sinit cfg) (sstep u j fs cfg) t" using step.IH by blast+
  show ?case
    using nothing_left_step [OF t(1) sys_inv_reach [OF t(2) cfg] phases.inv_reach [OF t(2)] i step.hyps(2)]
      reach_step [OF t(2) step.hyps(2)] by blast
qed (use no re in blast)

lemma idle_cpu_runs_on:
  assumes "(sstep u j fs cfg)\<^sup>*\<^sup>* s t" and "nothing_left cfg i s" and "reach (sinit cfg) (sstep u j fs cfg) s"
    and "cfg_ok cfg" and "i < num_cpus cfg"
  shows "c_at (sys_cpu t i) \<noteq> AtExit \<and> d_pc (sys_timer t) i \<noteq> DExit \<and>
    t_pc (sys_timer t) \<noteq> TStopped \<and> \<not> timer_stop (sys_timer t)"
proof -
  have t: "nothing_left cfg i t" "reach (sinit cfg) (sstep u j fs cfg) t"
    using nothing_left_forever [OF assms] by blast+
  have inv: "sys_inv cfg t" by (rule sys_inv_reach [OF t(2) assms(4)])
  have at: "c_at (sys_cpu t i) \<noteq> AtExit" using t(1) by (auto simp: nothing_left_def)
  then have pc: "d_pc (sys_timer t) i \<noteq> DExit"
    using phase_cpu [OF phases.inv_reach [OF t(2)] assms(5)] by (cases "d_pc (sys_timer t) i") auto
  have tm: "reach (tinit [0..<num_cpus cfg + 1]) tstep (sys_timer t)" "i \<in> set (dev_list (sys_timer t))"
    using inv assms(5) by (simp_all add: sys_inv_def)
  have tv: "tinv (sys_timer t)" using timer.inv_reach tm(1) by blast
  then have "\<not> t_fsh (sys_timer t) i" using tm(2) pc by (auto simp: tinv_def)
  then have "t_pc (sys_timer t) \<noteq> TStopped" "\<not> timer_stop (sys_timer t)"
    using tv tm(2) unfolding tinv_def by auto
  then show ?thesis using at pc by blast
qed

end
