(* ===== verification/Config.thy ===== *)
theory Config
  imports Phases
begin

text \<open>
  The configuration reader of \<open>src/os.c\<close> (\<open>read_config\<close>, defined in \<open>Os\<close>) is the
  inverse of printing: a configuration that is written in the documented format is read
  back.
\<close>

section \<open>Scanning after white space\<close>

lemma scan_d_skip [simp]: "scan_d (skip_space inp) = scan_d inp"
  by (simp add: scan_d_def skip_space_def dropWhile_idem)

lemma scan_lu_conv:
  assumes "no_digit rest" and "\<forall>c \<in> set w. is_space c"
  shows "scan_lu (w @ decimal (unat v) @ rest) = (Some v, rest)"
proof -
  have "int (unat v) < 2 ^ 64" using uint_lt2p [of v] by simp
  then show ?thesis
    using decimal_ok [of "unat v"]
    by (simp add: scan_lu_def scan_number [OF assms] Let_def u64_of_int_def)
qed

lemma blanks: "\<forall>c \<in> set []. is_space c" "\<forall>c \<in> set '' ''. is_space c" "\<forall>c \<in> set nl. is_space c"
  by (simp_all add: is_space_def nl_def)

lemma scan_d_arg: "scan_d (print_args (v # vs) @ nl @ r) = (Some v, print_args vs @ nl @ r)"
  using scan_conv(2) [OF no_digit_simps(3) blanks(2), of v vs r] by (simp add: print_args_def)

section \<open>Lines of processes\<close>

definition print_proc :: "u64 \<times> string \<times> u64 \<Rightarrow> string" where
  "print_proc q = decimal (unat (fst q)) @ '' '' @ fst (snd q) @ '' '' @ decimal (unat (snd (snd q))) @ nl"

definition print_procs :: "(u64 \<times> string \<times> u64) list \<Rightarrow> string" where
  "print_procs ps = concat (map print_proc ps)"

text \<open>A name is a word that fits the buffers, with the directory in front.\<close>

definition proc_name_ok :: "string \<Rightarrow> bool" where
  "proc_name_ok w \<longleftrightarrow> w \<noteq> [] \<and> (\<forall>c \<in> set w. \<not> is_space c) \<and> length w < 89"

lemma starts_word_procs: "starts_word (print_procs ps)"
proof (cases ps)
  case (Cons q qs)
  obtain d ds where "decimal (unat (fst q)) = d # ds" "is_digit d"
    using decimal_ok [of "unat (fst q)"] by (cases "decimal (unat (fst q))") auto
  then show ?thesis
    using Cons is_digit_not_space [of d] by (simp add: print_procs_def print_proc_def starts_word_def)
qed (simp add: print_procs_def starts_word_def)

lemma no_digit_blank: "no_digit ('' '' @ r)" "no_digit (nl @ r)"
  by (simp_all add: no_digit_def nl_def is_digit_def digits_def)

lemma scan_proc_print:
  assumes "proc_name_ok w" and "starts_word r"
  shows "scan_proc st old pr (print_proc (s, w, p) @ r) = ((s, w, p), r)"
proof -
  let ?tl = "'' '' @ decimal (unat p) @ nl @ r"
  have 1: "scan_lu (decimal (unat s) @ '' '' @ w @ ?tl) = (Some s, '' '' @ w @ ?tl)"
    using scan_lu_conv [OF no_digit_blank(1) blanks(1)] by simp
  have 2: "scan_s [] ('' '' @ w @ ?tl) = (w, ?tl)"
    using assms(1) by (intro scan_s_word) (simp_all add: proc_name_ok_def is_space_def)
  have 3: "scan_lu ?tl = (Some p, nl @ r)"
    by (rule scan_lu_conv [OF no_digit_blank(2) blanks(2)])
  show ?thesis
    using 1 2 3 assms skip_nl [OF assms(2)]
    by (simp add: scan_proc_def print_proc_def proc_name_ok_def)
qed

lemma read_procs_print:
  assumes "\<forall>q \<in> set ps. proc_name_ok (fst (snd q))" and "length js = length ps"
  shows "read_procs js old (print_procs ps) =
    Inr (map (\<lambda>(s, w, p). (''input/proc/'' @ w, s, p)) ps)"
  using assms
proof (induction ps arbitrary: js old)
  case (Cons q ps)
  obtain s w p where q: "q = (s, w, p)" by (cases q)
  obtain st pr js' where js: "js = (st, pr) # js'" using Cons.prems(2) by (cases js) auto
  have w: "proc_name_ok w" using Cons.prems(1) q by simp
  have "scan_proc st old pr (print_procs (q # ps)) = ((s, w, p), print_procs ps)"
    using scan_proc_print [OF w starts_word_procs, of st old pr s p ps] by (simp add: print_procs_def q)
  then show ?case
    using Cons w by (simp add: js q proc_name_ok_def)
qed simp

section \<open>The whole file\<close>

definition print_config :: "u32 \<Rightarrow> u32 \<Rightarrow> u32 \<Rightarrow> u32 list \<Rightarrow> (u64 \<times> string \<times> u64) list \<Rightarrow> string" where
  "print_config ts cpus ram swps ps =
    decimal (unat ts) @ print_args [cpus, of_nat (length ps)] @ nl @
    decimal (unat ram) @ print_args swps @ nl @ print_procs ps"

lemma read_config_print:
  assumes "fs pth = Some (print_config ts cpus ram swps ps)" and "length swps = PAGING_MAX_MMSWP"
    and "length ps < 2147483648" and "\<forall>q \<in> set ps. proc_name_ok (fst (snd q))"
  shows "read_config junk fs pth = Inr \<lparr>time_slot = int_of_u32 ts, num_cpus = nat (int_of_u32 cpus),
    memramsz = int_of_u32 ram, memswpsz = map int_of_u32 swps,
    ld_path = map (\<lambda>q. ''input/proc/'' @ fst (snd q)) ps, ld_start = map fst ps, ld_prio = map (snd \<circ> snd) ps\<rparr>"
proof -
  obtain a b c d where s: "swps = [a, b, c, d]"
    using assms(2) by (auto simp: PAGING_MAX_MMSWP_def length_Suc_conv numeral_eq_Suc)
  let ?n = "of_nat (length ps) :: u32" and ?P = "print_procs ps"
  let ?R = "decimal (unat ram) @ print_args swps @ nl @ ?P"
  have "scan_list scan_d 3 (print_config ts cpus ram swps ps) = ([ts, cpus, ?n], nl @ ?R)"
    using scan_conv(2) [OF no_digit_simps(3) blanks(1), of ts "[cpus, ?n]" ?R]
      scan_d_arg [of cpus "[?n]" ?R] scan_d_arg [of ?n "[]" ?R]
    by (simp add: print_config_def numeral_3_eq_3 print_args_def)
  moreover have "scan_d (nl @ ?R) = (Some ram, print_args swps @ nl @ ?P)"
    by (rule scan_conv(2) [OF no_digit_simps(3) blanks(3)])
  moreover have "((\<lambda>(ws, r). case scan_d r of (w, r) \<Rightarrow> (ws @ [int_of_u32 (or_else w 0)], r)) ^^ PAGING_MAX_MMSWP)
      ([], skip_space (print_args swps @ nl @ ?P)) = (map int_of_u32 swps, nl @ ?P)"
    using scan_d_arg [of d "[]" ?P]
    by (simp add: PAGING_MAX_MMSWP_def numeral_eq_Suc s scan_d_arg or_else_def)
      (simp add: print_args_def)
  moreover have "skip_space (nl @ ?P) = ?P" by (rule skip_nl [OF starts_word_procs])
  moreover have "read_procs (map junk [0..<length ps]) [] ?P = Inr (map (\<lambda>(s, w, p). (''input/proc/'' @ w, s, p)) ps)"
    using assms(4) by (intro read_procs_print) simp_all
  moreover have "int_of_u32 ?n = int (length ps)" by (rule int_of_u32_of_nat [OF assms(3)])
  ultimately show ?thesis
    using assms(1) by (simp add: read_config_def Let_def or_else_def split_def comp_def)
qed

lemma read_config_missing: "fs pth = None \<Longrightarrow> read_config junk fs pth = Inl (Exits 1)"
  by (simp add: read_config_def)

text \<open>\<open>main\<close> on such a file.\<close>

lemma os_main_ok:
  assumes "read_config cj fs (''input/'' @ a) = Inr cfg" and "length a < 94"
  shows "os_main cj junk mp q fs [prog, a] = Inr (Inr (cfg, boot junk mp q cfg))"
  using assms by (simp add: os_main_def config_path_def)

lemma os_main_refuses:
  "length args \<noteq> 2 \<Longrightarrow> os_main cj junk mp q fs args = Inr (Inl 1)"
  "94 \<le> length a \<Longrightarrow> os_main cj junk mp q fs [prog, a] = Inl OutOfBounds"
  "length a < 94 \<Longrightarrow> fs (''input/'' @ a) = None \<Longrightarrow> os_main cj junk mp q fs [prog, a] = Inl (Exits 1)"
  by (simp_all add: os_main_def config_path_def read_config_missing)

end
