(* ===== verification/Programs.thy ===== *)
theory Programs
  imports Phases "HOL-Library.Sublist"
begin

text \<open>
  What the machine executes: the instructions of all CPUs in the order in which they run,
  each with the identifier of its process.  The instructions of one process are its
  program from the start on, in order, none left out or repeated, however the CPUs and
  the other processes interleave; only \<open>killall\<close> ends a program early.
\<close>

section \<open>What an operation does to the programs\<close>

text \<open>
  Every block that is left had the same identifier and code, and its program counter
  unless \<open>killed\<close>, when it may have been set to the end.  Without \<open>killed\<close> no block is freed.
\<close>

definition same_prog :: "bool \<Rightarrow> pcb_t \<Rightarrow> pcb_t \<Rightarrow> bool" where
  "same_prog killed b b' \<longleftrightarrow> pid b' = pid b \<and> pcb_code b' = pcb_code b \<and>
    (pc b' = pc b \<or> killed \<and> pc b' = code_size (pcb_code b))"

definition prog_rel :: "bool \<Rightarrow> kernel \<Rightarrow> kernel \<Rightarrow> bool" where
  "prog_rel killed k k' \<longleftrightarrow>
    (\<forall>q b'. k_heap k' q = Some b' \<longrightarrow> (\<exists>b. k_heap k q = Some b \<and> same_prog killed b b')) \<and>
    (\<not> killed \<longrightarrow> (\<forall>q. k_heap k q \<noteq> None \<longrightarrow> k_heap k' q \<noteq> None))"

lemma same_prog_refl [simp]: "same_prog killed b b"
  by (simp add: same_prog_def)

lemma same_prog_trans: "same_prog killed a b \<Longrightarrow> same_prog killed b c \<Longrightarrow> same_prog killed a c"
  by (auto simp: same_prog_def)

lemma prog_rel_same: "k_heap k' = k_heap k \<Longrightarrow> prog_rel killed k k'"
  by (simp add: prog_rel_def)

lemma prog_relD:
  assumes "prog_rel killed k k'" and "k_heap k' q = Some b'"
  obtains b where "k_heap k q = Some b" "same_prog killed b b'"
  using assms unfolding prog_rel_def by blast

lemma prog_rel_mono: "prog_rel killed k k' \<Longrightarrow> prog_rel True k k'"
  unfolding prog_rel_def same_prog_def by blast

lemma prog_rel_trans:
  assumes "prog_rel killed k1 k2" and "prog_rel killed k2 k3"
  shows "prog_rel killed k1 k3"
  unfolding prog_rel_def
proof (intro conjI allI impI)
  fix q b assume "k_heap k3 q = Some b"
  then obtain b2 where "k_heap k2 q = Some b2" "same_prog killed b2 b" using prog_relD [OF assms(2)] by blast
  moreover then obtain b1 where "k_heap k1 q = Some b1" "same_prog killed b1 b2" using prog_relD [OF assms(1)] by blast
  ultimately show "\<exists>b1. k_heap k1 q = Some b1 \<and> same_prog killed b1 b" using same_prog_trans by blast
next
  fix q assume "\<not> killed" "k_heap k1 q \<noteq> None"
  then show "k_heap k3 q \<noteq> None" using assms by (simp add: prog_rel_def)
qed

lemma prog_rel_upd:
  assumes "k_heap k p = Some b" and "same_prog killed b b'" and "k_heap k' = (k_heap k)(p \<mapsto> b')"
  shows "prog_rel killed k k'"
  using assms by (auto simp: prog_rel_def)

lemma prog_rel_on_ctx:
  assumes "on_ctx k p f = Inr (x, k')"
  shows "prog_rel killed k k'"
proof -
  obtain b c where "k_heap k p = Some b" "k' = put_ctx k p b c"
    using assms by (auto simp: on_ctx_def rbind_Inr_iff pcb_at_Inr)
  then show ?thesis by (intro prog_rel_upd [of k p b]) (simp_all add: put_ctx_def same_prog_def)
qed

lemma put_queue_heap [simp]: "k_heap (put_queue r q k) = k_heap k"
  by (cases r) (simp_all add: put_queue_def)

lemma prog_rel_kill_running:
  "kill_running n r caller name m k = Inr (x, k') \<Longrightarrow> prog_rel True k k'"
proof (induction n arbitrary: k m)
  case (Suc n)
  obtain target q where d: "dequeue (k_heap k) (get_queue r k) = Inr (target, q)"
    using Suc.prems by (auto simp: rbind_Inr_iff)
  have go: "prog_rel True k k'" if "kill_running n r caller name m' k1 = Inr (x, k')" "prog_rel True k k1" for m' k1
    using Suc.IH [OF that(1)] that(2) prog_rel_trans by blast
  show ?case
  proof (cases target)
    case None
    then show ?thesis using Suc.prems d by (intro go [of m "put_queue r q k"]) (simp_all add: prog_rel_same)
  next
    case (Some t)
    obtain b where b: "k_heap k t = Some b"
      using Suc.prems d Some by (auto simp: rbind_Inr_iff pcb_at_Inr Let_def)
    let ?kill = "(put_queue r q k)\<lparr>k_heap := (k_heap k)(t \<mapsto> b\<lparr>pc := code_size (pcb_code b)\<rparr>)\<rparr>"
    have "prog_rel True k ?kill" using b by (intro prog_rel_upd [OF b]) (simp_all add: same_prog_def)
    moreover have "prog_rel True k (put_queue r (enqueue q (Some t)) k)" by (simp add: prog_rel_same)
    moreover have "kill_running n r caller name m (put_queue r (enqueue q (Some t)) (put_queue r q k)) = Inr (x, k') \<or>
        kill_running n r caller name (m + 1) ?kill = Inr (x, k')"
      using Suc.prems d Some b by (auto simp: Let_def split: if_splits)
    ultimately show ?thesis using go by (auto simp: prog_rel_same)
  qed
qed (simp add: prog_rel_same)

lemma prog_rel_kill_ready:
  "kill_ready n r caller memrg name m k = Inr (x, k') \<Longrightarrow> prog_rel True k k'"
proof (induction n arbitrary: k m)
  case (Suc n)
  obtain target q where d: "dequeue (k_heap k) (get_queue r k) = Inr (target, q)"
    using Suc.prems by (auto simp: rbind_Inr_iff)
  have go: "prog_rel True k k'" if "kill_ready n r caller memrg name m' k1 = Inr (x, k')" "prog_rel True k k1" for m' k1
    using Suc.IH [OF that(1)] that(2) prog_rel_trans by blast
  show ?case
  proof (cases target)
    case None
    then show ?thesis using Suc.prems d by (intro go [of m "put_queue r q k"]) (simp_all add: prog_rel_same)
  next
    case (Some t)
    obtain b where b: "k_heap k t = Some b"
      using Suc.prems d Some by (auto simp: rbind_Inr_iff pcb_at_Inr Let_def)
    consider "kill_ready n r caller memrg name m (put_queue r (enqueue q (Some t)) (put_queue r q k)) = Inr (x, k')"
      | y k1 where "on_ctx (put_queue r q k) t (\<lambda>c. libfree c memrg) = Inr (y, k1)"
        "kill_ready n r caller memrg name (m + 1) (free_pcb t k1) = Inr (x, k')"
      using Suc.prems d Some b by (auto simp: Let_def rbind_Inr_iff split: if_splits)
    then show ?thesis
    proof cases
      case 1
      then show ?thesis by (intro go [OF 1]) (simp add: prog_rel_same)
    next
      case 2
      have "prog_rel True k k1"
        using prog_rel_on_ctx [OF 2(1)] prog_rel_same [of "put_queue r q k" k] prog_rel_trans by fastforce
      moreover have "prog_rel True k1 (free_pcb t k1)" by (auto simp: prog_rel_def free_pcb_def)
      ultimately show ?thesis using go [OF 2(2)] prog_rel_trans by blast
    qed
  qed
qed (simp add: prog_rel_same)

definition is_killall :: "inst_t \<Rightarrow> bool" where
  "is_killall ins \<longleftrightarrow> opcode ins = SYSCALL \<and> arg_0 ins = 101"

lemma prog_rel_exec:
  assumes "exec u k p ins = Inr (x, k')"
  shows "prog_rel (is_killall ins) k k'"
proof (cases "is_killall ins")
  case True
  let ?r = "arg_1 ins"
  obtain bytes k1 rq mq name n1 n2 k2 k3 y n m where s:
    "on_ctx k p (name_loop u ?r 0 []) = Inr (bytes, k1)"
    "kill_running n rq p name 0 k1 = Inr (n1, k2)"
    "kill_ready m mq p ?r name n1 k2 = Inr (n2, k3)"
    "on_ctx k3 p (\<lambda>c. libfree c ?r) = Inr (y, k')"
    using assms True
    by (auto simp: is_killall_def exec_def libsyscall_def syscall_def sys_killall_def Let_def rbind_Inr_iff)
  have "prog_rel True k k2" by (rule prog_rel_trans [OF prog_rel_on_ctx [OF s(1)] prog_rel_kill_running [OF s(2)]])
  then have "prog_rel True k k3" by (rule prog_rel_trans [OF _ prog_rel_kill_ready [OF s(3)]])
  then show ?thesis using prog_rel_trans [OF _ prog_rel_on_ctx [OF s(4)]] True by simp
next
  case False
  have "prog_rel False k (k\<lparr>k_out := l\<rparr>)" "prog_rel False k (k\<lparr>k_mram := r\<rparr>)" for l r
    by (simp_all add: prog_rel_same)
  then show ?thesis
    using assms False prog_rel_on_ctx prog_rel_same [of k k]
    by (cases "opcode ins")
      (auto simp: is_killall_def exec_def libsyscall_def syscall_def sys_memmap_def sys_listsyscall_eq
        sys_ni_syscall_def Let_def rbind_Inr_iff split: if_splits)
qed

lemma prog_rel_enlist:
  assumes "enlist_running (k_heap k) s p = Inr (h, s')"
  shows "prog_rel False k (k\<lparr>k_heap := h, k_sched := s''\<rparr>)"
proof -
  obtain b where b: "k_heap k p = Some b" "h = (k_heap k)(p \<mapsto> link_queues b)"
    using assms by (auto simp: enlist_running_def rbind_Inr_iff pcb_at_Inr)
  show ?thesis by (rule prog_rel_upd [OF b(1)]) (simp_all add: b(2) same_prog_def link_queues_def)
qed

section \<open>The instructions executed\<close>

text \<open>The instruction that CPU \<open>c\<close> executes next, with the identifier of the process.\<close>

definition next_ins :: "kernel \<Rightarrow> cpu_t \<Rightarrow> (u32 \<times> inst_t) list" where
  "next_ins k c =
    (if c_at c = AtRun then
       (case c_proc c of
          None \<Rightarrow> []
        | Some p \<Rightarrow>
            (case k_heap k p of
               None \<Rightarrow> []
             | Some b \<Rightarrow> if pc b < code_size (pcb_code b) then [(pid b, code_text (pcb_code b) ! unat (pc b))] else []))
     else [])"

text \<open>In a step of the system: that of the CPU which leaves \<open>run\<close>.\<close>

definition executed :: "config \<Rightarrow> system \<Rightarrow> system \<Rightarrow> (u32 \<times> inst_t) list" where
  "executed cfg s t =
    concat (map (\<lambda>i. if c_at (sys_cpu t i) = AtRun then [] else next_ins (sys_k s) (sys_cpu s i)) [0..<num_cpus cfg])"

inductive traced :: "uninit \<Rightarrow> load_junk \<Rightarrow> (string \<Rightarrow> string option) \<Rightarrow> config \<Rightarrow> (u32 \<times> inst_t) list \<Rightarrow> system \<Rightarrow> bool"
  for u j fs cfg where
  traced_init: "sinit cfg s \<Longrightarrow> traced u j fs cfg [] s"
| traced_step: "traced u j fs cfg es s \<Longrightarrow> sstep u j fs cfg s t \<Longrightarrow> traced u j fs cfg (es @ executed cfg s t) t"

lemma traced_reach: "traced u j fs cfg es s \<Longrightarrow> reach (sinit cfg) (sstep u j fs cfg) s"
  by (induction rule: traced.induct) (auto intro: reach_init reach_step)

lemma reach_traced: "reach (sinit cfg) (sstep u j fs cfg) s \<Longrightarrow> \<exists>es. traced u j fs cfg es s"
  by (induction rule: reach.induct) (auto intro: traced.intros)

text \<open>The instructions of process \<open>i\<close>, and its program: that of the \<open>i\<close>-th description.\<close>

definition ran_by :: "(u32 \<times> inst_t) list \<Rightarrow> u32 \<Rightarrow> inst_t list" where
  "ran_by es i = map snd (filter (\<lambda>e. fst e = i) es)"

definition program :: "load_junk \<Rightarrow> (string \<Rightarrow> string option) \<Rightarrow> config \<Rightarrow> u32 \<Rightarrow> inst_t list" where
  "program j fs cfg i = (case load j fs i (ld_path cfg ! (unat i - 1)) of Inl _ \<Rightarrow> [] | Inr (b, _) \<Rightarrow> code_text (pcb_code b))"

definition killed_in :: "(u32 \<times> inst_t) list \<Rightarrow> bool" where
  "killed_in es \<longleftrightarrow> (\<exists>e \<in> set es. is_killall (snd e))"

lemma ran_by_append: "ran_by (es @ [(i, ins)]) i' = ran_by es i' @ (if i = i' then [ins] else [])"
  by (simp add: ran_by_def)

lemma killed_in_append: "killed_in (es @ [(i, ins)]) \<longleftrightarrow> killed_in es \<or> is_killall ins"
  by (auto simp: killed_in_def)

definition progs_ok :: "(u32 \<Rightarrow> inst_t list) \<Rightarrow> nat \<Rightarrow> kernel \<Rightarrow> (u32 \<times> inst_t) list \<Rightarrow> bool" where
  "progs_ok P m k es \<longleftrightarrow>
    (\<forall>e \<in> set es. 1 \<le> unat (fst e) \<and> unat (fst e) \<le> m) \<and> (\<forall>i. prefix (ran_by es i) (P i)) \<and>
    (\<forall>p b. k_heap k p = Some b \<longrightarrow> code_text (pcb_code b) = P (pid b) \<and>
       (ran_by es (pid b) = take (unat (pc b)) (P (pid b)) \<or> killed_in es \<and> pc b = code_size (pcb_code b))) \<and>
    (\<not> killed_in es \<longrightarrow> (\<forall>i. 1 \<le> unat i \<longrightarrow> unat i \<le> m \<longrightarrow> (\<forall>p b. k_heap k p = Some b \<longrightarrow> pid b \<noteq> i) \<longrightarrow>
       ran_by es i = P i))"

lemma progs_okD:
  assumes "progs_ok P m k es"
  shows "\<And>e. e \<in> set es \<Longrightarrow> 1 \<le> unat (fst e) \<and> unat (fst e) \<le> m" and "\<And>i. prefix (ran_by es i) (P i)"
    and "\<And>p b. k_heap k p = Some b \<Longrightarrow> code_text (pcb_code b) = P (pid b)"
    and "\<And>p b. k_heap k p = Some b \<Longrightarrow>
      ran_by es (pid b) = take (unat (pc b)) (P (pid b)) \<or> killed_in es \<and> pc b = code_size (pcb_code b)"
    and "\<And>i. \<not> killed_in es \<Longrightarrow> 1 \<le> unat i \<Longrightarrow> unat i \<le> m \<Longrightarrow> (\<And>p b. k_heap k p = Some b \<Longrightarrow> pid b \<noteq> i) \<Longrightarrow>
      ran_by es i = P i"
  using assms unfolding progs_ok_def by blast+

lemma progs_ok_rel:
  assumes ok: "progs_ok P m k es" and rel: "prog_rel False k k'"
  shows "progs_ok P m k' es"
proof -
  have "code_text (pcb_code b') = P (pid b') \<and>
      (ran_by es (pid b') = take (unat (pc b')) (P (pid b')) \<or> killed_in es \<and> pc b' = code_size (pcb_code b'))"
    if "k_heap k' p = Some b'" for p b'
  proof -
    obtain b where b: "k_heap k p = Some b" "same_prog False b b'" by (rule prog_relD [OF rel \<open>k_heap k' p = Some b'\<close>])
    then show ?thesis using progs_okD(3,4) [OF ok b(1)] by (simp add: same_prog_def)
  qed
  moreover have "pid b \<noteq> i" if gone: "\<And>p b. k_heap k' p = Some b \<Longrightarrow> pid b \<noteq> i" and b: "k_heap k p = Some b" for i p b
  proof -
    obtain b' where b': "k_heap k' p = Some b'" using rel b by (auto simp: prog_rel_def)
    obtain b0 where "k_heap k p = Some b0" "same_prog False b0 b'" by (rule prog_relD [OF rel b'])
    then show ?thesis using gone [OF b'] b by (simp add: same_prog_def)
  qed
  ultimately show ?thesis using progs_okD(1,2,5) [OF ok] unfolding progs_ok_def by blast
qed

lemma progs_ok_free:
  assumes ok: "progs_ok P m k es" and b: "k_heap k p = Some b" "pc b = code_size (pcb_code b)" "pcb_wf b"
  shows "progs_ok P m (free_pcb p k) es"
proof -
  have all: "take (unat (pc b)) (P (pid b)) = P (pid b)"
    using b(2,3) progs_okD(3) [OF ok b(1)] by (simp add: pcb_wf_def)
  have "ran_by es i = P i"
    if k: "\<not> killed_in es" and i: "1 \<le> unat i" "unat i \<le> m"
      and gone: "\<And>q c. k_heap (free_pcb p k) q = Some c \<Longrightarrow> pid c \<noteq> i" for i
  proof (cases "i = pid b")
    case True
    then show ?thesis using progs_okD(4) [OF ok b(1)] k all by simp
  next
    case False
    have "pid c \<noteq> i" if "k_heap k q = Some c" for q c
      using that gone [of q c] b(1) False by (cases "q = p") (auto simp: free_pcb_def)
    then show ?thesis using progs_okD(5) [OF ok k i] by blast
  qed
  moreover have "k_heap k q = Some c" if "k_heap (free_pcb p k) q = Some c" for q c
    using that by (simp add: free_pcb_def split: if_splits)
  ultimately show ?thesis using progs_okD [OF ok] unfolding progs_ok_def by blast
qed

lemma progs_ok_run:
  assumes ok: "progs_ok P m k es" and wf: "heap_wf (k_heap k)" and ids: "ids_ok m k"
    and b: "k_heap k p = Some b" "pc b < code_size (pcb_code b)" and run: "run u k p = Inr (x, k')"
  shows "progs_ok P m k' (es @ [(pid b, code_text (pcb_code b) ! unat (pc b))])"
proof -
  let ?ins = "code_text (pcb_code b) ! unat (pc b)" and ?i = "pid b"
  let ?k = "k\<lparr>k_heap := (k_heap k)(p \<mapsto> b\<lparr>pc := pc b + 1\<rparr>)\<rparr>" and ?es = "es @ [(?i, ?ins)]"
  have w: "pcb_wf b" using wf b(1) by (simp add: heap_wf_def)
  have "exec u ?k p ?ins = Inr (x, k')" using run run_step [OF b, of u] w by (simp add: pcb_wf_def)
  then have rel: "prog_rel (is_killall ?ins) ?k k'" by (rule prog_rel_exec)
  have code: "code_text (pcb_code b) = P ?i" by (rule progs_okD(3) [OF ok b(1)])
  have old: "ran_by es ?i = take (unat (pc b)) (P ?i)" using progs_okD(4) [OF ok b(1)] b(2) by auto
  have lt: "unat (pc b) < length (P ?i)" using b(2) w code by (simp add: pcb_wf_def word_less_nat_alt)
  have new: "ran_by ?es ?i = take (unat (pc b + 1)) (P ?i)"
    using old lt pc_step(2) [OF b(2)] code by (simp add: ran_by_append take_Suc_conv_app_nth)
  have other: "ran_by ?es i = ran_by es i" if "i \<noteq> ?i" for i using that by (simp add: ran_by_append)
  have pid: "pids k p = Some ?i" using b(1) by (simp add: pids_def)
  have uniq: "pid c \<noteq> ?i" if "k_heap k q = Some c" "q \<noteq> p" for q c
    using that ids b(1) pid unfolding ids_ok_def inj_on_def by (metis domI option.map(2) pids_def)
  have live: "code_text (pcb_code c') = P (pid c') \<and>
      (ran_by ?es (pid c') = take (unat (pc c')) (P (pid c')) \<or> killed_in ?es \<and> pc c' = code_size (pcb_code c'))"
    if c': "k_heap k' q = Some c'" for q c'
  proof -
    obtain c where c: "k_heap ?k q = Some c" "same_prog (is_killall ?ins) c c'" by (rule prog_relD [OF rel c'])
    have "code_text (pcb_code c) = P (pid c) \<and>
        (ran_by ?es (pid c) = take (unat (pc c)) (P (pid c)) \<or> killed_in ?es \<and> pc c = code_size (pcb_code c))"
    proof (cases "q = p")
      case True
      then have "c = b\<lparr>pc := pc b + 1\<rparr>" using c(1) by simp
      then show ?thesis using new code by simp
    next
      case False
      then have "k_heap k q = Some c" using c(1) by simp
      then show ?thesis
        using progs_okD(3,4) [OF ok, of q c] other [OF uniq [of q c]] False by (auto simp: killed_in_append)
    qed
    then show ?thesis using c(2) by (auto simp: same_prog_def killed_in_append)
  qed
  have gone: "ran_by ?es i = P i"
    if k: "\<not> killed_in ?es" and i: "1 \<le> unat i" "unat i \<le> m"
      and g: "\<And>q c. k_heap k' q = Some c \<Longrightarrow> pid c \<noteq> i" for i
  proof -
    have nk: "\<not> killed_in es" "\<not> is_killall ?ins" using k by (simp_all add: killed_in_append)
    have still: "pid c \<noteq> i" if c: "k_heap ?k q = Some c" for q c
    proof -
      obtain c' where c': "k_heap k' q = Some c'" using rel nk(2) c by (fastforce simp: prog_rel_def)
      obtain c0 where "k_heap ?k q = Some c0" "same_prog (is_killall ?ins) c0 c'" by (rule prog_relD [OF rel c'])
      then show ?thesis using g [OF c'] c by (simp add: same_prog_def)
    qed
    have "i \<noteq> ?i" using still [of p "b\<lparr>pc := pc b + 1\<rparr>"] by auto
    moreover have "pid c \<noteq> i" if "k_heap k q = Some c" for q c
      using that still [of q c] b(1) \<open>i \<noteq> ?i\<close> by (cases "q = p") auto
    ultimately show ?thesis using progs_okD(5) [OF ok nk(1) i] other by simp
  qed
  have pre: "prefix (ran_by ?es i) (P i)" for i
    using progs_okD(2) [OF ok, of i] new other take_is_prefix by (cases "i = ?i") simp_all
  have "1 \<le> unat ?i \<and> unat ?i \<le> m" using ids pid unfolding ids_ok_def by blast
  then have "\<forall>e \<in> set ?es. 1 \<le> unat (fst e) \<and> unat (fst e) \<le> m" using progs_okD(1) [OF ok] by auto
  then show ?thesis unfolding progs_ok_def using pre live gone by blast
qed

text \<open>A new process, with the next identifier, at its first instruction.\<close>

lemma progs_ok_new:
  assumes ok: "progs_ok P m k es" and ids: "ids_ok m k" and m: "m + 2 < 4294967296" and p: "k_heap k p = None"
    and b: "pid b = avail_pid k" "pc b = 0" "code_text (pcb_code b) = P (avail_pid k)"
    and k': "k_heap k' = (k_heap k)(p \<mapsto> b)"
  shows "progs_ok P (m + 1) k' es"
proof -
  have av: "unat (avail_pid k) = m + 1"
    using ids m unfolding ids_ok_def by (simp add: unat_of_nat take_bit_nat_eq_self del: of_nat_Suc of_nat_add)
  have "fst e \<noteq> avail_pid k" if "e \<in> set es" for e using progs_okD(1) [OF ok that] av by auto
  then have none: "ran_by es (avail_pid k) = []" by (auto simp: ran_by_def filter_empty_conv)
  have live: "code_text (pcb_code c) = P (pid c) \<and>
      (ran_by es (pid c) = take (unat (pc c)) (P (pid c)) \<or> killed_in es \<and> pc c = code_size (pcb_code c))"
    if "k_heap k' q = Some c" for q c
    using that progs_okD(3,4) [OF ok, of q c] b none by (cases "q = p") (simp_all add: k')
  have gone: "ran_by es i = P i"
    if nk: "\<not> killed_in es" and i: "1 \<le> unat i" "unat i \<le> m + 1"
      and g: "\<And>q c. k_heap k' q = Some c \<Longrightarrow> pid c \<noteq> i" for i
  proof -
    have "pid b \<noteq> i" using g [of p b] by (simp add: k')
    then have "unat i \<noteq> m + 1" using av b(1) by (metis word_unat_eq_iff)
    then have "unat i \<le> m" using i(2) by simp
    moreover have "pid c \<noteq> i" if "k_heap k q = Some c" for q c
      using that g [of q c] p by (cases "q = p") (simp_all add: k')
    ultimately show ?thesis using progs_okD(5) [OF ok nk i(1)] by blast
  qed
  have "1 \<le> unat (fst e) \<and> unat (fst e) \<le> m + 1" if "e \<in> set es" for e using progs_okD(1) [OF ok that] by simp
  then show ?thesis unfolding progs_ok_def using live gone progs_okD(2) [OF ok] by blast
qed

section \<open>The steps of the system\<close>

lemma progs_ok_cpu:
  assumes ok: "progs_ok P m k es" and wf: "heap_wf (k_heap k)" and ids: "ids_ok m k"
    and step: "cpu_step u ts dn k c = Inr (k', c')"
  shows "progs_ok P m k' (es @ next_ins k c)"
proof -
  have rel: "progs_ok P m k' (es @ next_ins k c)" if "c_at c \<noteq> AtRun" "prog_rel False k k'"
    using progs_ok_rel [OF ok that(2)] that(1) by (simp add: next_ins_def)
  show ?thesis
  proof (cases "c_at c")
    case AtTop
    show ?thesis
    proof (cases "c_proc c")
      case None
      then show ?thesis using AtTop step
        by (intro rel) (auto simp: cpu_step_def cpu_top_def rbind_Inr_iff intro!: prog_rel_same)
    next
      case (Some p)
      then obtain b where b: "k_heap k p = Some b"
        using AtTop step by (auto simp: cpu_step_def cpu_top_def rbind_Inr_iff pcb_at_Inr)
      consider "pc b = code_size (pcb_code b)" "k' = free_pcb p k" | "prog_rel False k k'"
      proof (cases "pc b = code_size (pcb_code b)")
        case True
        then show ?thesis using AtTop step Some b that(1) by (simp add: cpu_step_def cpu_top_def)
      next
        case False
        then have "prog_rel False k k'"
          using AtTop step Some b
          by (auto simp: cpu_step_def cpu_top_def rbind_Inr_iff split: if_splits
              intro: prog_rel_same intro!: prog_rel_enlist)
        then show ?thesis by (rule that(2))
      qed
      then show ?thesis
      proof cases
        case 1
        have "pcb_wf b" using wf b by (simp add: heap_wf_def)
        then show ?thesis using progs_ok_free [OF ok b 1(1)] AtTop by (simp add: next_ins_def 1(2))
      next
        case 2
        show ?thesis by (rule rel [OF _ 2]) (simp add: AtTop)
      qed
    qed
  next
    case AtPut
    then show ?thesis using step
      by (intro rel) (auto simp: cpu_step_def cpu_put_def rbind_Inr_iff intro!: prog_rel_same)
  next
    case AtGet
    then show ?thesis using step
      by (intro rel) (auto simp: cpu_step_def cpu_get_def rbind_Inr_iff intro!: prog_rel_same)
  next
    case AtCheck
    then show ?thesis using step
      by (intro rel) (auto simp: cpu_step_def cpu_check_def rbind_Inr_iff split: option.splits if_splits
          intro!: prog_rel_same)
  next
    case AtRun
    then obtain p x where p: "c_proc c = Some p" "run u k p = Inr (x, k')"
      using step by (auto simp: cpu_step_def cpu_run_def rbind_Inr_iff deref_def split: option.splits)
    then obtain b where b: "k_heap k p = Some b" by (auto simp: run_def rbind_Inr_iff pcb_at_Inr)
    show ?thesis
    proof (cases "pc b < code_size (pcb_code b)")
      case True
      then show ?thesis using progs_ok_run [OF ok wf ids b True p(2)] AtRun p(1) b by (simp add: next_ins_def)
    next
      case False
      then have "k' = k" using run_finished [OF b, of u] p(2) by simp
      then show ?thesis using ok AtRun p(1) b False by (simp add: next_ins_def)
    qed
  qed (use step ok in \<open>simp_all add: cpu_step_def next_ins_def\<close>)
qed

lemma concat_map_single:
  assumes "\<And>j. j < n \<Longrightarrow> j \<noteq> i \<Longrightarrow> f j = []" and "i < n"
  shows "concat (map f [0..<n]) = f i"
proof -
  have "[0..<n] = [0..<i] @ i # [Suc i..<n]" using assms(2) upt_add_eq_append [of 0 i "n - i"] by (simp add: upt_conv_Cons)
  moreover have "concat (map f [0..<i]) = []" "concat (map f [Suc i..<n]) = []"
    using assms by (auto simp: concat_eq_Nil_conv)
  ultimately show ?thesis by (simp only: map_append concat_append list.map concat.simps append_Nil append_Nil2)
qed

lemma executed_cpu:
  assumes i: "i < num_cpus cfg" and step: "cpu_step u ts dn (sys_k s) (sys_cpu s i) = Inr (k, c)"
  shows "executed cfg s (cpu_turn i k c s) = next_ins (sys_k s) (sys_cpu s i)"
proof -
  let ?f = "\<lambda>j. if c_at (sys_cpu (cpu_turn i k c s) j) = AtRun then [] else next_ins (sys_k s) (sys_cpu s j)"
  have "?f j = []" if "j \<noteq> i" for j using that by (simp add: cpu_turn_def next_ins_def)
  then have "executed cfg s (cpu_turn i k c s) = ?f i"
    unfolding executed_def by (intro concat_map_single i) blast
  moreover have "c_at c \<noteq> AtRun \<or> c_at (sys_cpu s i) \<noteq> AtRun"
    using step by (auto simp: cpu_step_def cpu_run_def rbind_Inr_iff)
  ultimately show ?thesis by (auto simp: cpu_turn_def next_ins_def)
qed

lemma executed_none:
  assumes "\<And>i. i < num_cpus cfg \<Longrightarrow> sys_cpu t i = sys_cpu s i \<or> c_at (sys_cpu s i) \<noteq> AtRun"
  shows "executed cfg s t = []"
proof -
  have "(if c_at (sys_cpu t i) = AtRun then [] else next_ins (sys_k s) (sys_cpu s i)) = []" if "i < num_cpus cfg" for i
    using assms [OF that] by (auto simp: next_ins_def)
  then show ?thesis unfolding executed_def concat_eq_Nil_conv by auto
qed

lemma traced_progs:
  assumes "traced u j fs cfg es s" and cfg: "cfg_ok cfg" and len: "length (ld_path cfg) \<le> MAX_QUEUE_SIZE"
  shows "progs_ok (program j fs cfg) (loaded s) (sys_k s) es"
  using assms(1)
proof (induction rule: traced.induct)
  case (traced_init s)
  then show ?case
    by (simp add: sinit_def loaded_def progs_ok_def ran_by_def killed_in_def)
next
  case (traced_step es s t)
  have re: "reach (sinit cfg) (sstep u j fs cfg) s" by (rule traced_reach [OF traced_step.hyps(1)])
  have sys: "sys_inv cfg s" by (rule sys_inv_reach [OF re cfg])
  have cons: "conserved cfg s" by (rule conserved_reach [OF re cfg len])
  have ph: "phase_inv cfg s" by (rule phases.inv_reach [OF re])
  let ?P = "program j fs cfg" and ?k = "sys_k s"
  have wf: "heap_wf (k_heap ?k)" using sys by (simp add: sys_inv_def own_def)
  have ids: "ids_ok (loaded s) ?k" and lo: "loaded s \<le> length (ld_path cfg)" using cons by (simp_all add: conserved_def)
  have ld: "ld_inv (sys_ld s) (d_pc (sys_timer s) (num_cpus cfg))" using sys by (simp add: sys_inv_def)
  note ok = traced_step.IH
  from traced_step.hyps(2) show ?case
  proof cases
    case (cpu i k c)
    have "progs_ok ?P (loaded s) k (es @ next_ins ?k (sys_cpu s i))" by (rule progs_ok_cpu [OF ok wf ids cpu(5)])
    then show ?thesis using executed_cpu [OF cpu(2,5)] cpu(1) by (simp add: cpu_turn_def loaded_def)
  next
    case (cpu_resume i)
    have "executed cfg s t = []"
      using phase_cpu [OF ph, of i] cpu_resume by (intro executed_none) (auto split: if_splits)
    then show ?thesis using ok cpu_resume(1) by (simp add: loaded_def)
  next
    case (ld_load p k l)
    then obtain b a where b: "load j fs (avail_pid ?k) (ld_path cfg ! l_i (sys_ld s)) = Inr (b, a)"
      "k = ?k\<lparr>k_heap := (k_heap ?k)(p \<mapsto> b\<lparr>prio := ucast (ld_prio cfg ! l_i (sys_ld s))\<rparr>), avail_pid := a\<rparr>"
      "l = (sys_ld s)\<lparr>l_proc := Some p, l_at := LdWait\<rparr>"
      by (auto simp: ld_load_def rbind_Inr_iff split: if_splits)
    have none: "l_proc (sys_ld s) = None" using ld ld_load(2) by (simp add: ld_inv_def)
    then have lt: "loaded t = loaded s + 1" and li: "loaded s = l_i (sys_ld s)" using ld_load(1) b(3) by (simp_all add: loaded_def)
    have av: "unat (avail_pid ?k) = loaded s + 1"
      using ids lo len unfolding ids_ok_def
      by (simp add: unat_of_nat take_bit_nat_eq_self MAX_QUEUE_SIZE_def del: of_nat_Suc of_nat_add)
    have "?P (avail_pid ?k) = code_text (pcb_code b)" using b(1) av li by (simp add: program_def)
    then have "progs_ok ?P (loaded s + 1) k es"
      using load_wf [OF b(1)] lo len
      by (intro progs_ok_new [OF ok ids _ ld_load(4)]) (simp_all add: b(2) MAX_QUEUE_SIZE_def)
    moreover have "executed cfg s t = []" using ld_load(1) by (intro executed_none) simp
    ultimately show ?thesis using ld_load(1) lt by simp
  next
    case (ld_end p k l)
    then have "l = (sys_ld s)\<lparr>l_at := LdExit\<rparr>" by (auto simp: ld_load_def rbind_Inr_iff split: if_splits)
    moreover have "executed cfg s t = []" using ld_end(1) by (intro executed_none) simp
    ultimately show ?thesis using ok ld_end(1) by (simp add: loaded_def)
  next
    case (ld_add m k l)
    then obtain p b h sc where p: "l_proc (sys_ld s) = Some p" "k_heap ?k p = Some b"
      "enlist_running ((k_heap ?k)(p \<mapsto> b\<lparr>mm := init_mm u m\<rparr>)) (k_sched ?k) p = Inr (h, sc)"
      "k = ?k\<lparr>k_heap := h, k_sched := sc\<rparr>" "l = (sys_ld s)\<lparr>l_at := LdAdd\<rparr>"
      by (auto simp: ld_add_def rbind_Inr_iff deref_def pcb_at_Inr split: option.splits)
    let ?m = "?k\<lparr>k_heap := (k_heap ?k)(p \<mapsto> b\<lparr>mm := init_mm u m\<rparr>)\<rparr>"
    have "prog_rel False ?k ?m" by (rule prog_rel_upd [OF p(2)]) (simp_all add: same_prog_def)
    moreover have "prog_rel False ?m k"
      using prog_rel_enlist [of ?m "k_sched ?k" p h sc sc] p(3,4) by simp
    ultimately have "progs_ok ?P (loaded s) k es" using progs_ok_rel [OF ok] prog_rel_trans by blast
    moreover have "executed cfg s t = []" using ld_add(1) by (intro executed_none) simp
    ultimately show ?thesis using ld_add(1) p(5) by (simp add: loaded_def)
  next
    case (ld_put k l)
    then obtain p sc where p: "l_proc (sys_ld s) = Some p" "k = ?k\<lparr>k_sched := sc\<rparr>"
      "l = (sys_ld s)\<lparr>l_i := l_i (sys_ld s) + 1, l_proc := None, l_at := LdSlotNext\<rparr>"
      by (auto simp: ld_put_def rbind_Inr_iff deref_def split: option.splits)
    have "prog_rel False ?k k" unfolding p(2) by (rule prog_rel_same) simp
    then have "progs_ok ?P (loaded s) k es" using progs_ok_rel [OF ok] by blast
    moreover have "executed cfg s t = []" using ld_put(1) by (intro executed_none) simp
    ultimately show ?thesis using ld_put(1) p(1,3) by (simp add: loaded_def)
  qed (use ok in \<open>simp_all add: executed_none loaded_def\<close>)
qed

section \<open>How much is executed\<close>

lemma length_filter_sum:
  assumes "\<And>x. x \<in> set xs \<Longrightarrow> f x \<in> A" and "finite A"
  shows "length xs = (\<Sum>i \<in> A. length (filter (\<lambda>x. f x = i) xs))"
  using assms(1)
proof (induction xs)
  case (Cons x xs)
  have "(\<Sum>i \<in> A. length (filter (\<lambda>x. f x = i) (x # xs))) =
      (\<Sum>i \<in> A. (if f x = i then 1 else 0) + length (filter (\<lambda>x. f x = i) xs))"
    by (rule sum.cong) simp_all
  also have "\<dots> = 1 + length xs"
    using Cons assms(2) by (simp add: sum.distrib)
  finally show ?case by simp
qed simp

lemma progs_ok_length:
  assumes ok: "progs_ok P m k es"
  shows "length es \<le> (\<Sum>i = 1..m. length (P (of_nat i)))"
proof -
  have "length es = (\<Sum>i \<in> {1..m}. length (filter (\<lambda>e. unat (fst e) = i) es))"
    using progs_okD(1) [OF ok] by (intro length_filter_sum) auto
  also have "\<dots> \<le> (\<Sum>i \<in> {1..m}. length (P (of_nat i)))"
  proof (rule sum_mono)
    fix i assume "i \<in> {1..m}"
    have "length (filter (\<lambda>e. unat (fst e) = i) es) \<le> length (ran_by es (of_nat i))"
      unfolding ran_by_def length_map by (induction es) auto
    also have "\<dots> \<le> length (P (of_nat i))" by (rule prefix_length_le [OF progs_okD(2) [OF ok]])
    finally show "length (filter (\<lambda>e. unat (fst e) = i) es) \<le> length (P (of_nat i))" .
  qed
  finally show ?thesis .
qed

end
