(* ===== verification/Arrays.thy ===== *)
theory Arrays
  imports Killall
begin

text \<open>
  A region as the program sees it (\<open>libread\<close> and \<open>libwrite\<close> of \<open>src/libmem.c\<close>): the first
  region of a process refines an array of bytes.  Any sequence of reads and writes inside
  it returns what the same sequence returns on a list.
\<close>

section \<open>Sequences of accesses\<close>

datatype access = Load nat | Store nat u8

fun acc_off :: "access \<Rightarrow> nat" where
  "acc_off (Load k) = k"
| "acc_off (Store k x) = k"

text \<open>The results: the return value, and for a read what it stored in its destination.\<close>

fun run_accesses :: "uninit \<Rightarrow> u32 \<Rightarrow> access list \<Rightarrow> vmctx \<Rightarrow> ((int \<times> u32 option) list \<times> vmctx) outcome" where
  "run_accesses u r [] c = Inr ([], c)"
| "run_accesses u r (Load k # accs) c =
    rbind (libread u c r (of_nat k)) (\<lambda>(ret, d, c).
    rbind (run_accesses u r accs c) (\<lambda>(rs, c).
    Inr ((ret, Some d) # rs, c)))"
| "run_accesses u r (Store k x # accs) c =
    rbind (libwrite u c x r (of_nat k)) (\<lambda>(ret, c).
    rbind (run_accesses u r accs c) (\<lambda>(rs, c).
    Inr ((ret, None) # rs, c)))"

text \<open>The same on a list of bytes.\<close>

fun array_accesses :: "access list \<Rightarrow> u8 list \<Rightarrow> (int \<times> u32 option) list" where
  "array_accesses [] m = []"
| "array_accesses (Load k # accs) m = (0, Some (u32_of_byte (m ! k))) # array_accesses accs m"
| "array_accesses (Store k x # accs) m = (0, None) # array_accesses accs (m[k := x])"

section \<open>The refinement\<close>

definition holds_array :: "uninit \<Rightarrow> vmctx \<Rightarrow> u32 \<Rightarrow> u8 list \<Rightarrow> bool" where
  "holds_array u c r m \<longleftrightarrow> holds_bytes u c r m \<and> length m < 2147483648 \<and>
    (\<forall>i < length m. \<forall>j < length m. byte_addr c r i = byte_addr c r j \<longrightarrow> i = j)"

lemma libwrite_resident:
  assumes v: "one_vma (c_mm c) v" and "sym_ok (int_of_u32 r)"
    and ok: "va_ok c (rg_addr (symrgtbl (c_mm c) (int_of_u32 r)) (int_of_u32 off))" (is "va_ok c ?a")
  shows "libwrite u c x r off = Inr (0, va_store u c ?a x)"
proof -
  obtain d where "io_dump (c_mm c) (Inr (u32_of_int (-1))) = Inr d"
    using io_dump_returns(1) [OF v] by blast
  then show ?thesis
    using rg_access_resident(2) [OF assms, of u x] ok by (simp add: libwrite_def)
qed

lemma holds_array_store:
  assumes h: "holds_array u c r m" and k: "k < length m"
  shows "\<exists>c'. libwrite u c x r (of_nat k) = Inr (0, c') \<and> holds_array u c' r (m[k := x])"
proof -
  let ?c = "va_store u c (byte_addr c r k) x"
  obtain v where v: "one_vma (c_mm c) v" "sym_ok (int_of_u32 r)"
    and ok: "\<And>i. i < length m \<Longrightarrow> va_ok c (byte_addr c r i)"
    and val: "\<And>i. i < length m \<Longrightarrow> va_load u c (byte_addr c r i) = m ! i"
    using h by (auto simp: holds_array_def holds_bytes_def)
  have "int_of_u32 (of_nat k) = int k"
    using h k by (intro int_of_u32_of_nat) (simp add: holds_array_def)
  then have run: "libwrite u c x r (of_nat k) = Inr (0, ?c)"
    using libwrite_resident [OF v, of "of_nat k" u x] ok [OF k] by (simp add: byte_addr_def)
  have addr: "byte_addr ?c r i = byte_addr c r i" for i
    using ok [OF k] by (simp add: byte_addr_def)
  have load: "va_load u ?c (byte_addr c r i) = m[k := x] ! i" if "i < length m" for i
  proof (cases "i = k")
    case True
    then show ?thesis using vmem.rd_wr_same [OF ok [OF k]] that by simp
  next
    case False
    then have "byte_addr c r i \<noteq> byte_addr c r k" using h that k by (auto simp: holds_array_def)
    then show ?thesis using vmem.rd_wr_other [OF ok [OF k]] val [OF that] False by simp
  qed
  have "one_vma (c_mm ?c) v" using v(1) ok [OF k] by simp
  then have new: "holds_array u ?c r (m[k := x])"
    using h v ok load vmem.ok_wr [OF ok [OF k]] by (auto simp: holds_array_def holds_bytes_def addr)
  show ?thesis using run new by blast
qed

lemma run_accesses_refine:
  assumes "holds_array u c r m" and "\<forall>a \<in> set accs. acc_off a < length m"
  shows "\<exists>c'. run_accesses u r accs c = Inr (array_accesses accs m, c')"
  using assms
proof (induction accs arbitrary: c m)
  case (Cons a accs)
  show ?case
  proof (cases a)
    case (Load k)
    then have k: "k < length m" using Cons.prems(2) by simp
    have "libread u c r (of_nat k) = Inr (0, u32_of_byte (m ! k), c)"
      using Cons.prems(1) k by (intro holds_bytes_read) (simp_all add: holds_array_def)
    then show ?thesis using Cons.IH [OF Cons.prems(1)] Cons.prems(2) Load by auto
  next
    case (Store k x)
    then have k: "k < length m" using Cons.prems(2) by simp
    obtain c' where c': "libwrite u c x r (of_nat k) = Inr (0, c')" "holds_array u c' r (m[k := x])"
      using holds_array_store [OF Cons.prems(1) k] by blast
    show ?thesis using Cons.IH [OF c'(2)] Cons.prems(2) c'(1) Store by auto
  qed
qed simp

section \<open>The first region\<close>

lemma liballoc_first:
  assumes fresh: "fresh_process u c" and r: "sym_ok (int_of_u32 r)"
    and n: "0 < int_of_u32 n" "int_of_u32 n \<le> 4000000"
  shows "liballoc u c n r = Inr (0, after_first u c (int_of_u32 r) (int_of_u32 n))" (is "_ = Inr (0, ?c)")
proof -
  have "one_vma (c_mm ?c) (first_area u (int_of_u32 n))"
    by (simp add: one_vma_def first_area_def area0_def)
  then obtain d where "io_dump (c_mm ?c) (mmap_end (c_mm ?c)) = Inr d"
    using io_dump_returns(2) by blast
  then show ?thesis using fresh_alloc [OF fresh r n] by (simp add: liballoc_def)
qed

lemma first_region_array:
  assumes fresh: "fresh_process u c" and r: "sym_ok (int_of_u32 r)"
    and n: "0 < int_of_u32 n" "int_of_u32 n \<le> 4000000"
    and frames: "pages_of (int_of_u32 n) \<le> int (length (free_fp_list (c_mram c)))"
  shows "\<exists>m. length m = nat (int_of_u32 n) \<and> holds_array u (after_first u c (int_of_u32 r) (int_of_u32 n)) r m"
proof -
  let ?c = "after_first u c (int_of_u32 r) (int_of_u32 n)"
  let ?m = "map (\<lambda>i. va_load u ?c (byte_addr ?c r i)) [0..<nat (int_of_u32 n)]"
  have ok: "va_ok ?c (byte_addr ?c r i)" "byte_addr ?c r i = int i" if "i < nat (int_of_u32 n)" for i
    using first_region_ok(1) [OF fresh n frames, of "int i" "int_of_u32 r"]
      first_region_ok(2) [OF fresh n frames, of "int i"] that by (simp_all add: byte_addr_def)
  have "one_vma (c_mm ?c) (first_area u (int_of_u32 n))"
    by (simp add: one_vma_def first_area_def area0_def)
  then have "holds_array u ?c r ?m"
    using r n ok by (auto simp: holds_array_def holds_bytes_def)
  then show ?thesis by (intro exI [of _ ?m]) simp
qed

end
