(* ===== verification/Access.thy ===== *)
theory Access
  imports Arrays
begin

text \<open>
  Access to a byte through a region (\<open>libread\<close>, \<open>libwrite\<close>) when its page may have to be
  brought in first: \<open>brought\<close> is the state in which the byte is then read or written.
\<close>

section \<open>A page at hand\<close>

text \<open>A page that is resident, or that can be brought in: there is a victim, and the swap device has a free frame.\<close>

definition swap_ready :: "vmctx \<Rightarrow> int \<Rightarrow> bool" where
  "swap_ready c p \<longleftrightarrow> fifo_pgn (c_mm c) \<noteq> [] \<and> rdmflg (c_mswp c) \<noteq> 0 \<and>
    free_fp_list (c_mswp c) \<noteq> [] \<and> page_in (c_mswp c) (hd (free_fp_list (c_mswp c))) \<and>
    page_in (c_mswp c) (PAGING_PTE_SWP (pgd (c_mm c) p))"

definition at_hand :: "vmctx \<Rightarrow> int \<Rightarrow> bool" where
  "at_hand c p \<longleftrightarrow> paging_inv c \<and> 0 \<le> p \<and> p < 16384 \<and>
    (resident (c_mm c) p \<or> \<not> PAGING_PAGE_PRESENT (pgd (c_mm c) p) \<and> swap_ready c p)"

definition brought :: "vmctx \<Rightarrow> int \<Rightarrow> vmctx" where
  "brought c p = (if resident (c_mm c) p then c
    else swapped_in p (last (fifo_pgn (c_mm c))) (hd (free_fp_list (c_mswp c))) (tl (free_fp_list (c_mswp c))) c)"

lemma brought_resident [simp]: "resident (c_mm c) p \<Longrightarrow> brought c p = c"
  by (simp add: brought_def)

lemma swapped_in_fields [simp]:
  "mmap (c_mm (swapped_in p v s ss c)) = mmap (c_mm c)"
  "symrgtbl (c_mm (swapped_in p v s ss c)) = symrgtbl (c_mm c)"
  "c_lock (swapped_in p v s ss c) = c_lock c"
  "free_fp_list (c_mram (swapped_in p v s ss c)) = free_fp_list (c_mram c)"
  "maxsz (c_mram (swapped_in p v s ss c)) = maxsz (c_mram c)"
  "rdmflg (c_mram (swapped_in p v s ss c)) = rdmflg (c_mram c)"
  by (simp_all add: swapped_in_def Let_def)

lemma brought_fields [simp]:
  "mmap (c_mm (brought c p)) = mmap (c_mm c)" "symrgtbl (c_mm (brought c p)) = symrgtbl (c_mm c)"
  "c_lock (brought c p) = c_lock c" "free_fp_list (c_mram (brought c p)) = free_fp_list (c_mram c)"
  "maxsz (c_mram (brought c p)) = maxsz (c_mram c)" "rdmflg (c_mram (brought c p)) = rdmflg (c_mram c)"
  by (simp_all add: brought_def)

lemma one_vma_brought [simp]: "one_vma (c_mm (brought c p)) v = one_vma (c_mm c) v"
  by (simp add: one_vma_def)

lemma last_fifo_resident:
  assumes "paging_inv c" and "fifo_pgn (c_mm c) \<noteq> []"
  shows "resident (c_mm c) (last (fifo_pgn (c_mm c)))"
  using assms by (auto simp: paging_inv_def)

lemma at_hand_faultD:
  assumes "at_hand c p" and "\<not> resident (c_mm c) p"
  shows "paging_inv c" "fifo_pgn (c_mm c) \<noteq> []" "0 \<le> p" "p < 16384" "\<not> PAGING_PAGE_PRESENT (pgd (c_mm c) p)"
    and "p \<noteq> last (fifo_pgn (c_mm c))"
  using assms last_fifo_resident [of c] by (auto simp: at_hand_def swap_ready_def)

lemma at_hand_brought:
  assumes h: "at_hand c p"
  shows "paging_inv (brought c p)" and "resident (c_mm (brought c p)) p"
    and "pg_getpage u p f c = Inr (0, frame_of (c_mm (brought c p)) p, brought c p)"
proof -
  have "paging_inv (brought c p) \<and> resident (c_mm (brought c p)) p \<and>
    pg_getpage u p f c = Inr (0, frame_of (c_mm (brought c p)) p, brought c p)"
  proof (cases "resident (c_mm c) p")
    case True
    then show ?thesis using h by (simp add: at_hand_def pg_getpage_resident)
  next
    case False
    note d = at_hand_faultD [OF h False]
    let ?v = "last (fifo_pgn (c_mm c))" and ?l = "free_fp_list (c_mswp c)"
    have "swap_ready c p" using h False by (simp add: at_hand_def)
    then have "pg_swapin u p c = Inr (0, swapped_in p ?v (hd ?l) (tl ?l) c)"
      by (intro pg_swapin_eq [OF d(1,2,5)]) (simp_all add: swap_ready_def)
    then have "pg_getpage u p f c = Inr (0, frame_of (c_mm (brought c p)) p, brought c p)"
      using d False by (simp add: pg_getpage_def frame_of_def brought_def)
    then show ?thesis
      using paging_inv_swapped_in [OF d(1,2,3,4,5)] resident_swapped_in [OF d(3,4,6)] False
      by (simp add: brought_def)
  qed
  then show "paging_inv (brought c p)" "resident (c_mm (brought c p)) p"
    "pg_getpage u p f c = Inr (0, frame_of (c_mm (brought c p)) p, brought c p)"
    by blast+
qed

lemma pg_val_brought:
  assumes "at_hand c (va_page a)"
  shows "pg_getval u a d c = pg_getval u a d (brought c (va_page a))"
    and "pg_setval u a x c = pg_setval u a x (brought c (va_page a))"
  using at_hand_brought [OF assms] pg_getpage_resident [of "brought c (va_page a)" "va_page a"]
  by (simp_all add: pg_getval_def pg_setval_def va_page_def [symmetric] Let_def)

section \<open>The frames of the process\<close>

lemma frames_used_swapped_in:
  assumes inv: "paging_inv c" and fifo: "fifo_pgn (c_mm c) \<noteq> []"
    and p: "0 \<le> p" "p < 16384" "\<not> resident (c_mm c) p"
  shows "frames_used (c_mm (swapped_in p (last (fifo_pgn (c_mm c))) s ss c)) = frames_used (c_mm c)"
proof -
  let ?v = "last (fifo_pgn (c_mm c))"
  have v: "resident (c_mm c) ?v" by (rule last_fifo_resident [OF inv fifo])
  then have pv: "p \<noteq> ?v" using p(3) by blast
  show ?thesis
    using v p(3) unfolding frames_used_def resident_swapped_in [OF p(1,2) pv] frame_of_swapped_in [OF pv]
    by (auto simp: image_iff)
qed

lemma frames_used_brought [simp]:
  "at_hand c p \<Longrightarrow> frames_used (c_mm (brought c p)) = frames_used (c_mm c)"
  using frames_used_swapped_in [of c p] at_hand_faultD [of c p] by (simp add: brought_def)

text \<open>Only bytes of the process's own frames change.\<close>

lemma brought_storage:
  assumes h: "at_hand c p" and f: "f \<notin> frames_used (c_mm c)" and i: "0 \<le> i" "i < 256"
  shows "storage (c_mram (brought c p)) (f * 256 + i) = storage (c_mram c) (f * 256 + i)"
proof (cases "resident (c_mm c) p")
  case False
  let ?v = "last (fifo_pgn (c_mm c))"
  have "resident (c_mm c) ?v" using last_fifo_resident at_hand_faultD(1,2) [OF h False] by blast
  then have "f \<noteq> frame_of (c_mm c) ?v" using f by (auto simp: frames_used_def)
  then show ?thesis
    using False i ram_page_put_page [OF i, of _ "frame_of (c_mm c) ?v" _ f]
    by (simp add: brought_def swapped_in_def Let_def ram_page_def)
qed simp

section \<open>The library calls\<close>

definition reg_byte :: "vmctx \<Rightarrow> u32 \<Rightarrow> u32 \<Rightarrow> int" where
  "reg_byte c r off = rg_addr (symrgtbl (c_mm c) (int_of_u32 r)) (int_of_u32 off)"

definition byte_ready :: "vmctx \<Rightarrow> u32 \<Rightarrow> u32 \<Rightarrow> bool" where
  "byte_ready c r off \<longleftrightarrow> (\<exists>v. one_vma (c_mm c) v) \<and> sym_ok (int_of_u32 r) \<and>
    at_hand c (va_page (reg_byte c r off)) \<and> 0 \<le> reg_byte c r off \<and> reg_byte c r off < 4194304"

lemma byte_readyD:
  assumes "byte_ready c r off"
  defines "c' \<equiv> brought c (va_page (reg_byte c r off))"
  obtains v where "one_vma (c_mm c) v" "one_vma (c_mm c') v" "sym_ok (int_of_u32 r)"
    "at_hand c (va_page (reg_byte c r off))" "va_ok c' (reg_byte c r off)" "reg_byte c' r off = reg_byte c r off"
proof -
  obtain v where v: "one_vma (c_mm c) v" and h: "sym_ok (int_of_u32 r)" "at_hand c (va_page (reg_byte c r off))"
      "0 \<le> reg_byte c r off" "reg_byte c r off < 4194304"
    using assms(1) by (auto simp: byte_ready_def)
  show thesis
    by (rule that [OF v]) (use v h at_hand_brought [OF h(2)] in \<open>simp_all add: c'_def va_ok_def reg_byte_def\<close>)
qed

lemma lib_access_brought:
  assumes "byte_ready c r off"
  defines "c' \<equiv> brought c (va_page (reg_byte c r off))"
  shows "libread u c r off = Inr (0, u32_of_byte (va_load u c' (reg_byte c r off)), c')"
    and "libwrite u c x r off = Inr (0, va_store u c' (reg_byte c r off) x)"
proof -
  obtain v where v: "one_vma (c_mm c) v" "one_vma (c_mm c') v" and i: "sym_ok (int_of_u32 r)"
    and h: "at_hand c (va_page (reg_byte c r off))" and ok: "va_ok c' (reg_byte c r off)"
    and a: "reg_byte c' r off = reg_byte c r off"
    using byte_readyD [OF assms(1)] unfolding c'_def by blast
  note val = pg_val_brought [OF h, of u, folded c'_def]
  have rd: "rg_read u c 0 (int_of_u32 r) (int_of_u32 off) d = rg_read u c' 0 (int_of_u32 r) (int_of_u32 off) d" for d
    using get_vma_by_num_one [OF v(1), of 0] get_vma_by_num_one [OF v(2), of 0] i val(1) a
    by (simp add: rg_read_def get_symrg_byid_ok symrg_ref_ok reg_byte_def)
  have wr: "rg_write u c 0 (int_of_u32 r) (int_of_u32 off) x = rg_write u c' 0 (int_of_u32 r) (int_of_u32 off) x"
    using get_vma_by_num_one [OF v(1), of 0] get_vma_by_num_one [OF v(2), of 0] i val(2) a
    by (simp add: rg_write_def get_symrg_byid_ok symrg_ref_ok reg_byte_def)
  have ok': "va_ok c' (rg_addr (symrgtbl (c_mm c') (int_of_u32 r)) (int_of_u32 off))"
    using ok a by (simp add: reg_byte_def)
  have "libread u c r off = libread u c' r off" "libwrite u c x r off = libwrite u c' x r off"
    by (simp_all add: libread_def libwrite_def rd wr)
  then show "libread u c r off = Inr (0, u32_of_byte (va_load u c' (reg_byte c r off)), c')"
    "libwrite u c x r off = Inr (0, va_store u c' (reg_byte c r off) x)"
    using libread_resident [OF v(2) i ok', of u] libwrite_resident [OF v(2) i ok', of u x] a
    by (simp_all add: reg_byte_def)
qed

end
