(* ===== verification/Isolation.thy ===== *)
theory Isolation
  imports Cpu Access
begin

text \<open>
  The memories of several processes share one RAM.  As long as no two processes map the
  same frame, an instruction that stays within its own regions leaves every byte of every
  other process as it is, and still no two processes map the same frame.
\<close>

section \<open>Actors with a view of their own\<close>

text \<open>
  A step of one actor, where \<open>may\<close> admits it, succeeds and leaves what every other actor
  sees of the state as it is; so does a sequence of steps, for those that take no part.
\<close>

fun run_seq :: "('a \<Rightarrow> 's \<Rightarrow> ('r \<times> 's) outcome) \<Rightarrow> 'a list \<Rightarrow> 's \<Rightarrow> 's outcome" where
  "run_seq step [] s = Inr s"
| "run_seq step (a # as) s = rbind (step a s) (\<lambda>(_, s). run_seq step as s)"

fun admitted :: "('a \<Rightarrow> 's \<Rightarrow> ('r \<times> 's) outcome) \<Rightarrow> ('a \<Rightarrow> 's \<Rightarrow> bool) \<Rightarrow> 'a list \<Rightarrow> 's \<Rightarrow> bool" where
  "admitted step may [] s \<longleftrightarrow> True"
| "admitted step may (a # as) s \<longleftrightarrow>
    may a s \<and> (case step a s of Inl _ \<Rightarrow> True | Inr (_, s) \<Rightarrow> admitted step may as s)"

locale private_views =
  fixes step :: "'a \<Rightarrow> 's \<Rightarrow> ('r \<times> 's) outcome"
    and may :: "'a \<Rightarrow> 's \<Rightarrow> bool"
    and inv :: "'s \<Rightarrow> bool"
    and actor :: "'a \<Rightarrow> 'd"
    and view :: "'s \<Rightarrow> 'd \<Rightarrow> 'v"
  assumes step_private: "inv s \<Longrightarrow> may a s \<Longrightarrow>
    \<exists>x s'. step a s = Inr (x, s') \<and> inv s' \<and> (\<forall>d. d \<noteq> actor a \<longrightarrow> view s' d = view s d)"
begin

lemma run_private:
  "inv s \<Longrightarrow> admitted step may as s \<Longrightarrow>
    \<exists>s'. run_seq step as s = Inr s' \<and> inv s' \<and> (\<forall>d. d \<notin> actor ` set as \<longrightarrow> view s' d = view s d)"
proof (induction as arbitrary: s)
  case (Cons a as)
  obtain x s1 where s1: "step a s = Inr (x, s1)" "inv s1" "\<And>d. d \<noteq> actor a \<Longrightarrow> view s1 d = view s d"
    using step_private [of s a] Cons.prems by auto
  then have "admitted step may as s1" using Cons.prems(2) by simp
  then obtain s2 where "run_seq step as s1 = Inr s2" "inv s2" "\<forall>d. d \<notin> actor ` set as \<longrightarrow> view s2 d = view s1 d"
    using Cons.IH [OF s1(2)] by blast
  then show ?case using s1 by auto
qed simp

lemma view_after:
  assumes "inv s" and "admitted step may as s" and "run_seq step as s = Inr s'" and "d \<notin> actor ` set as"
  shows "view s' d = view s d"
  using run_private [OF assms(1,2)] assms(3,4) by auto

end

section \<open>Processes that share no frame\<close>

definition mem_ok :: "kernel \<Rightarrow> bool" where
  "mem_ok k \<longleftrightarrow> (\<forall>p b. k_heap k p = Some b \<longrightarrow> paging_inv (ctx_of k b) \<and>
    (\<forall>q c. q \<noteq> p \<longrightarrow> k_heap k q = Some c \<longrightarrow> frames_used (mm b) \<inter> frames_used (mm c) = {}))"

text \<open>The bytes of process \<open>q\<close>, by virtual address.\<close>

definition bytes_of :: "kernel \<Rightarrow> pcb_ptr \<Rightarrow> int \<Rightarrow> u8 option" where
  "bytes_of k q a = (case k_heap k q of None \<Rightarrow> None | Some c \<Rightarrow> va_view (mm c) (k_mram k) a)"

lemma mem_okD:
  assumes "mem_ok k" and "k_heap k p = Some b"
  shows "paging_inv (ctx_of k b)"
    and "q \<noteq> p \<Longrightarrow> k_heap k q = Some c \<Longrightarrow> frames_used (mm b) \<inter> frames_used (mm c) = {}"
  using assms unfolding mem_ok_def by blast+

lemma ctx_of_simps [simp]:
  "c_mm (ctx_of k b) = mm b" "c_mram (ctx_of k b) = k_mram k" "c_mswp (ctx_of k b) = k_mswp k"
  "c_lock (ctx_of k b) = k_mmvm_lock k"
  by (simp_all add: ctx_of_def)

text \<open>
  What a library call of one process may do for the others not to notice: it gains frames
  from the pool only, and changes bytes of its own frames only.
\<close>

definition own_frames_only :: "vmctx \<Rightarrow> vmctx \<Rightarrow> bool" where
  "own_frames_only c c' \<longleftrightarrow> paging_inv c' \<and> frames_reach c' \<subseteq> frames_reach c \<and>
    maxsz (c_mram c') = maxsz (c_mram c) \<and> rdmflg (c_mram c') = rdmflg (c_mram c) \<and>
    (\<forall>f i. f \<notin> frames_used (c_mm c) \<longrightarrow> 0 \<le> i \<longrightarrow> i < 256 \<longrightarrow>
       storage (c_mram c') (f * 256 + i) = storage (c_mram c) (f * 256 + i))"

lemma paging_inv_other:
  assumes inv: "paging_inv (ctx_of k b)" and own: "own_frames_only c c'" "c_mram c = k_mram k"
    and apart: "frames_used (c_mm c) \<inter> frames_used (mm b) = {}" and k': "k_mram k' = c_mram c'"
  shows "paging_inv (ctx_of k' b)"
proof -
  have pages: "page_in (c_mram c') = page_in (k_mram k)" using own by (simp add: own_frames_only_def page_in_def fun_eq_iff)
  have inv': "paging_inv c'" and reach: "frames_reach c' \<subseteq> frames_reach c" using own(1) by (simp_all add: own_frames_only_def)
  have "f \<notin> frames_used (mm b)" if "f \<in> set (free_fp_list (c_mram c'))" for f
  proof -
    have "f \<in> frames_reach c" using reach that by (auto simp: frames_reach_def)
    then show ?thesis using apart inv own(2) by (auto simp: frames_reach_def paging_inv_def frames_used_def)
  qed
  then show ?thesis
    using inv inv' pages own k' by (auto simp: paging_inv_def own_frames_only_def frames_used_def)
qed

lemma va_view_other:
  assumes inv: "paging_inv (ctx_of k b)" and own: "own_frames_only c c'" "c_mram c = k_mram k"
    and apart: "frames_used (c_mm c) \<inter> frames_used (mm b) = {}"
  shows "va_view (mm b) (c_mram c') a = va_view (mm b) (k_mram k) a"
proof (cases "resident (mm b) (va_page a)")
  case True
  then have "frame_of (mm b) (va_page a) \<notin> frames_used (c_mm c)" using apart by (auto simp: frames_used_def)
  moreover have "0 \<le> PAGING_OFFST (u32_of_int a)" "PAGING_OFFST (u32_of_int a) < 256" by (simp_all add: PAGING_OFFST_eq)
  ultimately show ?thesis using own by (simp add: own_frames_only_def va_view_def)
qed (simp add: va_view_def)

lemma on_ctx_isolated:
  assumes ok: "mem_ok k" and p: "k_heap k p = Some b"
    and f: "f (ctx_of k b) = Inr (x, c')" and own: "own_frames_only (ctx_of k b) c'"
  shows "\<exists>k'. on_ctx k p f = Inr (x, k') \<and> mem_ok k' \<and> (\<forall>q. q \<noteq> p \<longrightarrow> bytes_of k' q = bytes_of k q)"
proof -
  let ?k = "put_ctx k p b c'"
  have run: "on_ctx k p f = Inr (x, ?k)" using p f by (simp add: on_ctx_def)
  have heap: "k_heap ?k = (k_heap k)(p \<mapsto> b\<lparr>mm := c_mm c'\<rparr>)" "k_mram ?k = c_mram c'"
    by (simp_all add: put_ctx_def)
  have apart: "frames_used (mm b) \<inter> frames_used (mm c) = {}" if "k_heap k q = Some c" "q \<noteq> p" for q c
    using mem_okD(2) [OF ok p] that by blast
  have other: "paging_inv (ctx_of ?k c)" if "k_heap k q = Some c" "q \<noteq> p" for q c
    using paging_inv_other [OF mem_okD(1) [OF ok that(1)] own _ _ heap(2)] apart [OF that] by simp
  have mine: "paging_inv (ctx_of ?k (b\<lparr>mm := c_mm c'\<rparr>))"
  proof -
    have "paging_inv c'" using own by (simp add: own_frames_only_def)
    then show ?thesis using paging_inv_cong [of "ctx_of ?k (b\<lparr>mm := c_mm c'\<rparr>)" c'] heap(2) by simp
  qed
  have new: "frames_used (c_mm c') \<inter> frames_used (mm c) = {}" if "k_heap k q = Some c" "q \<noteq> p" for q c
  proof -
    have "frames_used (c_mm c') \<subseteq> frames_used (mm b) \<union> set (free_fp_list (k_mram k))"
      using own by (auto simp: own_frames_only_def frames_reach_def)
    moreover have "set (free_fp_list (k_mram k)) \<inter> frames_used (mm c) = {}"
      using mem_okD(1) [OF ok that(1)] by (auto simp: paging_inv_def frames_used_def)
    ultimately show ?thesis using apart [OF that] by blast
  qed
  have "mem_ok ?k"
    unfolding mem_ok_def
  proof (intro allI impI conjI)
    fix q c assume q: "k_heap ?k q = Some c"
    show "paging_inv (ctx_of ?k c)" using q mine other [of q c] heap(1) by (cases "q = p") simp_all
    fix r d assume r: "r \<noteq> q" "k_heap ?k r = Some d"
    show "frames_used (mm c) \<inter> frames_used (mm d) = {}"
    proof (cases "q = p")
      case True
      then show ?thesis using q r new [of r d] heap(1) by auto
    next
      case False
      then have c: "k_heap k q = Some c" using q heap(1) by simp
      show ?thesis
      proof (cases "r = p")
        case True
        then show ?thesis using new [OF c False] r heap(1) by auto
      next
        case False
        then show ?thesis using mem_okD(2) [OF ok c r(1)] r heap(1) by simp
      qed
    qed
  qed
  moreover have "bytes_of ?k q = bytes_of k q" if "q \<noteq> p" for q
    using that va_view_other [OF mem_okD(1) [OF ok] own] apart heap by (auto simp: bytes_of_def fun_eq_iff split: option.split)
  ultimately show ?thesis using run by blast
qed

section \<open>The library calls\<close>

text \<open>Allocation takes frames from the pool and leaves the bytes alone.\<close>

definition same_bytes :: "vmctx \<Rightarrow> vmctx \<Rightarrow> bool" where
  "same_bytes c c' \<longleftrightarrow> storage (c_mram c') = storage (c_mram c) \<and> maxsz (c_mram c') = maxsz (c_mram c) \<and>
    rdmflg (c_mram c') = rdmflg (c_mram c)"

lemma same_bytes_refl [simp]: "same_bytes c c"
  by (simp add: same_bytes_def)

lemma same_bytes_mram: "c_mram c' = c_mram c \<Longrightarrow> same_bytes c c'"
  by (simp add: same_bytes_def)

lemma same_bytes_trans: "same_bytes a b \<Longrightarrow> same_bytes b c \<Longrightarrow> same_bytes a c"
  by (simp add: same_bytes_def)

lemma alloc_pages_range_bytes: "alloc_pages_range c n l = (r, fl, c') \<Longrightarrow> same_bytes c c'"
  by (auto simp: alloc_pages_range_def alloc_pages_loop_eq same_bytes_def)

lemma vm_map_ram_bytes:
  assumes "vm_map_ram c a b ms n rg = Inr (r, rg', c')"
  shows "same_bytes c c'"
proof -
  obtain ret fl c1 where c1: "alloc_pages_range c n [] = (ret, fl, c1)"
    by (cases "alloc_pages_range c n []") auto
  have "c_mram c' = c_mram c1"
    using assms by (auto simp: vm_map_ram_def c1 rbind_Inr_iff split: if_splits)
  then show ?thesis using alloc_pages_range_bytes [OF c1] by (simp add: same_bytes_def)
qed

lemma set_symrg_bytes: "set_symrg i rg c = Inr c' \<Longrightarrow> c_mram c' = c_mram c"
  by (auto simp: set_symrg_def rbind_Inr_iff)

lemma get_free_bytes:
  assumes "get_free_vmrg_area c vmaid s new = Inr (r, rg, c')"
  shows "c_mram c' = c_mram c"
proof -
  obtain i where i: "rbind (get_vma_by_num (c_mm c) vmaid) deref = Inr i"
    using assms by (auto simp: get_free_vmrg_area_def rbind_Inr_iff)
  then show ?thesis
    using assms by (cases "vm_freerg_list (mmap (c_mm c) ! i) = []")
      (auto simp: get_free_vmrg_area_def Let_def split: option.split_asm)
qed

lemma at_brk_bytes: "get_vm_area_node_at_brk u c vmaid s n = Inr (r, c') \<Longrightarrow> c_mram c' = c_mram c"
  by (auto simp: get_vm_area_node_at_brk_def rbind_Inr_iff Let_def split: option.splits)

lemma inc_vma_limit_bytes:
  assumes "inc_vma_limit u c vmaid s = Inr (r, c')"
  shows "same_bytes c c'"
proof -
  let ?get = "get_vm_area_node_at_brk u c vmaid s (PAGING_PAGE_ALIGNSZ s)"
  obtain area c1 i where c1: "?get = Inr (area, c1)" and i: "rbind (get_vma_by_num (c_mm c1) vmaid) deref = Inr i"
    using assms by (auto simp: inc_vma_limit_def Let_def rbind_Inr_iff)
  have same: "same_bytes c c1" using at_brk_bytes [OF c1] by (rule same_bytes_mram)
  show ?thesis
  proof (cases area)
    case None
    then have "c' = c1" using assms by (simp add: inc_vma_limit_def Let_def c1 i)
    then show ?thesis using same by simp
  next
    case (Some rg)
    show ?thesis
    proof (cases "validate_overlap_vm_area (c_mm c1) vmaid (int_of_u64 (rg_start rg)) (int_of_u64 (rg_end rg)) < 0")
      case True
      then have "c' = c1" using assms Some by (simp add: inc_vma_limit_def Let_def c1 i)
      then show ?thesis using same by simp
    next
      case False
      then obtain m a b ms n rg0 r1 rg1 where "vm_map_ram (c1\<lparr>c_mm := m\<rparr>) a b ms n rg0 = Inr (r1, rg1, c')"
        using assms Some by (auto simp: inc_vma_limit_def Let_def c1 i rbind_Inr_iff split: if_splits)
      then have "same_bytes (c1\<lparr>c_mm := m\<rparr>) c'" by (rule vm_map_ram_bytes)
      then show ?thesis using same by (simp add: same_bytes_def)
    qed
  qed
qed

lemma rg_alloc_bytes:
  assumes "rg_alloc u c vmaid i s = Inr (r, a, c')"
  shows "same_bytes c c'"
  using assms
  by (auto simp: rg_alloc_def rbind_Inr_iff Let_def lock_mmvm_def same_bytes_def unlock_mmvm_def
      dest!: get_free_bytes set_symrg_bytes inc_vma_limit_bytes [unfolded same_bytes_def] split: if_splits)

lemma own_refl: "paging_inv c \<Longrightarrow> own_frames_only c c"
  by (simp add: own_frames_only_def)

lemma own_same_bytes:
  "paging_inv c' \<Longrightarrow> frames_reach c' \<subseteq> frames_reach c \<Longrightarrow> same_bytes c c' \<Longrightarrow> own_frames_only c c'"
  by (simp add: own_frames_only_def same_bytes_def)

lemma area_safe_vma: "area_safe c c' \<Longrightarrow> \<exists>v. one_vma (c_mm c') v"
  by (auto simp: area_safe_def area_wf_def)

lemma liballoc_own:
  assumes "\<not> c_lock c" and "sym_ok (int_of_u32 r)" and "can_alloc c v (int_of_u32 n)"
  shows "\<exists>c'. liballoc u c n r = Inr (0, c') \<and> own_frames_only c c'"
proof -
  obtain a c' where c': "rg_alloc u c 0 (int_of_u32 r) (int_of_u32 n) = Inr (0, a, c')" "area_safe c c'"
    using rg_alloc_serves [OF assms] by blast
  obtain w where "one_vma (c_mm c') w" using area_safe_vma [OF c'(2)] by blast
  then obtain d where "io_dump (c_mm c') (mmap_end (c_mm c')) = Inr d" using io_dump_returns(2) by blast
  moreover have "own_frames_only c c'"
    using c'(2) rg_alloc_bytes [OF c'(1)] by (intro own_same_bytes) (simp_all add: area_safe_def)
  ultimately show ?thesis using c'(1) by (simp add: liballoc_def)
qed

lemma libfree_own:
  assumes "paging_inv c" and v: "one_vma (c_mm c) v" and i: "sym_ok (int_of_u32 r)"
  shows "\<exists>x c'. libfree c r = Inr (x, c') \<and> own_frames_only c c'"
proof -
  let ?rg = "symrgtbl (c_mm c) (int_of_u32 r)"
  let ?c = "put_sym (int_of_u32 r) (invalid_rg ?rg) c"
  obtain x c' where c': "rg_free c 0 (int_of_u32 r) = Inr (x, c')" "c' = ?c \<or> c' = put_free v ?rg ?c"
    using rg_free_ok [OF i one_vma_mmap [OF v], of 0] by (metis (full_types))
  have same: "pgd (c_mm c') = pgd (c_mm c)" "fifo_pgn (c_mm c') = fifo_pgn (c_mm c)" "c_mram c' = c_mram c"
    using c'(2) by (auto simp: put_free_def)
  obtain w where "one_vma (c_mm c') w"
    using c'(2) v by (auto simp: put_free_def one_vma_def)
  then obtain d where "io_dump (c_mm c') (mmap_end (c_mm c')) = Inr d" using io_dump_returns(2) by blast
  moreover have "own_frames_only c c'"
    using assms(1) paging_inv_cong [OF same] frames_reach_cong [OF same(1,3)] same(3)
    by (intro own_same_bytes same_bytes_mram) simp_all
  ultimately show ?thesis using c'(1) by (simp add: libfree_def)
qed

lemma va_store_own:
  assumes "va_ok c a"
  shows "own_frames_only c (va_store u c a x)"
proof -
  let ?g = "frame_of (c_mm c) (va_page a)"
  have inv: "paging_inv c" "resident (c_mm c) (va_page a)" using assms by (simp_all add: va_ok_def)
  have "?g \<in> frames_used (c_mm c)" using inv(2) by (auto simp: frames_used_def)
  moreover have "0 \<le> PAGING_OFFST (u32_of_int a)" "PAGING_OFFST (u32_of_int a) < 256" by simp_all
  ultimately have "f * 256 + i \<noteq> ?g * 256 + PAGING_OFFST (u32_of_int a)"
    if "f \<notin> frames_used (c_mm c)" "0 \<le> i" "i < 256" for f i
    using phys_byte_inj [OF that(2,3), of "PAGING_OFFST (u32_of_int a)" f ?g] that(1) by auto
  then show ?thesis
    unfolding own_frames_only_def va_store_eq [OF assms]
    by (intro conjI allI impI) (simp_all add: inv(1) paging_inv_storage frames_reach_def)
qed

lemma own_trans:
  assumes "own_frames_only c c1" and "frames_used (c_mm c1) = frames_used (c_mm c)" and "own_frames_only c1 c2"
  shows "own_frames_only c c2"
  using assms unfolding own_frames_only_def by (metis order_trans)

lemma brought_own:
  assumes h: "at_hand c p"
  shows "own_frames_only c (brought c p)"
  using at_hand_brought(1) [OF h] brought_storage [OF h] frames_used_brought [OF h]
  by (simp add: own_frames_only_def frames_reach_def)

lemma lib_access_own:
  assumes "byte_ready c r off"
  shows "\<exists>d c'. libread u c r off = Inr (0, d, c') \<and> own_frames_only c c'"
    and "\<exists>c'. libwrite u c x r off = Inr (0, c') \<and> own_frames_only c c'"
proof -
  let ?c = "brought c (va_page (reg_byte c r off))"
  have h: "at_hand c (va_page (reg_byte c r off))" and ok: "va_ok ?c (reg_byte c r off)"
    using byte_readyD [OF assms] by blast+
  note own = brought_own [OF h] frames_used_brought [OF h]
  show "\<exists>d c'. libread u c r off = Inr (0, d, c') \<and> own_frames_only c c'"
    using lib_access_brought(1) [OF assms] own(1) by blast
  show "\<exists>c'. libwrite u c x r off = Inr (0, c') \<and> own_frames_only c c'"
    using lib_access_brought(2) [OF assms] own_trans [OF own va_store_own [OF ok]] by blast
qed

section \<open>Instructions\<close>

text \<open>
  An instruction that stays within the regions of its process: an allocation that fits
  below 4 MB, a release of a slot of the table, an access to a byte whose page is in RAM or
  can be brought in.
\<close>

definition fits :: "vmctx \<Rightarrow> inst_t \<Rightarrow> bool" where
  "fits c ins = (case opcode ins of
      CALC \<Rightarrow> True
    | ALLOC \<Rightarrow> \<not> c_lock c \<and> sym_ok (int_of_u32 (arg_1 ins)) \<and> (\<exists>v. can_alloc c v (int_of_u32 (arg_0 ins)))
    | FREE \<Rightarrow> (\<exists>v. one_vma (c_mm c) v) \<and> sym_ok (int_of_u32 (arg_0 ins))
    | READ \<Rightarrow> byte_ready c (arg_0 ins) (arg_1 ins)
    | WRITE \<Rightarrow> byte_ready c (arg_1 ins) (arg_2 ins)
    | SYSCALL \<Rightarrow> False)"

definition exec_on :: "uninit \<Rightarrow> pcb_ptr \<times> inst_t \<Rightarrow> kernel \<Rightarrow> (int \<times> kernel) outcome" where
  "exec_on u = (\<lambda>(p, ins) k. exec u k p ins)"

definition may_exec :: "pcb_ptr \<times> inst_t \<Rightarrow> kernel \<Rightarrow> bool" where
  "may_exec = (\<lambda>(p, ins) k. case k_heap k p of None \<Rightarrow> False | Some b \<Rightarrow> fits (ctx_of k b) ins)"

lemma exec_memory_isolated:
  assumes ok: "mem_ok k" and p: "k_heap k p = Some b" and fit: "fits (ctx_of k b) ins"
  shows "\<exists>x k'. exec u k p ins = Inr (x, k') \<and> mem_ok k' \<and> (\<forall>q. q \<noteq> p \<longrightarrow> bytes_of k' q = bytes_of k q)"
proof -
  let ?c = "ctx_of k b"
  have inv: "paging_inv ?c" by (rule mem_okD(1) [OF ok p])
  have act: ?thesis if "exec u k p ins = on_ctx k p f" "f ?c = Inr (x, c')" "own_frames_only ?c c'" for f x c'
    using on_ctx_isolated [where f = f, OF ok p that(2,3)] that(1) by auto
  show ?thesis
  proof (cases "opcode ins")
    case CALC
    then show ?thesis using ok by (simp add: exec_def)
  next
    case ALLOC
    then obtain v where fit: "\<not> c_lock ?c" "sym_ok (int_of_u32 (arg_1 ins))" "can_alloc ?c v (int_of_u32 (arg_0 ins))"
      using fit by (auto simp: fits_def)
    obtain c' where c': "liballoc u ?c (arg_0 ins) (arg_1 ins) = Inr (0, c')" "own_frames_only ?c c'"
      using liballoc_own [OF fit] by blast
    have "exec u k p ins = on_ctx k p (\<lambda>c. liballoc u c (arg_0 ins) (arg_1 ins))" by (simp add: exec_def ALLOC)
    from act [OF this, OF c'] show ?thesis .
  next
    case FREE
    then obtain v where fit: "one_vma (c_mm ?c) v" "sym_ok (int_of_u32 (arg_0 ins))"
      using fit by (auto simp: fits_def)
    obtain x c' where c': "libfree ?c (arg_0 ins) = Inr (x, c')" "own_frames_only ?c c'"
      using libfree_own [OF inv fit] by blast
    have "exec u k p ins = on_ctx k p (\<lambda>c. libfree c (arg_0 ins))" by (simp add: exec_def FREE)
    from act [OF this, OF c'] show ?thesis .
  next
    case READ
    then have "byte_ready ?c (arg_0 ins) (arg_1 ins)" using fit by (simp add: fits_def)
    then obtain d c' where c': "libread u ?c (arg_0 ins) (arg_1 ins) = Inr (0, d, c')" "own_frames_only ?c c'"
      using lib_access_own(1) by blast
    let ?f = "\<lambda>c. rbind (libread u c (arg_0 ins) (arg_1 ins)) (\<lambda>(ret, _, c). Inr (ret, c))"
    have "exec u k p ins = on_ctx k p ?f" by (simp add: exec_def READ)
    moreover have "?f ?c = Inr (0, c')" using c'(1) by simp
    ultimately show ?thesis using act c'(2) by blast
  next
    case WRITE
    then have "byte_ready ?c (arg_1 ins) (arg_2 ins)" using fit by (simp add: fits_def)
    then obtain c' where c': "libwrite u ?c (byte_of_u32 (arg_0 ins)) (arg_1 ins) (arg_2 ins) = Inr (0, c')"
        "own_frames_only ?c c'"
      using lib_access_own(2) by blast
    have "exec u k p ins = on_ctx k p (\<lambda>c. libwrite u c (byte_of_u32 (arg_0 ins)) (arg_1 ins) (arg_2 ins))"
      by (simp add: exec_def WRITE)
    from act [OF this, OF c'] show ?thesis .
  next
    case SYSCALL
    then show ?thesis using fit by (simp add: fits_def)
  qed
qed

text \<open>What a process sees of the kernel: its block and its bytes.\<close>

definition own_view :: "kernel \<Rightarrow> pcb_ptr \<Rightarrow> pcb_t option \<times> (int \<Rightarrow> u8 option)" where
  "own_view k p = (k_heap k p, bytes_of k p)"

lemma fits_not_syscall: "fits c ins \<Longrightarrow> opcode ins \<noteq> SYSCALL"
  by (auto simp: fits_def)

interpretation procs: private_views "exec_on u" may_exec mem_ok fst own_view for u
proof unfold_locales
  fix k and a :: "pcb_ptr \<times> inst_t"
  assume ok: "mem_ok k" and may: "may_exec a k"
  obtain p ins where a: "a = (p, ins)" by (cases a)
  obtain b where b: "k_heap k p = Some b" "fits (ctx_of k b) ins"
    using may by (auto simp: a may_exec_def split: option.splits)
  obtain x k' where k': "exec u k p ins = Inr (x, k')" "mem_ok k'" "\<And>q. q \<noteq> p \<Longrightarrow> bytes_of k' q = bytes_of k q"
    using exec_memory_isolated [OF ok b, of u] by blast
  then show "\<exists>x k'. exec_on u a k = Inr (x, k') \<and> mem_ok k' \<and> (\<forall>q. q \<noteq> fst a \<longrightarrow> own_view k' q = own_view k q)"
    using exec_isolated [OF k'(1) fits_not_syscall [OF b(2)]] by (simp add: a exec_on_def own_view_def)
qed

end
