(* ===== verification/Sharing.thy ===== *)
theory Sharing
  imports Isolation
begin

text \<open>
  Several processes on one machine: what a process wrote is still there after the others
  have run; but the shared swap device carries bytes from one process to another.
\<close>

section \<open>A byte written stays\<close>

lemma bytes_of_va_load:
  assumes "k_heap k p = Some b" and "va_ok (ctx_of k b) a"
  shows "bytes_of k p a = Some (va_load u (ctx_of k b) a)"
  using assms by (simp add: bytes_of_def va_load_eq [OF assms(2)]) (simp add: va_view_def va_ok_def)

lemma va_ok_cong:
  "mm b' = mm b \<Longrightarrow> paging_inv (ctx_of k' b') \<Longrightarrow> va_ok (ctx_of k b) a \<Longrightarrow> va_ok (ctx_of k' b') a"
  by (simp add: va_ok_def)

lemma write_survives:
  assumes ok: "mem_ok k" and p: "k_heap k p = Some b" and ins: "opcode ins = WRITE"
    and adm: "admitted (exec_on u) may_exec ((p, ins) # others) k" and "p \<notin> fst ` set others"
    and w: "va_ok (ctx_of k b) (reg_byte (ctx_of k b) (arg_1 ins) (arg_2 ins))"
    and r: "sym_ok (int_of_u32 r)" "va_ok (ctx_of k b) (reg_byte (ctx_of k b) r off)"
  defines "x \<equiv> (if reg_byte (ctx_of k b) r off = reg_byte (ctx_of k b) (arg_1 ins) (arg_2 ins)
      then byte_of_u32 (arg_0 ins) else va_load u (ctx_of k b) (reg_byte (ctx_of k b) r off))"
  shows "\<exists>k'. run_seq (exec_on u) ((p, ins) # others) k = Inr k' \<and> k_heap k' p = Some b \<and>
    libread u (ctx_of k' b) r off = Inr (0, u32_of_byte x, ctx_of k' b)"
proof -
  let ?c = "ctx_of k b"
  let ?a = "reg_byte ?c (arg_1 ins) (arg_2 ins)" and ?d = "reg_byte ?c r off"
  let ?c1 = "va_store u ?c ?a (byte_of_u32 (arg_0 ins))"
  have fit: "byte_ready ?c (arg_1 ins) (arg_2 ins)"
    using adm p ins by (simp add: may_exec_def fits_def)
  obtain v where v: "one_vma (c_mm ?c) v" using fit by (auto simp: byte_ready_def)
  have res: "resident (c_mm ?c) (va_page ?a)" using w by (simp add: va_ok_def)
  let ?k1 = "put_ctx k p b ?c1"
  have k1: "exec u k p ins = Inr (0, ?k1)"
    using lib_access_brought(2) [OF fit, of u] res p ins
    by (simp add: exec_def on_ctx_def del: ctx_of_simps)
  have mm1: "c_mm ?c1 = mm b" using w by simp
  then have h1: "k_heap ?k1 p = Some b" "k_mram ?k1 = c_mram ?c1" by (simp_all add: put_ctx_def)
  have ok1: "mem_ok ?k1"
    using exec_memory_isolated [OF ok p, of ins u] k1 fit ins by (auto simp: fits_def)
  have adm1: "admitted (exec_on u) may_exec others ?k1"
    using adm k1 by (simp add: exec_on_def)
  obtain k' where k': "run_seq (exec_on u) others ?k1 = Inr k'" "mem_ok k'" "own_view k' p = own_view ?k1 p"
    using procs.run_private [OF ok1 adm1] assms(5) by blast
  then have h': "k_heap k' p = Some b" "bytes_of k' p = bytes_of ?k1 p"
    using h1(1) by (simp_all add: own_view_def)
  have ok': "va_ok (ctx_of k' b) ?d"
    by (rule va_ok_cong [OF refl mem_okD(1) [OF k'(2) h'(1)] r(2)])
  have "va_load u (ctx_of k' b) ?d = x"
  proof -
    have "Some (va_load u (ctx_of k' b) ?d) = bytes_of ?k1 p ?d"
      using bytes_of_va_load [OF h'(1) ok'] h'(2) by simp
    also have "\<dots> = Some (va_load u ?c1 ?d)"
    proof -
      have "va_ok (ctx_of ?k1 b) ?d" by (rule va_ok_cong [OF refl mem_okD(1) [OF ok1 h1(1)] r(2)])
      moreover have "va_ok ?c1 ?d" using vmem.ok_wr [OF w] r(2) by blast
      ultimately show ?thesis
        using bytes_of_va_load [OF h1(1), of ?d u] h1(2) mm1 by (simp add: va_load_eq)
    qed
    also have "va_load u ?c1 ?d = x"
      using vmem.rd_wr_same [OF w] vmem.rd_wr_other [OF w] by (auto simp: x_def)
    finally show ?thesis by simp
  qed
  then have "libread u (ctx_of k' b) r off = Inr (0, u32_of_byte x, ctx_of k' b)"
    using libread_resident [of "ctx_of k' b" v r off u] v r(1) ok' by (simp add: reg_byte_def)
  then show ?thesis using k1 k'(1) h'(1) by (simp add: exec_on_def)
qed

lemma read_before_write:
  assumes p: "k_heap k p = Some b" and "opcode ins = WRITE"
    and "admitted (exec_on u) may_exec ((p, ins) # others) k"
    and "sym_ok (int_of_u32 r)" and "va_ok (ctx_of k b) (reg_byte (ctx_of k b) r off)"
  shows "libread u (ctx_of k b) r off = Inr (0, u32_of_byte (va_load u (ctx_of k b) (reg_byte (ctx_of k b) r off)), ctx_of k b)"
proof -
  have "\<exists>v. one_vma (c_mm (ctx_of k b)) v"
    using assms(1-3) by (simp add: may_exec_def fits_def byte_ready_def)
  then show ?thesis
    using libread_resident [of "ctx_of k b" _ r off u] assms(4,5) by (auto simp: reg_byte_def)
qed

section \<open>Swapping carries bytes between processes\<close>

text \<open>A read of a byte of page \<open>x\<close>, which has to be brought in.\<close>

definition reads_absent :: "vmctx \<Rightarrow> inst_t \<Rightarrow> int \<Rightarrow> bool" where
  "reads_absent c ins x \<longleftrightarrow> opcode ins = READ \<and> byte_ready c (arg_0 ins) (arg_1 ins) \<and>
    va_page (reg_byte c (arg_0 ins) (arg_1 ins)) = x \<and> \<not> resident (c_mm c) x"

lemma exec_reads_absent:
  assumes p: "k_heap k p = Some b" and r: "reads_absent (ctx_of k b) ins x"
    and l: "free_fp_list (k_mswp k) = s # ss"
  shows "exec u k p ins = Inr (0, put_ctx k p b (swapped_in x (last (fifo_pgn (mm b))) s ss (ctx_of k b)))"
  using assms lib_access_brought(1) [of "ctx_of k b" "arg_0 ins" "arg_1 ins" u]
  by (simp add: reads_absent_def exec_def on_ctx_def brought_def)

lemma page_byte:
  assumes "0 \<le> p" "p < 16384" "0 \<le> i" "i < 256"
  shows "va_page (p * 256 + i) = p" and "PAGING_OFFST (u32_of_int (p * 256 + i)) = i"
  using assms by (simp_all add: va_page_eq PAGING_OFFST_int)

lemma swapped_in_contents:
  assumes "0 \<le> i" "i < 256"
  shows "ram_page (c_mswp (swapped_in p v s ss c)) s i = ram_page (c_mram c) (frame_of (c_mm c) v) i"
    and "PAGING_PTE_SWP (pgd (c_mm c) p) \<noteq> s \<Longrightarrow>
      ram_page (c_mram (swapped_in p v s ss c)) (frame_of (c_mm c) v) i =
      ram_page (c_mswp c) (PAGING_PTE_SWP (pgd (c_mm c) p)) i"
proof -
  have "ram_page (mp\<lparr>free_fp_list := l\<rparr>) f i = ram_page mp f i" for mp l f by (simp add: ram_page_def)
  then show "ram_page (c_mswp (swapped_in p v s ss c)) s i = ram_page (c_mram c) (frame_of (c_mm c) v) i"
    "PAGING_PTE_SWP (pgd (c_mm c) p) \<noteq> s \<Longrightarrow>
      ram_page (c_mram (swapped_in p v s ss c)) (frame_of (c_mm c) v) i =
      ram_page (c_mswp c) (PAGING_PTE_SWP (pgd (c_mm c) p)) i"
    using assms by (simp_all add: swapped_in_def Let_def ram_page_put_page)
qed

lemma eviction_leaks:
  assumes ok: "mem_ok k" and p: "k_heap k p = Some b" and q: "k_heap k q = Some c" and pq: "p \<noteq> q"
    and rp: "reads_absent (ctx_of k b) ins x" and rq: "reads_absent (ctx_of k c) ins' y"
    and l: "free_fp_list (k_mswp k) = s # s' # ss" "s \<noteq> s'" "page_in (k_mswp k) s'"
    and sw: "PAGING_PTE_SWP (pgd (mm c) y) = s"
  shows "\<exists>k1 k2. exec u k p ins = Inr (0, k1) \<and> exec u k1 q ins' = Inr (0, k2) \<and>
    (\<forall>i \<in> {0..<256}. bytes_of k2 q (y * 256 + i) = bytes_of k p (last (fifo_pgn (mm b)) * 256 + i) \<and>
      bytes_of k2 q (y * 256 + i) \<noteq> None)"
proof -
  let ?v = "last (fifo_pgn (mm b))" and ?w = "last (fifo_pgn (mm c))"
  let ?c1 = "swapped_in x ?v s (s' # ss) (ctx_of k b)"
  let ?k1 = "put_ctx k p b ?c1"
  let ?c2 = "swapped_in y ?w s' ss (ctx_of ?k1 c)"
  let ?k2 = "put_ctx ?k1 q c ?c2"
  have hb: "at_hand (ctx_of k b) x" "\<not> resident (mm b) x" and hc: "at_hand (ctx_of k c) y" "\<not> resident (mm c) y"
    using rp rq by (auto simp: reads_absent_def byte_ready_def)
  note db = at_hand_faultD [OF hb(1), simplified, OF hb(2)] and dc = at_hand_faultD [OF hc(1), simplified, OF hc(2)]
  have k1: "exec u k p ins = Inr (0, ?k1)" by (rule exec_reads_absent [OF p rp l(1)])
  have fit: "fits (ctx_of k b) ins" using rp by (simp add: reads_absent_def fits_def)
  have ok1: "mem_ok ?k1" using exec_memory_isolated [OF ok p fit, of u] k1 by auto
  have h1: "k_heap ?k1 q = Some c" using q pq by (simp add: put_ctx_def)
  have swp1: "free_fp_list (k_mswp ?k1) = s' # ss" "rdmflg (k_mswp ?k1) = rdmflg (k_mswp k)"
    "page_in (k_mswp ?k1) = page_in (k_mswp k)"
    by (auto simp: put_ctx_def swapped_in_def Let_def fun_eq_iff)
  have evicted: "ram_page (k_mswp ?k1) s i = ram_page (k_mram k) (frame_of (mm b) ?v) i" if "i \<in> {0..<256}" for i
    using that swapped_in_contents(1) [of i x ?v s "s' # ss" "ctx_of k b"] by (simp add: put_ctx_def)
  have "at_hand (ctx_of ?k1 c) y"
    using hc(1) l(3) swp1 mem_okD(1) [OF ok1 h1] by (auto simp: at_hand_def swap_ready_def)
  then have rq1: "reads_absent (ctx_of ?k1 c) ins' y"
    using rq by (simp add: reads_absent_def byte_ready_def reg_byte_def)
  have k2: "exec u ?k1 q ins' = Inr (0, ?k2)"
    by (rule exec_reads_absent [OF h1 rq1]) (simp add: swp1)
  have vb: "resident (mm b) ?v" "0 \<le> ?v" "?v < 16384"
    using last_fifo_resident [of "ctx_of k b"] db by (auto simp: resident_def)
  have "bytes_of ?k2 q (y * 256 + i) = Some (ram_page (k_mram k) (frame_of (mm b) ?v) i)" if i: "i \<in> {0..<256}" for i
  proof -
    have "resident (c_mm ?c2) y" "frame_of (c_mm ?c2) y = frame_of (mm c) ?w"
      using resident_swapped_in [OF dc(3,4,6)] frame_of_swapped_in [OF dc(6)] by simp_all
    moreover have "ram_page (c_mram ?c2) (frame_of (mm c) ?w) i = ram_page (k_mswp ?k1) s i"
      using i l(2) sw swapped_in_contents(2) [of i "ctx_of ?k1 c" y s' ?w ss] by simp
    ultimately show ?thesis
      using evicted [OF i] page_byte [OF dc(3,4), of i] i
      by (simp add: bytes_of_def put_ctx_def va_view_def ram_page_def)
  qed
  moreover have "bytes_of k p (?v * 256 + i) = Some (ram_page (k_mram k) (frame_of (mm b) ?v) i)" if "i \<in> {0..<256}" for i
    using that page_byte [OF vb(2,3), of i] vb(1) p by (simp add: bytes_of_def va_view_def ram_page_def)
  ultimately show ?thesis using k1 k2 by (intro exI [of _ ?k1] exI [of _ ?k2]) simp
qed

text \<open>
  A page that was swapped out is taken for resident, in the frame that the bits of its swap
  offset name: a byte written to it lands there, whoever that frame belongs to.
\<close>

lemma write_to_swapped_page:
  fixes ss :: "int list"
  assumes "0 \<le> v" "v < 16384" "p \<noteq> v" and "rdmflg (c_mram c) \<noteq> 0" and i: "0 \<le> i" "i < 256"
    and g: "page_in (c_mram c) (32 * (s mod 256))"
  defines "c' \<equiv> swapped_in p v s ss c"
  shows "pg_setval u (v * 256 + i) z c' = Inr (0, c'\<lparr>c_mram := (c_mram c')\<lparr>storage :=
    (storage (c_mram c'))(32 * (s mod 256) * 256 + i := z)\<rparr>\<rparr>)"
proof -
  have "page_in (c_mram c') (32 * (s mod 256))" "rdmflg (c_mram c') \<noteq> 0"
    using g assms(4) by (simp_all add: c'_def page_in_def)
  then have ram: "in_storage (c_mram c') (32 * (s mod 256) * 256 + i)" "rdmflg (c_mram c') \<noteq> 0"
    using page_in_storage [OF _ i, of "c_mram c'" "32 * (s mod 256)"] by auto
  have fr: "0 \<le> 32 * (s mod 256)" "32 * (s mod 256) < 8388608"
    using pos_mod_sign [of 256 s] pos_mod_bound [of 256 s] by linarith+
  show ?thesis
    using victim_is_not_swapped_back [OF assms(1-3), of u _ s ss c] ram i
      page_byte(1) [OF assms(1,2) i, unfolded va_page_def] page_byte(2) [OF assms(1,2) i]
    by (simp add: pg_setval_def Let_def c'_def phy_addr_eq [OF fr])
qed

end
