(* ===== verification/Examples.thy ===== *)
theory Examples
  imports Config Programs Sharing
begin

text \<open>
  Concrete states on which the properties of \<open>Spec2Isabelle\<close> are instantiated: a fresh
  process with a RAM of eight frames, the same process after its first allocation, a
  queue of three processes, a scheduler, a kernel and a configuration.
\<close>

section \<open>A process\<close>

definition ex_u :: uninit where
  "ex_u = \<lparr>u_int = 0, u_byte = 0, u_rg = \<lparr>rg_vmaid = 0, rg_start = 0, rg_end = 0\<rparr>, u_freerg = []\<rparr>"

definition ex_mm0 :: mm_struct where
  "ex_mm0 = \<lparr>pgd = (\<lambda>_. 0), mmap = [], symrgtbl = (\<lambda>_. \<lparr>rg_vmaid = 0, rg_start = 0, rg_end = 0\<rparr>), fifo_pgn = []\<rparr>"

definition ex_dev :: "int list \<Rightarrow> memphy_struct" where
  "ex_dev fs = \<lparr>storage = (\<lambda>_. 0), maxsz = 2048, rdmflg = 1, cursor = 0, free_fp_list = fs\<rparr>"

definition ex_ctx :: vmctx where
  "ex_ctx = \<lparr>c_mm = init_mm ex_u ex_mm0, c_mram = ex_dev [0, 1, 2, 3, 4, 5, 6, 7], c_mswp = ex_dev [3, 4], c_lock = False\<rparr>"

lemma ex_pgd: "\<not> PAGING_PAGE_PRESENT (0 :: u32)" "PAGING_PTE_SWP 0 = 0"
  by (simp_all add: PAGING_PAGE_PRESENT_def PAGING_PTE_SWP_def GETVAL_def int_of_u32_def)

lemma ex_fresh: "fresh_process ex_u ex_ctx"
  by (auto simp: fresh_process_def ex_ctx_def ex_dev_def page_in_def ex_u_def ex_mm0_def ex_pgd
      intro!: exI [of _ ex_mm0])

lemma ex_pages: "pages_of 300 = 2" "length (free_fp_list (c_mram ex_ctx)) = 8"
  by (simp_all add: pages_of_def ex_ctx_def ex_dev_def)

definition ex_ctx1 :: vmctx where
  "ex_ctx1 = after_first ex_u ex_ctx 2 300"

lemma ex_sym: "sym_ok 2" "sym_ok 3"
  by (simp_all add: sym_ok_def)

lemma ex_ctx1_ok:
  "paging_inv ex_ctx1" "one_vma (c_mm ex_ctx1) (first_area ex_u 300)"
  "symrgtbl (c_mm ex_ctx1) 2 = brk_region (area0 ex_u) 300" "\<not> c_lock ex_ctx1"
  using paging_inv_after_first [OF ex_fresh, of 300 2] ex_pages fresh_processD(3) [OF ex_fresh]
  by (simp_all add: ex_ctx1_def one_vma_def first_area_def area0_def)
    (simp add: after_first_def map_new_def Let_def)

lemma ex_byte:
  assumes "0 \<le> k" and "k < 300"
  shows "va_ok ex_ctx1 (rg_addr (symrgtbl (c_mm ex_ctx1) 2) k)" "rg_addr (symrgtbl (c_mm ex_ctx1) 2) k = k"
  using first_region_ok(1) [OF ex_fresh, of 300 k 2] first_region_ok(2) [OF ex_fresh, of 300 k] assms ex_pages ex_ctx1_ok(3)
  by (simp_all add: ex_ctx1_def)

lemma ex_can_alloc: "can_alloc ex_ctx (area0 ex_u) 300"
  using fresh_process_wf [OF ex_fresh] fresh_processD(5) [OF ex_fresh]
  by (simp add: can_alloc_def area0_def below_def init_vm_rg_def uint_u64_of_int)

section \<open>Processes, queues and a kernel\<close>

definition ex_inst :: "ins_opcode_t \<Rightarrow> u32 \<Rightarrow> u32 \<Rightarrow> u32 \<Rightarrow> u32 \<Rightarrow> inst_t" where
  "ex_inst oc a b c d = \<lparr>opcode = oc, arg_0 = a, arg_1 = b, arg_2 = c, arg_3 = d\<rparr>"

definition ex_prog :: "inst_t list" where
  "ex_prog = [ex_inst CALC 0 0 0 0, ex_inst ALLOC 300 2 0 0, ex_inst WRITE 100 2 20 0, ex_inst SYSCALL 101 2 0 0]"

definition ex_pcb :: "u32 \<Rightarrow> u32 \<Rightarrow> string \<Rightarrow> mm_struct \<Rightarrow> pcb_t" where
  "ex_pcb n pr pth m = \<lparr>pid = n, priority = pr, path = pth,
     pcb_code = \<lparr>code_text = [ex_inst CALC 0 0 0 0], code_size = 1\<rparr>, regs = (\<lambda>_. 0), pc = 0,
     p_ready_queue = Some ReadyQueue, p_running_list = Some RunningList, p_mlq_ready_queue = Some MlqReadyQueue,
     prio = 0, mm = m, page_table_size = 0, bp = 1024\<rparr>"

definition ex_heap :: "u32 \<Rightarrow> u32 \<Rightarrow> u32 \<Rightarrow> heap" where
  "ex_heap a b c = [1 \<mapsto> ex_pcb 1 a ''input/proc/p1'' (c_mm ex_ctx), 2 \<mapsto> ex_pcb 2 b ''input/proc/p2'' (c_mm ex_ctx),
     3 \<mapsto> ex_pcb 3 c ''input/proc/p2'' (c_mm ex_ctx)]"

definition ex_queue :: "pcb_ptr list \<Rightarrow> queue_t" where
  "ex_queue l = \<lparr>q_proc = (\<lambda>i. if i < length l then l ! i else 0), q_size = length l\<rparr>"

lemma ex_queue_list [simp]: "q_list (ex_queue l) = l" "q_size (ex_queue l) = length l"
proof -
  show "q_size (ex_queue l) = length l" by (simp add: ex_queue_def)
  show "q_list (ex_queue l) = l"
    by (rule nth_equalityI) (simp_all add: ex_queue_def q_list_def)
qed

definition ex_sched :: "pcb_ptr list \<Rightarrow> pcb_ptr list \<Rightarrow> sched_t" where
  "ex_sched l r = \<lparr>ready_queue = ex_queue [], run_queue = ex_queue [], running_list = ex_queue r,
     mlq_ready_queue = (\<lambda>k. if k = 0 then ex_queue l else ex_queue []), slot = (\<lambda>k. 140 - int k),
     curr_prio = 0, curr_slot = 0, queue_lock = False\<rparr>"

definition ex_kernel :: "heap \<Rightarrow> sched_t \<Rightarrow> kernel" where
  "ex_kernel h s = \<lparr>k_heap = h, k_sched = s, k_mram = c_mram ex_ctx, k_mswp = c_mswp ex_ctx,
     k_mmvm_lock = False, avail_pid = 4, k_out = []\<rparr>"

lemma ex_heap_simps [simp]:
  "ex_heap a b c 1 = Some (ex_pcb 1 a ''input/proc/p1'' (c_mm ex_ctx))"
  "ex_heap a b c (Suc 0) = Some (ex_pcb 1 a ''input/proc/p1'' (c_mm ex_ctx))"
  "ex_heap a b c 2 = Some (ex_pcb 2 b ''input/proc/p2'' (c_mm ex_ctx))"
  "ex_heap a b c 3 = Some (ex_pcb 3 c ''input/proc/p2'' (c_mm ex_ctx))"
  by (simp_all add: ex_heap_def)

text \<open>In the first kernel no process has pages; in the second, process 1 has allocated two.\<close>

lemma ex_mem_ok: "mem_ok (ex_kernel (ex_heap a b c) s)"
proof -
  have "frames_used (c_mm ex_ctx) = {}"
    by (simp add: frames_used_def resident_def ex_ctx_def ex_mm0_def init_mm_def ex_pgd)
  moreover have "paging_inv (ctx_of (ex_kernel (ex_heap a b c) s) x)" if "mm x = c_mm ex_ctx" for x
  proof -
    have "paging_inv ex_ctx" using ex_can_alloc by (simp add: can_alloc_def)
    then show ?thesis using that paging_inv_cong [of "ctx_of (ex_kernel (ex_heap a b c) s) x" ex_ctx]
      by (simp add: ex_kernel_def)
  qed
  ultimately show ?thesis
    by (auto simp: mem_ok_def ex_kernel_def ex_heap_def ex_pcb_def split: if_splits)
qed

definition ex_kernel1 :: kernel where
  "ex_kernel1 = put_ctx (ex_kernel (ex_heap 7 5 7) (ex_sched [2, 3] [])) 1
     (ex_pcb 1 7 ''input/proc/p1'' (c_mm ex_ctx)) ex_ctx1"

lemma ex_keys [simp]:
  "pcb_key (ex_heap a b c) 1 = a" "pcb_key (ex_heap a b c) (Suc 0) = a"
  "pcb_key (ex_heap a b c) 2 = b" "pcb_key (ex_heap a b c) 3 = c"
  by (simp_all add: pcb_key_def ex_pcb_def)

lemma ex_live: "set l \<subseteq> {1, 2, 3} \<Longrightarrow> q_live (ex_heap a b c) (ex_queue l)"
  by (auto simp: q_live_def)

lemma ex_sched_wf:
  assumes "set l \<subseteq> {1, 2, 3}" and "length l \<le> 10" and "length r \<le> 10"
  shows "sched_wf (ex_sched l r)" "sched_live (ex_heap a b c) (ex_sched l r)"
  using assms ex_live [of l] ex_live [of "[]"]
  by (auto simp: sched_wf_def sched_live_def ex_sched_def q_wf_def MAX_QUEUE_SIZE_def MAX_PRIO_def)

lemma ex_level: "level (ex_sched l r) k = (if k = 0 then l else [])"
  by (simp add: level_def ex_sched_def)

lemma ex_heap_wf: "heap_wf (ex_heap a b c)"
proof -
  have "pcb_wf (ex_pcb n pr pth m)" for n pr pth m by (simp add: pcb_wf_def ex_pcb_def)
  then show ?thesis by (auto simp: heap_wf_def ex_heap_def split: if_splits)
qed

lemma ex_can_free: "can_free (ex_heap a b c) p"
proof -
  have "one_vma (c_mm ex_ctx) (area0 ex_u)" by (rule fresh_process_wf(1) [OF ex_fresh])
  then show ?thesis by (auto simp: can_free_def ex_heap_def ex_pcb_def split: if_splits)
qed

section \<open>A system\<close>

definition ex_cfg :: config where
  "ex_cfg = \<lparr>time_slot = 2, num_cpus = 2, memramsz = 2048, memswpsz = [2048, 0, 0, 0],
     ld_path = [''input/proc/p1''], ld_start = [0], ld_prio = [5]\<rparr>"

lemma ex_cfg_ok: "cfg_ok ex_cfg"
  by (simp add: cfg_ok_def ex_cfg_def MAX_PRIO_def)

definition ex_system :: system where
  "ex_system = \<lparr>sys_k = \<lparr>k_heap = (\<lambda>_. None), k_sched = init_scheduler (ex_sched [] []),
       k_mram = init_memphy [] (ex_dev []) 2048 1, k_mswp = init_memphy [] (ex_dev []) 2048 1,
       k_mmvm_lock = False, avail_pid = 1, k_out = []\<rparr>,
     sys_cpu = (\<lambda>_. \<lparr>c_proc = None, time_left = 0, c_at = AtTop\<rparr>),
     sys_ld = \<lparr>l_i = 0, l_proc = None, l_at = LdLoad\<rparr>,
     sys_timer = start_timer (attach_all [0..<3] no_timer), sys_done = False\<rparr>"

lemma ex_sinit: "sinit ex_cfg ex_system"
proof -
  have "sched_start (init_scheduler (ex_sched [] []))"
    by (auto simp: sched_start_def ex_sched_def intro!: exI [of _ "ex_sched [] []"])
  moreover have "[0..<num_cpus ex_cfg + 1] = [0..<3]" by (simp add: ex_cfg_def)
  ultimately show ?thesis
    by (auto simp: sinit_def ex_system_def init_devices_def PAGING_MAX_MMSWP_def ex_cfg_def tinit_def
        intro!: exI [of _ "[]"] exI [of _ "ex_dev []"])
qed

lemma ex_reach: "reach (sinit ex_cfg) (sstep u j fs ex_cfg) ex_system"
  by (rule reach_init [of "sinit ex_cfg", OF ex_sinit])

lemma ex_timer: "reach (tinit [0..<3]) tstep (start_timer (attach_all [0..<3] no_timer))"
  by (rule reach_init) (simp add: tinit_def)

text \<open>The loader reads the process, hands it to the scheduler, and CPU 0 takes it.\<close>

definition ex_junk :: load_junk where
  "ex_junk = \<lparr>j_pcb = ex_pcb 0 0 [] ex_mm0, j_text = (\<lambda>_. ex_inst CALC 0 0 0 0), j_opcode = [], j_buf = []\<rparr>"

definition ex_fs :: "string \<Rightarrow> string option" where
  "ex_fs = (\<lambda>_. Some (print_prog 3 ex_prog))"

lemma ex_loaded:
  obtains b where "load ex_junk ex_fs 1 ''input/proc/p1'' = Inr (b, 2)" "pcb_wf b"
proof -
  have "\<exists>b. load ex_junk ex_fs 1 ''input/proc/p1'' = Inr (b, 1 + 1) \<and> pid b = 1 \<and> priority b = 3 \<and> pc b = 0 \<and>
      path b = take 16 ''input/proc/p1'' \<and> unat (code_size (pcb_code b)) = length ex_prog \<and>
      list_all2 same_inst (code_text (pcb_code b)) ex_prog"
    by (rule load_print) (simp_all add: ex_fs_def ex_prog_def)
  then obtain b where b: "load ex_junk ex_fs 1 ''input/proc/p1'' = Inr (b, 1 + 1)" by blast
  then show ?thesis using load_wf [OF b] that by simp
qed

definition ex_step1 :: "pcb_t \<Rightarrow> system" where
  "ex_step1 b = ex_system\<lparr>sys_k := (sys_k ex_system)\<lparr>k_heap := [1 \<mapsto> b\<lparr>prio := 5\<rparr>], avail_pid := 2\<rparr>,
     sys_ld := \<lparr>l_i = 0, l_proc = Some 1, l_at = LdWait\<rparr>\<rparr>"

definition ex_step2 :: "pcb_t \<Rightarrow> system" where
  "ex_step2 b = (ex_step1 b)\<lparr>sys_k := (sys_k (ex_step1 b))\<lparr>
       k_heap := [1 \<mapsto> link_queues (b\<lparr>prio := 5, mm := init_mm ex_u ex_mm0\<rparr>)],
       k_sched := joined (k_sched (sys_k ex_system)) 1 5\<rparr>,
     sys_ld := \<lparr>l_i = 1, l_proc = None, l_at = LdSlotNext\<rparr>,
     sys_timer := next_slot_enter 2 (sys_timer ex_system)\<rparr>"

lemma ex_timer0: "sys_timer ex_system = no_timer\<lparr>dev_list := [2, 1, 0], timer_started := True\<rparr>"
proof -
  have "tinit [0..<3] (sys_timer ex_system)" by (simp add: tinit_def ex_system_def)
  then show ?thesis by (simp add: tinit_eq upt_rec numeral_eq_Suc)
qed

lemma ex_parts: "l_at (sys_ld ex_system) = LdLoad" "k_heap (sys_k ex_system) p = None"
  by (simp_all add: ex_system_def)

lemma ex_sched0: "\<not> queue_lock (k_sched (sys_k ex_system))" "ready (k_sched (sys_k ex_system)) = {#}"
  "level (k_sched (sys_k ex_system)) k = []"
  by (simp_all add: ex_system_def init_scheduler_def ready_def level_def ex_sched_def q_list_def ex_queue_def)

lemma ex_step1_reach:
  assumes b: "load ex_junk ex_fs 1 ''input/proc/p1'' = Inr (b, 2)"
  shows "reach (sinit ex_cfg) (sstep ex_u ex_junk ex_fs ex_cfg) (ex_step1 b)"
proof (rule reach_step [OF ex_reach])
  have "ld_load ex_junk ex_fs ex_cfg 1 (sys_k ex_system) (sys_ld ex_system) =
      Inr (False, sys_k (ex_step1 b), sys_ld (ex_step1 b))"
    using b by (simp add: ld_load_def ex_cfg_def ex_system_def ex_step1_def)
  then have "sstep ex_u ex_junk ex_fs ex_cfg ex_system (ex_system\<lparr>sys_k := sys_k (ex_step1 b), sys_ld := sys_ld (ex_step1 b)\<rparr>)"
    by (intro sstep.ld_load) (simp_all add: ex_parts ex_timer0 no_timer_def ex_cfg_def)
  then show "sstep ex_u ex_junk ex_fs ex_cfg ex_system (ex_step1 b)"
    by (simp add: ex_step1_def)
qed

lemma ex_step2_reach:
  assumes b: "load ex_junk ex_fs 1 ''input/proc/p1'' = Inr (b, 2)"
  shows "reach (sinit ex_cfg) (sstep ex_u ex_junk ex_fs ex_cfg) (ex_step2 b)"
proof -
  let ?s = "ex_step1 b" and ?S = "k_sched (sys_k ex_system)"
  let ?b = "b\<lparr>prio := 5, mm := init_mm ex_u ex_mm0\<rparr>"
  let ?k = "(sys_k ?s)\<lparr>k_heap := [1 \<mapsto> link_queues ?b], k_sched := listed ?S 1\<rparr>"
  let ?l = "(sys_ld ?s)\<lparr>l_at := LdAdd\<rparr>"
  let ?t = "?s\<lparr>sys_k := ?k, sys_ld := ?l\<rparr>"
  have "ld_add ex_u ex_mm0 (sys_k ?s) (sys_ld ?s) = Inr (?k, ?l)"
    using enlist_running_ok [of ?S "[1 \<mapsto> ?b]" 1 ?b] ex_sched0(1)
    by (simp add: ld_add_def ex_step1_def deref_def)
  then have "sstep ex_u ex_junk ex_fs ex_cfg ?s ?t"
    by (intro sstep.ld_add) (simp_all add: ex_step1_def ex_timer0 no_timer_def ex_cfg_def current_time_def)
  then have r: "reach (sinit ex_cfg) (sstep ex_u ex_junk ex_fs ex_cfg) ?t"
    by (rule reach_step [OF ex_step1_reach [OF b]])
  have "ld_put (sys_k ?t) (sys_ld ?t) = Inr (sys_k (ex_step2 b), sys_ld (ex_step2 b))"
    using put_mlq_proc_ok [of "listed ?S 1" "[1 \<mapsto> link_queues ?b]" 1 "link_queues ?b"] ex_sched0(1)
    by (simp add: ld_put_def ex_step1_def ex_step2_def deref_def link_queues_def MAX_PRIO_def queued_listed)
  then have "sstep ex_u ex_junk ex_fs ex_cfg ?t (?t\<lparr>sys_k := sys_k (ex_step2 b), sys_ld := sys_ld (ex_step2 b),
      sys_timer := next_slot_enter (num_cpus ex_cfg) (sys_timer ?t)\<rparr>)"
    by (intro sstep.ld_put) (simp_all add: ex_step1_def ex_timer0 no_timer_def ex_cfg_def)
  then have "sstep ex_u ex_junk ex_fs ex_cfg ?t (ex_step2 b)"
    by (simp add: ex_step1_def ex_step2_def ex_cfg_def)
  then show ?thesis by (rule reach_step [OF r])
qed

lemma ex_start: "sched_start (k_sched (sys_k ex_system))"
  using ex_sinit by (simp add: sinit_def)

lemma ex_held_of:
  assumes b: "load ex_junk ex_fs 1 ''input/proc/p1'' = Inr (b, 2)"
  shows "\<exists>s. reach (sinit ex_cfg) (sstep ex_u ex_junk ex_fs ex_cfg) s \<and> sys_cpu s 0 = \<lparr>c_proc = Some 1, time_left = 0, c_at = AtCheck\<rparr> \<and>
    d_pc (sys_timer s) 0 = DWork \<and>
    k_heap (sys_k s) 1 = Some (link_queues (b\<lparr>prio := 5, mm := init_mm ex_u ex_mm0\<rparr>))"
proof -
  let ?s = "ex_step2 b" and ?S = "k_sched (sys_k ex_system)"
  let ?k = "sys_k ?s" and ?c = "\<lparr>c_proc = Some 1, time_left = 0, c_at = AtCheck\<rparr>"
  have wf: "sched_wf (k_sched ?k)" "sched_live (k_heap ?k) (k_sched ?k)"
    using sched_wf_joined [OF sched_start_ok(1) [OF ex_start], of 1 5]
      sched_live_joined [OF sched_start_ok(2) [OF ex_start], of "[1 \<mapsto> b]" 1 b "link_queues (b\<lparr>prio := 5, mm := init_mm ex_u ex_mm0\<rparr>)" 5]
    by (simp_all add: ex_step2_def)
  have r: "ready (k_sched ?k) = {# 1 #}"
    by (simp add: ex_step2_def ready_joined ex_sched0 MAX_PRIO_def MAX_QUEUE_SIZE_def)
  have "1 \<in># ready (k_sched ?k)" by (simp add: r)
  then have "\<not> (\<forall>j < MAX_PRIO. level (k_sched ?k) j = [])" by (auto simp: in_ready)
  then obtain p sc where g: "get_proc (k_heap ?k) (k_sched ?k) = Inr (Some p, sc)"
    using get_proc_returns [OF wf] by auto
  have "p = 1" using get_proc_taken [OF wf g] r by auto
  then have "cpu_step ex_u (time_slot ex_cfg) (sys_done ?s) ?k (sys_cpu ?s 0) = Inr (?k\<lparr>k_sched := sc\<rparr>, ?c)"
    using g by (simp add: cpu_step_def cpu_top_def ex_step2_def ex_step1_def ex_system_def)
  then have "sstep ex_u ex_junk ex_fs ex_cfg ?s (cpu_turn 0 (?k\<lparr>k_sched := sc\<rparr>) ?c ?s)"
    by (intro sstep.cpu) (simp_all add: ex_step2_def ex_step1_def ex_cfg_def ex_timer0 no_timer_def next_slot_enter_def,
      simp add: ex_system_def)
  then show ?thesis
    using reach_step [OF ex_step2_reach [OF b]]
    by (fastforce simp: cpu_turn_def ex_step2_def ex_step1_def ex_timer0 no_timer_def next_slot_enter_def)
qed

lemma ex_held:
  "\<exists>s. reach (sinit ex_cfg) (sstep ex_u ex_junk ex_fs ex_cfg) s \<and> sys_cpu s 0 = \<lparr>c_proc = Some 1, time_left = 0, c_at = AtCheck\<rparr> \<and>
    d_pc (sys_timer s) 0 = DWork \<and> k_heap (sys_k s) 1 \<noteq> None"
  by (rule ex_loaded) (use ex_held_of in fastforce)

text \<open>CPU 0 executes the first instruction.\<close>

lemma ex_ran:
  "\<exists>es s ins. traced ex_u ex_junk ex_fs ex_cfg (es @ [(1, ins)]) s"
proof -
  obtain b where b: "load ex_junk ex_fs 1 ''input/proc/p1'' = Inr (b, 1 + 1)" "pid b = 1" "pc b = 0"
    "unat (code_size (pcb_code b)) = length ex_prog" "list_all2 same_inst (code_text (pcb_code b)) ex_prog"
    using load_print [of ex_fs "''input/proc/p1''" 3 ex_prog ex_junk 1] by (force simp: ex_fs_def ex_prog_def)
  obtain ins rest where ins: "code_text (pcb_code b) = ins # rest" "opcode ins = CALC"
    using b(5) by (auto simp: ex_prog_def list_all2_Cons2 same_inst_def ex_inst_def)
  have sz: "0 < code_size (pcb_code b)" using b(4) by (simp add: ex_prog_def word_less_nat_alt)
  have "load ex_junk ex_fs 1 ''input/proc/p1'' = Inr (b, 2)" using b(1) by simp
  then obtain s where s: "reach (sinit ex_cfg) (sstep ex_u ex_junk ex_fs ex_cfg) s"
    "sys_cpu s 0 = \<lparr>c_proc = Some 1, time_left = 0, c_at = AtCheck\<rparr>" "d_pc (sys_timer s) 0 = DWork"
    "k_heap (sys_k s) 1 = Some (link_queues (b\<lparr>prio := 5, mm := init_mm ex_u ex_mm0\<rparr>))"
    using ex_held_of by blast
  let ?b = "link_queues (b\<lparr>prio := 5, mm := init_mm ex_u ex_mm0\<rparr>)" and ?k = "sys_k s"
  let ?c = "\<lparr>c_proc = Some 1, time_left = 2, c_at = AtRun\<rparr>"
  let ?t = "cpu_turn 0 ?k ?c s"
  have bs: "pid ?b = 1" "pc ?b = 0" "pcb_code ?b = pcb_code b" using b by (simp_all add: link_queues_def)
  obtain es where "traced ex_u ex_junk ex_fs ex_cfg es s" using reach_traced [OF s(1)] by blast
  moreover have "sstep ex_u ex_junk ex_fs ex_cfg s ?t"
    using s by (intro sstep.cpu) (simp_all add: ex_cfg_def cpu_step_def cpu_check_def)
  ultimately obtain es where t: "traced ex_u ex_junk ex_fs ex_cfg es ?t" using traced.traced_step by blast
  have "run ex_u ?k 1 = Inr (0, ?k\<lparr>k_heap := (k_heap ?k)(1 \<mapsto> ?b\<lparr>pc := pc ?b + 1\<rparr>)\<rparr>)"
    using s(4) bs sz ins by (simp add: run_def fetch_def exec_def)
  then have st: "cpu_step ex_u (time_slot ex_cfg) (sys_done ?t) (sys_k ?t) (sys_cpu ?t 0) =
      Inr (?k\<lparr>k_heap := (k_heap ?k)(1 \<mapsto> ?b\<lparr>pc := pc ?b + 1\<rparr>)\<rparr>, ?c\<lparr>time_left := i32 (2 - 1), c_at := AtSlot\<rparr>)" (is "_ = Inr (?k', ?c')")
    by (simp add: cpu_turn_def cpu_step_def cpu_run_def deref_def)
  have i: "0 < num_cpus ex_cfg" by (simp add: ex_cfg_def)
  have "sstep ex_u ex_junk ex_fs ex_cfg ?t (cpu_turn 0 ?k' ?c' ?t)"
    by (intro sstep.cpu [OF i _ _ st]) (simp_all add: cpu_turn_def s(3))
  moreover have "executed ex_cfg ?t (cpu_turn 0 ?k' ?c' ?t) = [(1, ins)]"
    using executed_cpu [OF i st] s(4) bs sz ins by (simp add: next_ins_def cpu_turn_def)
  ultimately show ?thesis using traced.traced_step [OF t] by metis
qed

lemma ex_held_step:
  "\<exists>s t. reach (sinit ex_cfg) (sstep ex_u ex_junk ex_fs ex_cfg) s \<and> c_proc (sys_cpu s 0) = Some 1 \<and>
    sstep ex_u ex_junk ex_fs ex_cfg s t"
proof -
  obtain s b where s: "reach (sinit ex_cfg) (sstep ex_u ex_junk ex_fs ex_cfg) s" "d_pc (sys_timer s) 0 = DWork"
    "sys_cpu s 0 = \<lparr>c_proc = Some 1, time_left = 0, c_at = AtCheck\<rparr>" "k_heap (sys_k s) 1 = Some b"
    using ex_held by blast
  have "cpu_step ex_u (time_slot ex_cfg) (sys_done s) (sys_k s) (sys_cpu s 0) =
      Inr (sys_k s, (sys_cpu s 0)\<lparr>time_left := time_slot ex_cfg, c_at := AtRun\<rparr>)"
    using s(3,4) by (simp add: cpu_step_def cpu_check_def)
  then have "sstep ex_u ex_junk ex_fs ex_cfg s
      (cpu_turn 0 (sys_k s) ((sys_cpu s 0)\<lparr>time_left := time_slot ex_cfg, c_at := AtRun\<rparr>) s)"
    using s(2,3) by (intro sstep.cpu) (simp_all add: ex_cfg_def)
  then show ?thesis using s(1,3) by (intro exI conjI) (assumption | simp)+
qed

text \<open>The same machine without processes: the loader ends at once and the CPUs stay idle.\<close>

definition ex_cfg0 :: config where
  "ex_cfg0 = ex_cfg\<lparr>ld_path := [], ld_start := [], ld_prio := []\<rparr>"

lemma ex_cfg0_ok: "cfg_ok ex_cfg0"
  by (simp add: cfg_ok_def ex_cfg0_def ex_cfg_def)

lemma ex_idle: "\<exists>s. reach (sinit ex_cfg0) (sstep ex_u ex_junk ex_fs ex_cfg0) s \<and> nothing_left ex_cfg0 0 s"
proof -
  have n: "num_cpus ex_cfg0 = num_cpus ex_cfg" by (simp add: ex_cfg0_def)
  have "sinit ex_cfg0 ex_system"
    using ex_sinit by (simp add: sinit_def n) (simp add: init_devices_def ex_cfg0_def)
  then have re: "reach (sinit ex_cfg0) (sstep ex_u ex_junk ex_fs ex_cfg0) ex_system" by (rule reach_init)
  let ?l = "(sys_ld ex_system)\<lparr>l_at := LdExit\<rparr>"
  let ?t = "ex_system\<lparr>sys_ld := ?l, sys_done := True, sys_timer := detach_event (num_cpus ex_cfg0) (sys_timer ex_system)\<rparr>"
  have "ld_load ex_junk ex_fs ex_cfg0 1 (sys_k ex_system) (sys_ld ex_system) = Inr (True, sys_k ex_system, ?l)"
    by (simp add: ld_load_def ex_cfg0_def)
  then have "sstep ex_u ex_junk ex_fs ex_cfg0 ex_system ?t"
    by (intro sstep.ld_end [where p = 1]) (simp_all add: ex_parts ex_timer0 no_timer_def)
  then have "reach (sinit ex_cfg0) (sstep ex_u ex_junk ex_fs ex_cfg0) ?t" by (rule reach_step [OF re])
  moreover have "nothing_left ex_cfg0 0 ?t"
    using ex_sched0(2) by (simp add: nothing_left_def) (simp add: ex_system_def)
  ultimately show ?thesis by blast
qed

section \<open>A process that kills\<close>

text \<open>The first region of the process holds the name \<open>p2\<close> and the end mark.\<close>

definition ex_named :: vmctx where
  "ex_named = va_store ex_u (va_store ex_u (va_store ex_u ex_ctx1 0 112) 1 50) 2 (-1)"

lemma ex_va_ok: "0 \<le> k \<Longrightarrow> k < 300 \<Longrightarrow> va_ok ex_ctx1 k"
  using ex_byte by simp

lemma ex_named_ok:
  "c_mm ex_named = c_mm ex_ctx1" "\<not> c_lock ex_named" "0 \<le> k \<Longrightarrow> k < 300 \<Longrightarrow> va_ok ex_named k"
  using ex_va_ok ex_ctx1_ok(4) by (simp_all add: ex_named_def vmem.ok_wr)

lemma ex_named_bytes:
  "va_load ex_u ex_named 0 = 112" "va_load ex_u ex_named 1 = 50" "va_load ex_u ex_named 2 = -1"
  using ex_va_ok by (simp_all add: ex_named_def vmem.ok_wr vmem.rd_wr_same vmem.rd_wr_other)

lemma ex_named_holds: "holds_bytes ex_u ex_named 2 [112, 50, -1]"
proof -
  have two: "int_of_u32 2 = 2" by (simp add: int_of_u32_def)
  have addr: "byte_addr ex_named 2 i = int i" if "i < 3" for i
    using that ex_byte(2) [of "int i"] by (simp add: byte_addr_def two ex_named_ok(1))
  have "va_ok ex_named (byte_addr ex_named 2 i) \<and> va_load ex_u ex_named (byte_addr ex_named 2 i) = [112, 50, -1] ! i"
    if i: "i < 3" for i
  proof -
    have "i = 0 \<or> i = 1 \<or> i = 2" using i by arith
    then show ?thesis using addr [OF i] ex_named_bytes ex_named_ok(3) [of "int i"] by auto
  qed
  then show ?thesis
    using ex_ctx1_ok(2) ex_sym(1) by (simp add: holds_bytes_def two ex_named_ok(1)) blast
qed

definition ex_killer :: "u32 \<Rightarrow> kernel" where
  "ex_killer a = (ex_kernel ((ex_heap a 7 7)(1 \<mapsto> ex_pcb 1 a ''input/proc/p1'' (c_mm ex_ctx1))) (ex_sched [3] [1, 2, 3]))
     \<lparr>k_mram := c_mram ex_named, k_mswp := c_mswp ex_named\<rparr>"

lemma ex_killer_caller:
  "k_heap (ex_killer a) 1 = Some (ex_pcb 1 a ''input/proc/p1'' (c_mm ex_ctx1))"
  "k_heap (ex_killer a) (Suc 0) = Some (ex_pcb 1 a ''input/proc/p1'' (c_mm ex_ctx1))"
  "ctx_of (ex_killer a) (ex_pcb 1 a ''input/proc/p1'' (c_mm ex_ctx1)) = ex_named"
  using ex_named_ok(1,2)
  by (simp_all add: ex_killer_def ex_kernel_def ctx_of_def ex_pcb_def)

lemma ex_killer_queues:
  "running_list (k_sched (ex_killer a)) = ex_queue [1, 2, 3]" "mlq_ready_queue (k_sched (ex_killer a)) 0 = ex_queue [3]"
  "level (k_sched (ex_killer a)) 0 = [3]"
  by (simp_all add: ex_killer_def ex_kernel_def ex_sched_def level_def)

lemma ex_killer_heap:
  "k_heap (ex_killer a) 2 = Some (ex_pcb 2 7 ''input/proc/p2'' (c_mm ex_ctx))"
  "k_heap (ex_killer a) 3 = Some (ex_pcb 3 7 ''input/proc/p2'' (c_mm ex_ctx))"
  "pcb_key (k_heap (ex_killer a)) 1 = a" "pcb_key (k_heap (ex_killer a)) (Suc 0) = a"
  "pcb_key (k_heap (ex_killer a)) 2 = 7" "pcb_key (k_heap (ex_killer a)) 3 = 7"
  by (simp_all add: ex_killer_def ex_kernel_def pcb_key_def ex_pcb_def)

section \<open>Two processes that allocate\<close>

lemma ex_kernel1_run:
  "exec ex_u (ex_kernel (ex_heap 7 5 7) (ex_sched [2, 3] [])) 1 (ex_inst ALLOC 300 2 0 0) = Inr (0, ex_kernel1)"
proof -
  let ?k = "ex_kernel (ex_heap 7 5 7) (ex_sched [2, 3] [])"
  have c: "ctx_of ?k (ex_pcb 1 7 ''input/proc/p1'' (c_mm ex_ctx)) = ex_ctx"
    by (simp add: ctx_of_def ex_kernel_def ex_pcb_def ex_ctx_def)
  have "rg_alloc ex_u ex_ctx 0 2 300 = Inr (0, -1, ex_ctx1)"
    unfolding ex_ctx1_def by (rule fresh_alloc [OF ex_fresh ex_sym(1)]) simp_all
  moreover obtain d where "io_dump (c_mm ex_ctx1) (mmap_end (c_mm ex_ctx1)) = Inr d"
    using io_dump_returns(2) [OF ex_ctx1_ok(2)] by blast
  ultimately have "liballoc ex_u ex_ctx 300 2 = Inr (0, ex_ctx1)"
    by (simp add: liballoc_def int_of_u32_def)
  moreover have "k_heap ?k 1 = Some (ex_pcb 1 7 ''input/proc/p1'' (c_mm ex_ctx))" by (simp add: ex_kernel_def)
  ultimately show ?thesis
    using c by (simp add: exec_def ex_inst_def on_ctx_def ex_kernel1_def)
qed

lemma ex_kernel1_ok: "mem_ok ex_kernel1"
proof -
  let ?k = "ex_kernel (ex_heap 7 5 7) (ex_sched [2, 3] [])"
  let ?b = "ex_pcb 1 7 ''input/proc/p1'' (c_mm ex_ctx)"
  have h: "k_heap ?k 1 = Some ?b" by (simp add: ex_kernel_def)
  have c: "ctx_of ?k ?b = ex_ctx" by (simp add: ctx_of_def ex_kernel_def ex_pcb_def ex_ctx_def)
  have "fits (ctx_of ?k ?b) (ex_inst ALLOC 300 2 0 0)"
    unfolding c using ex_can_alloc fresh_processD(3) [OF ex_fresh] ex_sym(1)
    by (auto simp: fits_def ex_inst_def int_of_u32_def)
  then show ?thesis
    using exec_memory_isolated [OF ex_mem_ok h, of "ex_inst ALLOC 300 2 0 0" ex_u] ex_kernel1_run by auto
qed

lemma ex_can_alloc_mm:
  "mem_ok k \<Longrightarrow> k_heap k p = Some b \<Longrightarrow> mm b = c_mm ex_ctx \<Longrightarrow> can_alloc (ctx_of k b) (area0 ex_u) 300"
  using ex_can_alloc mem_okD(1) [of k p b] by (simp add: can_alloc_def)

lemma ex_may_alloc:
  assumes "mem_ok k" and "k_heap k 2 = Some b" and "mm b = c_mm ex_ctx" and "\<not> k_mmvm_lock k"
  shows "may_exec (2, ex_inst ALLOC 300 3 0 0) k"
  using ex_can_alloc_mm [OF assms(1-3)] assms(2,4) ex_sym(2)
  by (auto simp: may_exec_def fits_def ex_inst_def int_of_u32_def)

definition ex_pcb2 :: pcb_t where
  "ex_pcb2 = ex_pcb 2 5 ''input/proc/p2'' (c_mm ex_ctx)"

lemma ex_kernel1_heap:
  "k_heap ex_kernel1 2 = Some ex_pcb2" "mm ex_pcb2 = c_mm ex_ctx" "\<not> k_mmvm_lock ex_kernel1"
  "k_heap ex_kernel1 1 = Some ((ex_pcb 1 7 ''input/proc/p1'' (c_mm ex_ctx))\<lparr>mm := c_mm ex_ctx1\<rparr>)"
  "k_mram ex_kernel1 = c_mram ex_ctx1"
  "k_heap ex_kernel1 (Suc 0) = Some ((ex_pcb 1 7 ''input/proc/p1'' (c_mm ex_ctx))\<lparr>mm := c_mm ex_ctx1\<rparr>)"
  using ex_ctx1_ok(4) by (simp_all add: ex_kernel1_def put_ctx_def ex_kernel_def ex_pcb2_def)
    (simp add: ex_pcb_def)

lemma ex_kernel1_alloc: "admitted (exec_on ex_u) may_exec [(2, ex_inst ALLOC 300 3 0 0)] ex_kernel1"
  using ex_may_alloc [OF ex_kernel1_ok ex_kernel1_heap(1-3)] by (simp split: sum.split)

lemma ex_kernel1_byte: "bytes_of ex_kernel1 1 0 \<noteq> None"
  using ex_byte [of 0] by (simp add: bytes_of_def ex_kernel1_heap va_view_def va_ok_def)

text \<open>Process 1 writes, then process 2 allocates.\<close>

lemma ex_kernel1_write:
  defines "b \<equiv> (ex_pcb 1 7 ''input/proc/p1'' (c_mm ex_ctx))\<lparr>mm := c_mm ex_ctx1\<rparr>"
  shows "va_ok (ctx_of ex_kernel1 b) (reg_byte (ctx_of ex_kernel1 b) 2 20)"
    and "admitted (exec_on ex_u) may_exec [(1, ex_inst WRITE 100 2 20 0), (2, ex_inst ALLOC 300 3 0 0)] ex_kernel1"
proof -
  let ?c = "ctx_of ex_kernel1 b" and ?w = "ex_inst WRITE 100 2 20 0"
  have h: "k_heap ex_kernel1 1 = Some b" by (simp add: b_def ex_kernel1_heap)
  have mm: "mm b = c_mm ex_ctx1" by (simp add: b_def)
  have byte: "reg_byte ?c 2 20 = 20"
    using ex_byte(2) [of 20] mm by (simp add: reg_byte_def int_of_u32_def)
  show va: "va_ok ?c (reg_byte ?c 2 20)"
    using ex_byte [of 20] mm mem_okD(1) [OF ex_kernel1_ok h] by (simp add: va_ok_def byte)
  have "byte_ready ?c 2 20"
    using va ex_ctx1_ok(2) mm ex_sym(1) by (auto simp: byte_ready_def va_ok_def at_hand_def int_of_u32_def)
  then have fit: "fits ?c ?w" by (simp add: fits_def ex_inst_def)
  obtain x k' where k': "exec ex_u ex_kernel1 1 ?w = Inr (x, k')" "mem_ok k'"
    using exec_memory_isolated [OF ex_kernel1_ok h fit] by blast
  have "k_heap k' 2 = Some ex_pcb2"
    using exec_isolated [OF k'(1)] ex_kernel1_heap(1) by (simp add: ex_inst_def)
  moreover have "\<not> k_mmvm_lock k'"
    using k'(1) h lib_calls_unlock(4) [of ?c ex_u] ex_kernel1_heap(3)
    by (auto simp: exec_def ex_inst_def on_ctx_def put_ctx_def rbind_Inr_iff)
  ultimately have "may_exec (2, ex_inst ALLOC 300 3 0 0) k'"
    using ex_may_alloc [OF k'(2)] ex_kernel1_heap(2) by blast
  moreover have "may_exec (1, ?w) ex_kernel1" using fit h by (simp add: may_exec_def)
  ultimately show "admitted (exec_on ex_u) may_exec [(1, ?w), (2, ex_inst ALLOC 300 3 0 0)] ex_kernel1"
    using k'(1) by (simp add: exec_on_def split: sum.split)
qed

section \<open>Two processes and a swap device\<close>

text \<open>Both processes have two pages; the bytes of RAM frame \<open>f\<close> are all \<open>f\<close>.\<close>

definition ex_ctx2 :: vmctx where
  "ex_ctx2 = after_first ex_u (ex_ctx\<lparr>c_mram := c_mram ex_ctx1\<rparr>) 3 300"

definition ex_leak :: kernel where
  "ex_leak = (put_ctx ex_kernel1 2 ex_pcb2 ex_ctx2)\<lparr>
     k_mram := (c_mram ex_ctx2)\<lparr>storage := (\<lambda>a. word_of_int (a div 256))\<rparr>, k_mswp := ex_dev [0, 1]\<rparr>"

lemma mem_ok_storage: "mem_ok (k\<lparr>k_mram := (k_mram k)\<lparr>storage := f\<rparr>, k_mswp := d\<rparr>) = mem_ok k"
proof -
  have "paging_inv (ctx_of (k\<lparr>k_mram := (k_mram k)\<lparr>storage := f\<rparr>, k_mswp := d\<rparr>) b) = paging_inv (ctx_of k b)" for b
    by (simp add: paging_inv_def page_in_def)
  then show ?thesis by (simp add: mem_ok_def)
qed

lemma ex_ctx1_more: "c_mswp ex_ctx1 = ex_dev [3, 4]" "free_fp_list (c_mram ex_ctx1) = [2, 3, 4, 5, 6, 7]"
    "pgd (c_mm ex_ctx1) 5 = 0" "fifo_pgn (c_mm ex_ctx1) = [1, 0]"
  by (simp_all add: ex_ctx1_def after_first_def ex_pages map_new_def Let_def ex_ctx_def ex_dev_def
      init_mm_def ex_mm0_def mapped_pgd_def numeral_2_eq_2)

lemma ex_ctx_2: "ctx_of ex_kernel1 ex_pcb2 = ex_ctx\<lparr>c_mram := c_mram ex_ctx1\<rparr>"
  using ex_ctx1_ok(4) ex_ctx1_more(1)
  by (simp add: ctx_of_def ex_kernel1_def put_ctx_def ex_kernel_def ex_pcb2_def ex_pcb_def ex_ctx_def)

lemma ex_fresh2: "fresh_process ex_u (ex_ctx\<lparr>c_mram := c_mram ex_ctx1\<rparr>)"
proof -
  have "c_mram ex_ctx1 = (c_mram ex_ctx)\<lparr>free_fp_list := [2, 3, 4, 5, 6, 7]\<rparr>"
    by (simp add: ex_ctx1_def after_first_def ex_pages map_new_def Let_def) (simp add: ex_ctx_def ex_dev_def numeral_2_eq_2)
  then show ?thesis using ex_fresh by (auto simp: fresh_process_def ex_ctx_def ex_dev_def page_in_def)
qed

lemma ex_ctx2_more: "one_vma (c_mm ex_ctx2) (first_area ex_u 300)" "symrgtbl (c_mm ex_ctx2) 3 = brk_region (area0 ex_u) 300"
    "pgd (c_mm ex_ctx2) 5 = 0" "fifo_pgn (c_mm ex_ctx2) = [1, 0]"
  by (simp_all add: ex_ctx2_def one_vma_def first_area_def area0_def)
    (simp_all add: after_first_def ex_pages(1) ex_ctx1_more map_new_def Let_def ex_ctx_def
      init_mm_def ex_mm0_def mapped_pgd_def numeral_2_eq_2)

lemma ex_leak_ok: "mem_ok ex_leak"
proof -
  let ?c = "ex_ctx\<lparr>c_mram := c_mram ex_ctx1\<rparr>"
  have "rg_alloc ex_u ?c 0 3 300 = Inr (0, -1, ex_ctx2)"
    unfolding ex_ctx2_def by (rule fresh_alloc [OF ex_fresh2 ex_sym(2)]) simp_all
  moreover obtain d where "io_dump (c_mm ex_ctx2) (mmap_end (c_mm ex_ctx2)) = Inr d"
    using io_dump_returns(2) [OF ex_ctx2_more(1)] by blast
  ultimately have "liballoc ex_u ?c 300 3 = Inr (0, ex_ctx2)"
    by (simp add: liballoc_def int_of_u32_def)
  then have "exec ex_u ex_kernel1 2 (ex_inst ALLOC 300 3 0 0) = Inr (0, put_ctx ex_kernel1 2 ex_pcb2 ex_ctx2)"
    using ex_kernel1_heap(1) ex_ctx_2 by (simp add: exec_def ex_inst_def on_ctx_def)
  moreover have "fits (ctx_of ex_kernel1 ex_pcb2) (ex_inst ALLOC 300 3 0 0)"
    using ex_may_alloc [OF ex_kernel1_ok ex_kernel1_heap(1-3)] ex_kernel1_heap(1) by (simp add: may_exec_def)
  ultimately have "mem_ok (put_ctx ex_kernel1 2 ex_pcb2 ex_ctx2)"
    using exec_memory_isolated [OF ex_kernel1_ok ex_kernel1_heap(1), of "ex_inst ALLOC 300 3 0 0" ex_u] by auto
  then show ?thesis
    using mem_ok_storage [where k = "put_ctx ex_kernel1 2 ex_pcb2 ex_ctx2"] by (simp add: ex_leak_def put_ctx_def)
qed

lemma ex_leak_heap:
  "k_heap ex_leak 1 = Some ((ex_pcb 1 7 ''input/proc/p1'' (c_mm ex_ctx))\<lparr>mm := c_mm ex_ctx1\<rparr>)"
  "k_heap ex_leak 2 = Some (ex_pcb2\<lparr>mm := c_mm ex_ctx2\<rparr>)" "k_mswp ex_leak = ex_dev [0, 1]"
  by (simp_all add: ex_leak_def put_ctx_def ex_kernel1_heap)

text \<open>A read at offset 1280 of the region is a read of page 5, which is not in RAM.\<close>

lemma ex_reads_absent:
  assumes p: "k_heap ex_leak p = Some b" and v: "one_vma (mm b) v" and i: "sym_ok (int_of_u32 i)"
    and rg: "symrgtbl (mm b) (int_of_u32 i) = brk_region (area0 ex_u) 300"
    and pg: "pgd (mm b) 5 = 0" "fifo_pgn (mm b) \<noteq> []"
  shows "reads_absent (ctx_of ex_leak b) (ex_inst READ i 1280 0 0) 5"
proof -
  have addr: "reg_byte (ctx_of ex_leak b) i 1280 = 1280"
    using rg by (simp add: reg_byte_def int_of_u32_def rg_addr_def brk_region_def area0_def i32_id)
  have "at_hand (ctx_of ex_leak b) 5"
    using mem_okD(1) [OF ex_leak_ok p] pg ex_pgd
    by (auto simp: at_hand_def swap_ready_def ex_leak_heap ex_dev_def page_in_def)
  moreover have "va_page 1280 = 5" by (simp add: va_page_eq)
  moreover have "\<not> resident (mm b) 5" using pg(1) ex_pgd by (simp add: resident_def)
  ultimately show ?thesis
    using v i by (auto simp: reads_absent_def byte_ready_def addr ex_inst_def)
qed

lemma ex_leak_reads:
  "reads_absent (ctx_of ex_leak ((ex_pcb 1 7 ''input/proc/p1'' (c_mm ex_ctx))\<lparr>mm := c_mm ex_ctx1\<rparr>))
     (ex_inst READ 2 1280 0 0) 5"
  "reads_absent (ctx_of ex_leak (ex_pcb2\<lparr>mm := c_mm ex_ctx2\<rparr>)) (ex_inst READ 3 1280 0 0) 5"
proof -
  have "sym_ok (int_of_u32 2)" "sym_ok (int_of_u32 3)" by (simp_all add: sym_ok_def int_of_u32_def)
  then show "reads_absent (ctx_of ex_leak ((ex_pcb 1 7 ''input/proc/p1'' (c_mm ex_ctx))\<lparr>mm := c_mm ex_ctx1\<rparr>))
     (ex_inst READ 2 1280 0 0) 5"
    "reads_absent (ctx_of ex_leak (ex_pcb2\<lparr>mm := c_mm ex_ctx2\<rparr>)) (ex_inst READ 3 1280 0 0) 5"
    using ex_reads_absent [OF ex_leak_heap(1), of "first_area ex_u 300" 2] ex_ctx1_ok(2,3) ex_ctx1_more
      ex_reads_absent [OF ex_leak_heap(2), of "first_area ex_u 300" 3] ex_ctx2_more
    by (simp_all add: int_of_u32_def)
qed

text \<open>Page 0 of process 1 is in frame 1.\<close>

lemma ex_leak_byte: "bytes_of ex_leak 1 20 = Some 1"
proof -
  have "resident (c_mm ex_ctx1) 0"
    using resident_after_first [OF ex_fresh, of 300 2 0] ex_pages by (simp add: ex_ctx1_def)
  moreover have "frame_of (c_mm ex_ctx1) 0 = 1"
    by (simp add: frame_of_def ex_ctx1_def after_first_def ex_pages map_new_def Let_def ex_ctx_def ex_dev_def
        mapped_pgd_def numeral_2_eq_2 PAGING_FPN_set_fpn)
  moreover have "storage (k_mram ex_leak) 276 = 1" by (simp add: ex_leak_def)
  ultimately show ?thesis
    using ex_leak_heap(1) by (simp add: bytes_of_def va_view_def va_page_eq PAGING_OFFST_int)
qed

end
