(* ===== verification/Dump.thy ===== *)
theory Dump
  imports Syscall
begin

text \<open>
  The debugging output of \<open>src/mm.c\<close> (\<open>print_list_fp\<close>, \<open>print_list_rg\<close>,
  \<open>print_list_vma\<close>, \<open>print_list_pgn\<close>) and \<open>MEMPHY_dump\<close>: each function returns its
  result and the text it prints.  The four functions share their shape, which
  \<open>print_list\<close> states once; the lemmas say that the text has one line per node and that
  only the empty list is reported as an error.
\<close>

section \<open>Numbers and lines\<close>

text \<open>\<open>%d\<close> and \<open>%ld\<close> (the latter applied to an \<open>unsigned long\<close>, which it reads as signed).\<close>

definition show_d :: "int \<Rightarrow> string" where
  "show_d i = (if i < 0 then ''-'' @ decimal (nat (- i)) else decimal (nat i))"

definition show_ld :: "u64 \<Rightarrow> string" where
  "show_ld w = show_d (sint w)"

definition newline :: string where
  "newline = [CHR 0x0A]"

text \<open>The loop over the nodes.\<close>

fun print_nodes :: "('a \<Rightarrow> string) \<Rightarrow> 'a list \<Rightarrow> string" where
  "print_nodes line [] = []"
| "print_nodes line (x # xs) = line x @ newline @ print_nodes line xs"

definition print_list :: "string \<Rightarrow> ('a \<Rightarrow> string) \<Rightarrow> string \<Rightarrow> 'a list \<Rightarrow> int \<times> string" where
  "print_list name line last' l =
    (if l = [] then (-1, name @ '': '' @ ''NULL list'' @ newline)
     else (0, name @ '': '' @ newline @ print_nodes line l @ last'))"

section \<open>The functions\<close>

definition print_list_fp :: "int list \<Rightarrow> int \<times> string" where
  "print_list_fp = print_list ''print_list_fp'' (\<lambda>fpn. ''fp['' @ show_d fpn @ '']'') newline"

definition print_list_rg :: "vm_rg_struct list \<Rightarrow> int \<times> string" where
  "print_list_rg = print_list ''print_list_rg''
     (\<lambda>rg. ''rg['' @ show_ld (rg_start rg) @ ''->'' @ show_ld (rg_end rg) @ '']'') newline"

definition print_list_vma :: "vm_area_struct list \<Rightarrow> int \<times> string" where
  "print_list_vma = print_list ''print_list_vma''
     (\<lambda>v. ''va['' @ show_ld (vm_start v) @ ''->'' @ show_ld (vm_end v) @ '']'') newline"

text \<open>The last line of this one prints the letter \<open>n\<close> instead of a newline.\<close>

definition print_list_pgn :: "int list \<Rightarrow> int \<times> string" where
  "print_list_pgn = print_list ''print_list_pgn'' (\<lambda>pgn. ''va['' @ show_d pgn @ '']-'') ''n''"

text \<open>\<open>stored\<close>: whether the device has its storage.\<close>

definition MEMPHY_dump :: "bool \<Rightarrow> memphy_struct \<Rightarrow> int" where
  "MEMPHY_dump stored mp = (if \<not> stored then -1 else 0)"

section \<open>What is printed\<close>

lemma print_nodes_concat: "print_nodes line l = concat (map (\<lambda>x. line x @ newline) l)"
  by (induction l) simp_all

lemma print_nodes_lines:
  assumes "\<forall>x \<in> set l. newline ! 0 \<notin> set (line x)"
  shows "length (filter (\<lambda>c. c = newline ! 0) (print_nodes line l)) = length l"
  using assms
  by (induction l) (auto simp: newline_def filter_empty_conv)

lemma print_list_error: "fst (print_list name line e l) = -1 \<longleftrightarrow> l = []"
  by (simp add: print_list_def)

end
