(* ===== verification/Threads.thy ===== *)
theory Threads
  imports Timer
begin

text \<open>
  Threads that call one function on shared data, statement by statement.  \<open>cstep\<close> is the
  interleaving semantics, with or without a mutex around each call.  The locale
  \<open>guarded_call\<close> states what a sequential run of the function promises; under the mutex
  every interleaving is then a sequence of complete calls in some order.  It is
  interpreted in \<open>Race\<close> on the free-frame list and on the process queue.
\<close>

section \<open>Interleaving\<close>

text \<open>\<open>local\<close> is \<open>None\<close> for a thread that has not called the function yet.\<close>

record ('l, 's) threads =
  shared :: 's
  mutex :: "nat option"
  locals :: "nat \<rightharpoonup> 'l"

inductive cstep :: "(nat \<Rightarrow> 'l) \<Rightarrow> ('l \<Rightarrow> 's \<Rightarrow> ('l \<times> 's) outcome) \<Rightarrow> ('l \<Rightarrow> bool) \<Rightarrow> bool \<Rightarrow>
    ('l, 's) threads \<Rightarrow> ('l, 's) threads \<Rightarrow> bool" for enter micro fin lk where
  call: "locals c t = None \<Longrightarrow> lk \<longrightarrow> mutex c = None \<Longrightarrow>
    cstep enter micro fin lk c
      (c\<lparr>locals := (locals c)(t \<mapsto> enter t), mutex := (if lk then Some t else mutex c)\<rparr>)"
| act: "locals c t = Some l \<Longrightarrow> \<not> fin l \<Longrightarrow> micro l (shared c) = Inr (l', s') \<Longrightarrow>
    cstep enter micro fin lk c (c\<lparr>locals := (locals c)(t \<mapsto> l'), shared := s'\<rparr>)"
| unlock: "lk \<Longrightarrow> mutex c = Some t \<Longrightarrow> locals c t = Some l \<Longrightarrow> fin l \<Longrightarrow>
    cstep enter micro fin lk c (c\<lparr>mutex := None\<rparr>)"

inductive_cases cstepE: "cstep enter micro fin lk c c'"

definition idle :: "'s \<Rightarrow> ('l, 's) threads \<Rightarrow> bool" where
  "idle s c \<longleftrightarrow> shared c = s \<and> mutex c = None \<and> locals c = (\<lambda>_. None)"

text \<open>The steps one thread makes when nobody interferes.\<close>

inductive alone :: "('l \<Rightarrow> 's \<Rightarrow> ('l \<times> 's) outcome) \<Rightarrow> ('l \<Rightarrow> bool) \<Rightarrow> 'l \<Rightarrow> 's \<Rightarrow> 'l \<Rightarrow> 's \<Rightarrow> bool"
  for micro fin where
    alone_refl: "alone micro fin l s l s"
  | alone_step: "alone micro fin l s l' s' \<Longrightarrow> \<not> fin l' \<Longrightarrow> micro l' s' = Inr (l'', s'') \<Longrightarrow>
      alone micro fin l s l'' s''"

text \<open>Complete calls of the threads \<open>ts\<close>, one after the other; \<open>L\<close> holds their results.\<close>

inductive calls :: "(nat \<Rightarrow> 's \<Rightarrow> 'l \<Rightarrow> 's \<Rightarrow> bool) \<Rightarrow> (nat \<rightharpoonup> 'l) \<Rightarrow> 's \<Rightarrow> nat list \<Rightarrow> 's \<Rightarrow> bool"
  for spec L where
    calls_Nil: "calls spec L s [] s"
  | calls_snoc: "calls spec L s ts s1 \<Longrightarrow> L t = Some l \<Longrightarrow> spec t s1 l s2 \<Longrightarrow> calls spec L s (ts @ [t]) s2"

lemma calls_cong:
  assumes "calls spec L s ts s'" and "\<And>t. t \<in> set ts \<Longrightarrow> L' t = L t"
  shows "calls spec L' s ts s'"
  using assms by (induction rule: calls.induct) (auto intro: calls_Nil calls_snoc)

section \<open>What a guarded function promises\<close>

locale guarded_call =
  fixes enter :: "nat \<Rightarrow> 'l"
    and micro :: "'l \<Rightarrow> 's \<Rightarrow> ('l \<times> 's) outcome"
    and fin :: "'l \<Rightarrow> bool"
    and inv :: "'s \<Rightarrow> bool"
    and spec :: "nat \<Rightarrow> 's \<Rightarrow> 'l \<Rightarrow> 's \<Rightarrow> bool"
  assumes enter_runs: "\<not> fin (enter t)"
    and safe: "inv s \<Longrightarrow> alone micro fin (enter t) s l s' \<Longrightarrow> \<not> fin l \<Longrightarrow> \<exists>y. micro l s' = Inr y"
    and correct: "inv s \<Longrightarrow> alone micro fin (enter t) s l s' \<Longrightarrow> fin l \<Longrightarrow> inv s' \<and> spec t s l s'"
begin

text \<open>
  The threads \<open>ts\<close> have returned and left \<open>s1\<close>; one more may be inside, holding the
  mutex.
\<close>

definition inside :: "nat list \<Rightarrow> 's \<Rightarrow> ('l, 's) threads \<Rightarrow> nat \<Rightarrow> 'l \<Rightarrow> bool" where
  "inside ts s1 c t l \<longleftrightarrow> t \<notin> set ts \<and> mutex c = Some t \<and> locals c t = Some l \<and> \<not> fin l \<and>
    dom (locals c) = insert t (set ts) \<and> alone micro fin (enter t) s1 l (shared c)"

definition lin_by :: "'s \<Rightarrow> nat list \<Rightarrow> 's \<Rightarrow> ('l, 's) threads \<Rightarrow> bool" where
  "lin_by s0 ts s1 c \<longleftrightarrow> distinct ts \<and> inv s1 \<and> calls spec (locals c) s0 ts s1 \<and>
    (\<forall>t \<in> set ts. \<exists>l. locals c t = Some l \<and> fin l) \<and>
    (dom (locals c) = set ts \<and> shared c = s1 \<or> (\<exists>t l. inside ts s1 c t l))"

definition lin :: "'s \<Rightarrow> ('l, 's) threads \<Rightarrow> bool" where
  "lin s0 c \<longleftrightarrow> (\<exists>ts s1. lin_by s0 ts s1 c)"

lemma lin_idle: "inv s0 \<Longrightarrow> idle s0 c \<Longrightarrow> lin s0 c"
  unfolding lin_def lin_by_def idle_def by (intro exI [of _ "[]"] exI [of _ s0]) (auto intro: calls_Nil)

lemma lin_by_inside:
  assumes "lin_by s0 ts s1 c" and l: "locals c t = Some l" "\<not> fin l"
  shows "inside ts s1 c t l"
proof -
  have nt: "t \<notin> set ts" using assms by (auto simp: lin_by_def)
  then obtain t' l' where i: "inside ts s1 c t' l'" using assms by (auto simp: lin_by_def)
  then have "t' = t" using nt l(1) by (auto simp: inside_def)
  then show ?thesis using i l(1) by (simp add: inside_def)
qed

text \<open>The thread inside goes on, and has returned or not.\<close>

lemma lin_act:
  assumes ts: "distinct ts" "inv s1" "calls spec (locals c) s0 ts s1"
    "\<forall>t \<in> set ts. \<exists>l. locals c t = Some l \<and> fin l"
    and t: "t \<notin> set ts" "mutex c = Some t" "dom (locals c) \<subseteq> insert t (set ts)" "set ts \<subseteq> dom (locals c)"
    and run: "alone micro fin (enter t) s1 l' s'"
  shows "lin s0 (c\<lparr>locals := (locals c)(t \<mapsto> l'), shared := s'\<rparr>)" (is "lin s0 ?c")
proof -
  have old: "calls spec (locals ?c) s0 ts s1" by (rule calls_cong [OF ts(3)]) (use t(1) in auto)
  have ret: "\<forall>t' \<in> set ts. \<exists>l. locals ?c t' = Some l \<and> fin l" using ts(4) t(1) by auto
  have dom: "dom (locals ?c) = insert t (set ts)" using t(3,4) by auto
  show ?thesis
  proof (cases "fin l'")
    case True
    have new: "inv s'" "spec t s1 l' s'" using correct [OF ts(2) run True] by auto
    have "calls spec (locals ?c) s0 (ts @ [t]) s'" by (rule calls_snoc [OF old _ new(2)]) simp
    then have "lin_by s0 (ts @ [t]) s' ?c"
      using ts(1) t(1) new(1) ret dom True by (auto simp: lin_by_def)
    then show ?thesis by (auto simp: lin_def)
  next
    case False
    then have "inside ts s1 ?c t l'" using t(1,2) dom run by (simp add: inside_def)
    then have "lin_by s0 ts s1 ?c" using ts(1,2) old ret by (auto simp: lin_by_def)
    then show ?thesis by (auto simp: lin_def)
  qed
qed

lemma lin_step: "lin s0 c \<Longrightarrow> cstep enter micro fin True c c' \<Longrightarrow> lin s0 c'"
proof (erule cstepE)
  fix t
  assume l: "lin s0 c" and c: "locals c t = None" "True \<longrightarrow> mutex c = None"
    "c' = c\<lparr>locals := (locals c)(t \<mapsto> enter t), mutex := (if True then Some t else mutex c)\<rparr>"
  obtain ts where ts: "distinct ts" "inv (shared c)" "calls spec (locals c) s0 ts (shared c)"
    "\<forall>t \<in> set ts. \<exists>l. locals c t = Some l \<and> fin l" "dom (locals c) = set ts"
    using l c(2) by (auto simp: lin_def lin_by_def inside_def)
  have "t \<notin> set ts" using ts(5) c(1) by auto
  then have "lin s0 ((c\<lparr>mutex := Some t\<rparr>)\<lparr>locals := (locals (c\<lparr>mutex := Some t\<rparr>))(t \<mapsto> enter t), shared := shared c\<rparr>)"
    using ts by (intro lin_act [OF ts(1,2)]) (auto intro: alone_refl)
  then show "lin s0 c'" using c(3) by (cases c) simp
next
  fix t l l' s'
  assume lc: "lin s0 c" and a: "locals c t = Some l" "\<not> fin l" "micro l (shared c) = Inr (l', s')"
    "c' = c\<lparr>locals := (locals c)(t \<mapsto> l'), shared := s'\<rparr>"
  obtain ts s1 where ts: "lin_by s0 ts s1 c" using lc by (auto simp: lin_def)
  have i: "inside ts s1 c t l" by (rule lin_by_inside [OF ts a(1,2)])
  then have "alone micro fin (enter t) s1 l' s'" using a(2,3) by (auto simp: inside_def intro: alone_step)
  then show "lin s0 c'"
    unfolding a(4) using ts i by (intro lin_act) (auto simp: lin_by_def inside_def)
next
  fix t l
  assume lc: "lin s0 c" and u: "mutex c = Some t" "locals c t = Some l" "fin l" "c' = c\<lparr>mutex := None\<rparr>"
  then obtain ts s1 where ts: "lin_by s0 ts s1 c" by (auto simp: lin_def)
  then have "lin_by s0 ts s1 c'" using u by (auto simp: lin_by_def inside_def)
  then show "lin s0 c'" by (auto simp: lin_def)
qed

lemma lin_reach: "reach (idle s0) (cstep enter micro fin True) c \<Longrightarrow> inv s0 \<Longrightarrow> lin s0 c"
  by (induction rule: reach.induct) (auto intro: lin_idle lin_step)

text \<open>
  The interleaving is a sequence of complete calls; no thread is stuck; and when nobody is
  inside, the shared data is what the calls leave.
\<close>

lemma linearizable:
  assumes "reach (idle s0) (cstep enter micro fin True) c" and "inv s0"
  shows "\<exists>ts s1. distinct ts \<and> set ts = {t. \<exists>l. locals c t = Some l \<and> fin l} \<and> inv s1 \<and> calls spec (locals c) s0 ts s1 \<and>
    ((\<forall>t l. locals c t = Some l \<longrightarrow> fin l) \<longrightarrow> shared c = s1)"
    and "locals c t = Some l \<Longrightarrow> \<not> fin l \<Longrightarrow> \<exists>y. micro l (shared c) = Inr y"
proof -
  obtain ts s1 where ts: "lin_by s0 ts s1 c" using lin_reach [OF assms] by (auto simp: lin_def)
  have "shared c = s1" if "\<And>t l. locals c t = Some l \<Longrightarrow> fin l"
    using ts that by (auto simp: lin_by_def inside_def)
  moreover have "t \<in> set ts \<longleftrightarrow> (\<exists>l. locals c t = Some l \<and> fin l)" for t
  proof
    assume "\<exists>l. locals c t = Some l \<and> fin l"
    then obtain l where l: "locals c t = Some l" "fin l" by blast
    show "t \<in> set ts"
    proof (rule ccontr)
      assume "t \<notin> set ts"
      then obtain t' l' where i: "inside ts s1 c t' l'" using ts l(1) by (auto simp: lin_by_def)
      then have "t' = t" using l(1) \<open>t \<notin> set ts\<close> by (auto simp: inside_def)
      then show False using i l by (simp add: inside_def)
    qed
  qed (use ts in \<open>simp add: lin_by_def\<close>)
  then have "set ts = {t. \<exists>l. locals c t = Some l \<and> fin l}" by blast
  ultimately show "\<exists>ts s1. distinct ts \<and> set ts = {t. \<exists>l. locals c t = Some l \<and> fin l} \<and> inv s1 \<and>
    calls spec (locals c) s0 ts s1 \<and> ((\<forall>t l. locals c t = Some l \<longrightarrow> fin l) \<longrightarrow> shared c = s1)"
    using ts by (intro exI [of _ ts] exI [of _ s1]) (simp add: lin_by_def)
  show "\<exists>y. micro l (shared c) = Inr y" if l: "locals c t = Some l" "\<not> fin l"
  proof -
    have "inside ts s1 c t l" by (rule lin_by_inside [OF ts l])
    then show ?thesis using safe ts l(2) by (auto simp: inside_def lin_by_def)
  qed
qed

end

section \<open>A schedule without the mutex\<close>

text \<open>The threads of a list take one step each, in that order.\<close>

definition turn :: "(nat \<Rightarrow> 'l) \<Rightarrow> ('l \<Rightarrow> 's \<Rightarrow> ('l \<times> 's) outcome) \<Rightarrow> ('l \<Rightarrow> bool) \<Rightarrow> nat \<Rightarrow> ('l, 's) threads \<Rightarrow>
    ('l, 's) threads outcome" where
  "turn enter micro fin t c =
    (case locals c t of
       None \<Rightarrow> Inr (c\<lparr>locals := (locals c)(t \<mapsto> enter t)\<rparr>)
     | Some l \<Rightarrow> if fin l then Inr c
         else rbind (micro l (shared c)) (\<lambda>(l', s'). Inr (c\<lparr>locals := (locals c)(t \<mapsto> l'), shared := s'\<rparr>)))"

fun turns :: "(nat \<Rightarrow> 'l) \<Rightarrow> ('l \<Rightarrow> 's \<Rightarrow> ('l \<times> 's) outcome) \<Rightarrow> ('l \<Rightarrow> bool) \<Rightarrow> nat list \<Rightarrow> ('l, 's) threads \<Rightarrow>
    ('l, 's) threads outcome" where
  "turns enter micro fin [] c = Inr c"
| "turns enter micro fin (t # ts) c = rbind (turn enter micro fin t c) (turns enter micro fin ts)"

lemma turn_step: "turn enter micro fin t c = Inr c' \<Longrightarrow> c' = c \<or> cstep enter micro fin False c c'"
  using cstep.call [of c t False enter micro fin] cstep.act [of c t _ fin micro]
  by (fastforce simp: turn_def rbind_Inr_iff split: option.splits if_splits)

lemma turns_reach:
  "reach I (cstep enter micro fin False) c \<Longrightarrow> turns enter micro fin ts c = Inr c' \<Longrightarrow> reach I (cstep enter micro fin False) c'"
proof (induction ts arbitrary: c)
  case (Cons t ts)
  then obtain c1 where c1: "turn enter micro fin t c = Inr c1" "turns enter micro fin ts c1 = Inr c'"
    by (auto simp: rbind_Inr_iff)
  then show ?case using Cons.IH [OF _ c1(2)] turn_step [OF c1(1)] Cons.prems(1) reach_step [OF Cons.prems(1)] by blast
qed simp

section \<open>Functions known by their remaining run\<close>

text \<open>
  \<open>rest l s\<close> is what a thread at \<open>l\<close> will return and leave when nobody interferes: each
  step keeps it, and a step is possible where it is defined.
\<close>

locale sequential_call =
  fixes enter :: "nat \<Rightarrow> 'l"
    and micro :: "'l \<Rightarrow> 's \<Rightarrow> ('l \<times> 's) outcome"
    and fin :: "'l \<Rightarrow> bool"
    and inv :: "'s \<Rightarrow> bool"
    and rest :: "'l \<Rightarrow> 's \<Rightarrow> ('l \<times> 's) outcome"
  assumes entered: "\<not> fin (enter t)"
    and whole: "inv s \<Longrightarrow> \<exists>l s'. rest (enter t) s = Inr (l, s') \<and> inv s'"
    and progress: "rest l s = Inr y \<Longrightarrow> \<not> fin l \<Longrightarrow> \<exists>l' s'. micro l s = Inr (l', s') \<and> rest l' s' = Inr y"
    and finished: "fin l \<Longrightarrow> rest l s = Inr (l, s)"
begin

lemma alone_rest: "alone micro fin l s l' s' \<Longrightarrow> rest l s = Inr y \<Longrightarrow> rest l' s' = Inr y"
proof (induction rule: alone.induct)
  case (alone_step l s l1 s1 l2 s2)
  then show ?case using progress [of l1 s1 y] by auto
qed

end

sublocale sequential_call \<subseteq> guarded_call enter micro fin inv "\<lambda>t s l s'. rest (enter t) s = Inr (l, s')"
proof unfold_locales
  fix s l t s'
  assume inv: "inv s" and a: "alone micro fin (enter t) s l s'"
  obtain l1 s1 where r: "rest (enter t) s = Inr (l1, s1)" "inv s1" using whole [OF inv] by blast
  have "rest l s' = Inr (l1, s1)" by (rule alone_rest [OF a r(1)])
  then show "\<not> fin l \<Longrightarrow> \<exists>y. micro l s' = Inr y" and "fin l \<Longrightarrow> inv s' \<and> rest (enter t) s = Inr (l, s')"
    using progress [of l s' "(l1, s1)"] finished [of l s'] r by auto
qed (rule entered)

end
