(* ===== verification/Race.thy ===== *)
theory Race
  imports Memphy Threads
begin

text \<open>
  \<open>MEMPHY_get_freefp\<close> (\<open>src/mm-memphy.c\<close>) as several threads execute it on one device: each
  access to the shared list is a step of its own, on a heap of list nodes.  \<open>__alloc\<close> of
  \<open>libmem.c\<close> makes the call while it holds \<open>mmvm_lock\<close>; \<open>pg_getpage\<close> (from \<open>libread\<close> and
  \<open>libwrite\<close>) and the \<open>memmap\<close> system call make it without.  With the lock every
  interleaving is a sequence of \<open>MEMPHY_get_freefp\<close> calls (the locale \<open>guarded_call\<close>);
  without, two CPUs can get the same frame and free its node twice.
\<close>

section \<open>The steps of the function\<close>

text \<open>A node of the list; nothing reads or writes its field \<open>owner\<close>.\<close>

record framephy_struct =
  fr_fpn :: int
  fr_next :: "nat option"

record fp_list =
  fl_nodes :: "nat \<rightharpoonup> framephy_struct"
  fl_head :: "nat option"

text \<open>
  A thread is at the first statement, has loaded \<open>fp\<close>, has written \<open>retfpn\<close>, has moved the
  head, or has returned 0 (with the frame) or -1.
\<close>

datatype get_at = GEnter | GLoaded nat | GRet nat int | GMoved nat int | GDone int | GFail

fun get_fin :: "get_at \<Rightarrow> bool" where
  "get_fin (GDone f) = True"
| "get_fin GFail = True"
| "get_fin _ = False"

definition node_at :: "fp_list \<Rightarrow> nat \<Rightarrow> framephy_struct outcome" where
  "node_at s a = (case fl_nodes s a of None \<Rightarrow> Inl UseAfterFree | Some n \<Rightarrow> Inr n)"

fun get_micro :: "get_at \<Rightarrow> fp_list \<Rightarrow> (get_at \<times> fp_list) outcome" where
  "get_micro GEnter s = Inr (case fl_head s of None \<Rightarrow> GFail | Some fp \<Rightarrow> GLoaded fp, s)"
| "get_micro (GLoaded fp) s = rbind (node_at s fp) (\<lambda>n. Inr (GRet fp (fr_fpn n), s))"
| "get_micro (GRet fp f) s = rbind (node_at s fp) (\<lambda>n. Inr (GMoved fp f, s\<lparr>fl_head := fr_next n\<rparr>))"
| "get_micro (GMoved fp f) s =
    rbind (node_at s fp) (\<lambda>_. Inr (GDone f, s\<lparr>fl_nodes := (fl_nodes s)(fp := None)\<rparr>))"
| "get_micro l s = Inr (l, s)"

lemma get_micro_fin: "get_fin l \<Longrightarrow> \<exists>y. get_micro l s = Inr y"
  by (cases l) simp_all

definition get_step :: "bool \<Rightarrow> (get_at, fp_list) threads \<Rightarrow> (get_at, fp_list) threads \<Rightarrow> bool" where
  "get_step lk = cstep (\<lambda>_. GEnter) get_micro get_fin lk"

section \<open>The list in the heap\<close>

text \<open>The nodes from the head on, by address and frame number.\<close>

fun chain :: "(nat \<rightharpoonup> framephy_struct) \<Rightarrow> nat option \<Rightarrow> (nat \<times> int) list \<Rightarrow> bool" where
  "chain h p [] \<longleftrightarrow> p = None"
| "chain h p ((a, f) # xs) \<longleftrightarrow> p = Some a \<and> (\<exists>n. h a = Some n \<and> fr_fpn n = f \<and> chain h (fr_next n) xs)"

definition holds_list :: "fp_list \<Rightarrow> int list \<Rightarrow> bool" where
  "holds_list s fs \<longleftrightarrow> (\<exists>xs. chain (fl_nodes s) (fl_head s) xs \<and> distinct (map fst xs) \<and> map snd xs = fs)"

lemma chain_free: "a \<notin> fst ` set xs \<Longrightarrow> chain (h(a := None)) p xs = chain h p xs"
  by (induction xs arbitrary: p) auto

lemma holds_list_Nil: "holds_list s [] \<longleftrightarrow> fl_head s = None"
  by (auto simp: holds_list_def)

lemma holds_list_Cons:
  assumes "holds_list s (f # fs)"
  obtains a n where "fl_head s = Some a" "fl_nodes s a = Some n" "fr_fpn n = f"
    "holds_list (s\<lparr>fl_head := fr_next n, fl_nodes := (fl_nodes s)(a := None)\<rparr>) fs"
proof -
  obtain a xs where xs: "chain (fl_nodes s) (fl_head s) ((a, f) # xs)" "distinct (a # map fst xs)" "map snd xs = fs"
    using assms by (auto simp: holds_list_def map_eq_Cons_conv)
  then obtain n where n: "fl_head s = Some a" "fl_nodes s a = Some n" "fr_fpn n = f" "chain (fl_nodes s) (fr_next n) xs"
    by auto
  have "holds_list (s\<lparr>fl_head := fr_next n, fl_nodes := (fl_nodes s)(a := None)\<rparr>) fs"
    using xs(2,3) n(4) chain_free [of a xs] by (auto simp: holds_list_def)
  then show thesis using that n(1-3) by blast
qed

lemma holds_list_cases:
  assumes "holds_list s fs" and "fl_head s = Some a"
  obtains n where "fl_nodes s a = Some n"
  using assms by (cases fs) (auto simp: holds_list_Nil elim: holds_list_Cons)

section \<open>One thread alone\<close>

text \<open>What the thread knows at each place, when it started on \<open>s\<close>.\<close>

fun get_knows :: "fp_list \<Rightarrow> get_at \<Rightarrow> fp_list \<Rightarrow> bool" where
  "get_knows s GEnter s' \<longleftrightarrow> s' = s"
| "get_knows s (GLoaded fp) s' \<longleftrightarrow> s' = s \<and> fl_head s = Some fp"
| "get_knows s (GRet fp f) s' \<longleftrightarrow> s' = s \<and> fl_head s = Some fp \<and> (\<exists>n. fl_nodes s fp = Some n \<and> fr_fpn n = f)"
| "get_knows s (GMoved fp f) s' \<longleftrightarrow> fl_head s = Some fp \<and>
     (\<exists>n. fl_nodes s fp = Some n \<and> fr_fpn n = f \<and> s' = s\<lparr>fl_head := fr_next n\<rparr>)"
| "get_knows s (GDone f) s' \<longleftrightarrow> (\<exists>fp n. fl_head s = Some fp \<and> fl_nodes s fp = Some n \<and> fr_fpn n = f \<and>
     s' = s\<lparr>fl_head := fr_next n, fl_nodes := (fl_nodes s)(fp := None)\<rparr>)"
| "get_knows s GFail s' \<longleftrightarrow> s' = s \<and> fl_head s = None"

lemma node_at_Inr: "node_at s a = Inr n \<longleftrightarrow> fl_nodes s a = Some n"
  by (simp add: node_at_def split: option.split)

lemma alone_get: "alone get_micro get_fin l0 s l s' \<Longrightarrow> l0 = GEnter \<Longrightarrow> get_knows s l s'"
proof (induction rule: alone.induct)
  case (alone_step l s l' s' l'' s'')
  then show ?case
    by (cases l') (auto simp: rbind_Inr_iff node_at_Inr split: option.splits)
qed simp

text \<open>Undisturbed, the steps are \<open>MEMPHY_get_freefp\<close> on the list of frame numbers.\<close>

definition get_spec :: "nat \<Rightarrow> fp_list \<Rightarrow> get_at \<Rightarrow> fp_list \<Rightarrow> bool" where
  "get_spec t s l s' \<longleftrightarrow> (\<forall>mp ret f mp'. holds_list s (free_fp_list mp) \<longrightarrow> MEMPHY_get_freefp mp 0 = (ret, f, mp') \<longrightarrow>
    l = (if ret = 0 then GDone f else GFail) \<and> holds_list s' (free_fp_list mp'))"

lemma get_specD:
  assumes "get_spec t s l s'" and "holds_list s (free_fp_list mp)" and "MEMPHY_get_freefp mp 0 = (ret, f, mp')"
  shows "l = (if ret = 0 then GDone f else GFail)" and "holds_list s' (free_fp_list mp')"
  using assms unfolding get_spec_def by blast+

lemma get_knows_spec:
  assumes "get_knows s l s'" and "get_fin l"
  shows "get_spec t s l s'"
  unfolding get_spec_def
proof (intro allI impI)
  fix mp :: memphy_struct and ret f mp'
  assume h: "holds_list s (free_fp_list mp)" and g: "MEMPHY_get_freefp mp 0 = (ret, f, mp')"
  show "l = (if ret = 0 then GDone f else GFail) \<and> holds_list s' (free_fp_list mp')"
  proof (cases "free_fp_list mp")
    case Nil
    then show ?thesis using assms h g by (cases l) (auto simp: MEMPHY_get_freefp_def holds_list_Nil)
  next
    case (Cons x fs)
    then show ?thesis
      using assms h g by (cases l) (auto simp: MEMPHY_get_freefp_def elim!: holds_list_Cons)
  qed
qed

interpretation freefp: guarded_call "\<lambda>_. GEnter" get_micro get_fin "\<lambda>s. \<exists>fs. holds_list s fs" get_spec
proof unfold_locales
  fix t s l s'
  assume inv: "\<exists>fs. holds_list s fs" and a: "alone get_micro get_fin GEnter s l s'"
  have k: "get_knows s l s'" by (rule alone_get [OF a refl])
  show "\<exists>y. get_micro l s' = Inr y"
    using k inv by (cases l) (auto simp: node_at_def elim: holds_list_cases)
  assume fin: "get_fin l"
  obtain fs where fs: "holds_list s fs" using inv by blast
  obtain ret f mp' where "MEMPHY_get_freefp \<lparr>storage = \<lambda>_. 0, maxsz = 0, rdmflg = 0, cursor = 0, free_fp_list = fs\<rparr> 0 =
    (ret, f, mp')" by (metis prod_cases3)
  then have "holds_list s' (free_fp_list mp')"
    by - (rule get_specD(2) [OF get_knows_spec [OF k fin], rotated], assumption, simp add: fs)
  then show "(\<exists>fs. holds_list s' fs) \<and> get_spec t s l s'" using get_knows_spec [OF k fin] by blast
qed simp

section \<open>With the lock\<close>

text \<open>The \<open>i\<close>-th call of a sequence gets the \<open>i\<close>-th frame of the list, or fails.\<close>

lemma calls_get:
  assumes "calls get_spec L s ts s'" and "holds_list s fs"
  shows "holds_list s' (drop (length ts) fs) \<and>
    (\<forall>i < length ts. L (ts ! i) = Some (if i < length fs then GDone (fs ! i) else GFail))"
  using assms
proof (induction rule: calls.induct)
  case (calls_snoc s ts s1 t l s2)
  let ?mp = "\<lparr>storage = \<lambda>_. 0, maxsz = 0, rdmflg = 0, cursor = 0, free_fp_list = drop (length ts) fs\<rparr>"
  obtain ret f mp' where g: "MEMPHY_get_freefp ?mp 0 = (ret, f, mp')" by (metis prod_cases3)
  have h: "holds_list s1 (drop (length ts) fs)" using calls_snoc.IH calls_snoc.prems by blast
  have l: "l = (if ret = 0 then GDone f else GFail)" "holds_list s2 (free_fp_list mp')"
    using get_specD [OF calls_snoc.hyps(3) _ g] h by simp_all
  have len: "length ts < length fs \<longleftrightarrow> drop (length ts) fs \<noteq> []" by auto
  have "free_fp_list mp' = drop (Suc (length ts)) fs \<and>
      (if ret = 0 then GDone f else GFail) = (if length ts < length fs then GDone (fs ! length ts) else GFail)"
    using g len by (cases "drop (length ts) fs")
      (auto simp: MEMPHY_get_freefp_def drop_Suc tl_drop [symmetric] nth_via_drop split: if_splits)
  then show ?case using calls_snoc l by (auto simp: nth_append less_Suc_eq)
qed simp

section \<open>Without the lock\<close>

text \<open>Two threads load the same head before one of them moves it.\<close>

lemma unlocked_race:
  assumes h: "holds_list s (f # fs)"
  shows "\<exists>c a. reach (idle s) (get_step False) c \<and> locals c 0 = Some (GDone f) \<and> locals c 1 = Some (GMoved a f) \<and>
    get_micro (GMoved a f) (shared c) = Inl UseAfterFree"
proof -
  obtain a n where n: "fl_head s = Some a" "fl_nodes s a = Some n" "fr_fpn n = f"
    using h by (rule holds_list_Cons)
  let ?init = "\<lparr>shared = s, mutex = None, locals = (\<lambda>_. None)\<rparr>"
  let ?I = "idle s" and ?turns = "turns (\<lambda>_. GEnter) get_micro get_fin [0, 1, 0, 1, 0, 1, 0, 1, 0]"
  have "\<exists>c. ?turns ?init = Inr c \<and> locals c 0 = Some (GDone f) \<and> locals c 1 = Some (GMoved a f) \<and>
      fl_nodes (shared c) a = None"
    using n by (simp add: turn_def node_at_def)
  then obtain c where c: "?turns ?init = Inr c" "locals c 0 = Some (GDone f)" "locals c 1 = Some (GMoved a f)"
    "fl_nodes (shared c) a = None" by blast
  have "reach ?I (get_step False) ?init" by (rule reach_init) (simp add: idle_def)
  then have "reach ?I (get_step False) c" using turns_reach [OF _ c(1)] by (simp add: get_step_def)
  then show ?thesis using c by (intro exI [of _ c] exI [of _ a]) (simp add: node_at_def)
qed

end
