(* ===== verification/QueueRace.thy ===== *)
theory QueueRace
  imports Queue Threads
begin

text \<open>
  \<open>enqueue\<close> and \<open>dequeue\<close> (\<open>src/queue.c\<close>) as several threads execute them on one queue:
  each access to the shared array or its fill count is a step of its own, an iteration of
  a loop is one step.  The scheduler makes these calls while it holds \<open>queue_lock\<close>;
  \<open>__sys_killall\<close> makes them on the same queues without.  With the lock every interleaving
  is a sequence of calls; without, a process is lost or handed out twice.
\<close>

section \<open>The steps of the functions\<close>

text \<open>The fill count is an \<open>int\<close>: without the lock it can become negative.\<close>

record queue_mem =
  qm_proc :: "nat \<Rightarrow> pcb_ptr"
  qm_size :: int

text \<open>
  A thread that calls \<open>enqueue\<close> with \<open>p\<close> is at the test for room, reads the index, stores
  the pointer, reads the count, writes it back, or has returned; one that calls \<open>dequeue\<close>
  is at the test, reads the first entry, scans from \<open>i\<close>, shifts from \<open>i\<close>, reads the count,
  writes it back, or has returned.
\<close>

datatype queue_at =
    EEnter pcb_ptr | EIndex pcb_ptr | EStore pcb_ptr int | ECount | EWrite int | EDone
  | DEnter | DFirst | DScan nat pcb_ptr nat | DShift nat pcb_ptr | DCount pcb_ptr | DWrite pcb_ptr int
  | DDone "pcb_ptr option"

fun queue_fin :: "queue_at \<Rightarrow> bool" where
  "queue_fin EDone = True"
| "queue_fin (DDone r) = True"
| "queue_fin _ = False"

definition slot_at :: "queue_mem \<Rightarrow> int \<Rightarrow> pcb_ptr outcome" where
  "slot_at m i = rbind (assert_that (0 \<le> i \<and> i < int MAX_QUEUE_SIZE) OutOfBounds) (\<lambda>_. Inr (qm_proc m (nat i)))"

definition set_slot :: "queue_mem \<Rightarrow> int \<Rightarrow> pcb_ptr \<Rightarrow> queue_mem outcome" where
  "set_slot m i p = rbind (assert_that (0 \<le> i \<and> i < int MAX_QUEUE_SIZE) OutOfBounds)
    (\<lambda>_. Inr (m\<lparr>qm_proc := (qm_proc m)(nat i := p)\<rparr>))"

fun queue_micro :: "heap \<Rightarrow> queue_at \<Rightarrow> queue_mem \<Rightarrow> (queue_at \<times> queue_mem) outcome" where
  "queue_micro h (EEnter p) m = Inr (if qm_size m \<ge> int MAX_QUEUE_SIZE then EDone else EIndex p, m)"
| "queue_micro h (EIndex p) m = Inr (EStore p (qm_size m), m)"
| "queue_micro h (EStore p i) m = rbind (set_slot m i p) (\<lambda>m'. Inr (ECount, m'))"
| "queue_micro h ECount m = Inr (EWrite (qm_size m), m)"
| "queue_micro h (EWrite k) m = Inr (EDone, m\<lparr>qm_size := k + 1\<rparr>)"
| "queue_micro h DEnter m = Inr (if qm_size m = 0 then DDone None else DFirst, m)"
| "queue_micro h DFirst m = rbind (slot_at m 0) (\<lambda>p. Inr (DScan 1 p 0, m))"
| "queue_micro h (DScan i highest k) m =
    (if int i < qm_size m then
       rbind (slot_at m (int i)) (\<lambda>p.
       rbind (pcb_at h p) (\<lambda>b.
       rbind (pcb_at h highest) (\<lambda>bh.
       Inr (if priority b < priority bh then DScan (i + 1) p i else DScan (i + 1) highest k, m))))
     else Inr (DShift k highest, m))"
| "queue_micro h (DShift i highest) m =
    (if int i < qm_size m - 1 then
       rbind (slot_at m (int i + 1)) (\<lambda>p.
       rbind (set_slot m (int i) p) (\<lambda>m'. Inr (DShift (i + 1) highest, m')))
     else Inr (DCount highest, m))"
| "queue_micro h (DCount highest) m = Inr (DWrite highest (qm_size m), m)"
| "queue_micro h (DWrite highest k) m = Inr (DDone (Some highest), m\<lparr>qm_size := k - 1\<rparr>)"
| "queue_micro h l m = Inr (l, m)"

text \<open>Thread \<open>t\<close> calls \<open>enqueue\<close> with \<open>p\<close> if \<open>ops t = Some p\<close>, and \<open>dequeue\<close> otherwise.\<close>

definition queue_enter :: "(nat \<Rightarrow> pcb_ptr option) \<Rightarrow> nat \<Rightarrow> queue_at" where
  "queue_enter ops t = (case ops t of Some p \<Rightarrow> EEnter p | None \<Rightarrow> DEnter)"

definition queue_step :: "heap \<Rightarrow> (nat \<Rightarrow> pcb_ptr option) \<Rightarrow> bool \<Rightarrow>
    (queue_at, queue_mem) threads \<Rightarrow> (queue_at, queue_mem) threads \<Rightarrow> bool" where
  "queue_step h ops lk = cstep (queue_enter ops) (queue_micro h) queue_fin lk"

section \<open>The remaining run\<close>

definition q_of :: "queue_mem \<Rightarrow> queue_t" where
  "q_of m = \<lparr>q_proc = qm_proc m, q_size = nat (qm_size m)\<rparr>"

definition mem_of :: "queue_t \<Rightarrow> queue_mem" where
  "mem_of q = \<lparr>qm_proc = q_proc q, qm_size = int (q_size q)\<rparr>"

lemma q_of_mem_of [simp]: "q_of (mem_of q) = q"
  by (simp add: q_of_def mem_of_def)

text \<open>Where the fill count is one of a queue that is not empty.\<close>

definition filled :: "queue_mem \<Rightarrow> 'a outcome \<Rightarrow> 'a outcome" where
  "filled m r = (if 0 < qm_size m \<and> qm_size m \<le> int MAX_QUEUE_SIZE then r else Inl OutOfBounds)"

fun queue_rest :: "heap \<Rightarrow> queue_at \<Rightarrow> queue_mem \<Rightarrow> (queue_at \<times> queue_mem) outcome" where
  "queue_rest h (EEnter p) m =
    (if qm_size m < 0 then Inl OutOfBounds else Inr (EDone, mem_of (enqueue (q_of m) (Some p))))"
| "queue_rest h (EIndex p) m = rbind (set_slot m (qm_size m) p) (\<lambda>m'. Inr (EDone, m'\<lparr>qm_size := qm_size m + 1\<rparr>))"
| "queue_rest h (EStore p i) m = rbind (set_slot m i p) (\<lambda>m'. Inr (EDone, m'\<lparr>qm_size := qm_size m + 1\<rparr>))"
| "queue_rest h ECount m = Inr (EDone, m\<lparr>qm_size := qm_size m + 1\<rparr>)"
| "queue_rest h (EWrite k) m = Inr (EDone, m\<lparr>qm_size := k + 1\<rparr>)"
| "queue_rest h DEnter m =
    (if qm_size m = 0 then Inr (DDone None, m)
     else filled m (rbind (dequeue h (q_of m)) (\<lambda>(r, q). Inr (DDone r, mem_of q))))"
| "queue_rest h DFirst m = filled m (rbind (dequeue h (q_of m)) (\<lambda>(r, q). Inr (DDone r, mem_of q)))"
| "queue_rest h (DScan i highest k) m =
    filled m (rbind (highest_loop h (q_of m) i highest k) (\<lambda>(p, j).
      Inr (DDone (Some p), m\<lparr>qm_proc := shift_loop (nat (qm_size m)) j (qm_proc m), qm_size := qm_size m - 1\<rparr>)))"
| "queue_rest h (DShift i highest) m =
    filled m (Inr (DDone (Some highest),
      m\<lparr>qm_proc := shift_loop (nat (qm_size m)) i (qm_proc m), qm_size := qm_size m - 1\<rparr>))"
| "queue_rest h (DCount highest) m = Inr (DDone (Some highest), m\<lparr>qm_size := qm_size m - 1\<rparr>)"
| "queue_rest h (DWrite highest k) m = Inr (DDone (Some highest), m\<lparr>qm_size := k - 1\<rparr>)"
| "queue_rest h l m = Inr (l, m)"

lemma filled_Inr [simp]: "filled m r = Inr y \<longleftrightarrow> 0 < qm_size m \<and> qm_size m \<le> int MAX_QUEUE_SIZE \<and> r = Inr y"
  by (auto simp: filled_def)

lemma q_of_sel [simp]: "q_proc (q_of m) = qm_proc m" "q_size (q_of m) = nat (qm_size m)"
  by (simp_all add: q_of_def)

text \<open>One lemma per statement: the step is possible and keeps the remaining run.\<close>

lemma rest_enqueue:
  assumes "queue_rest h l m = Inr y" and "l = EEnter p \<or> l = EIndex p \<or> l = EStore p i \<or> l = ECount \<or> l = EWrite k"
  shows "\<exists>l' m'. queue_micro h l m = Inr (l', m') \<and> queue_rest h l' m' = Inr y"
  using assms(2)
proof (elim disjE)
  assume l: "l = EEnter p"
  show ?thesis
    using assms(1) l by (auto simp: enqueue_def mem_of_def q_of_def set_slot_def split: if_splits)
qed (use assms(1) in \<open>auto simp: set_slot_def rbind_Inr_iff\<close>)

lemma rest_scan:
  assumes "queue_rest h (DScan i highest k) m = Inr y"
  shows "\<exists>l' m'. queue_micro h (DScan i highest k) m = Inr (l', m') \<and> queue_rest h l' m' = Inr y"
proof (cases "int i < qm_size m")
  case True
  have f: "0 < qm_size m" "qm_size m \<le> int MAX_QUEUE_SIZE" using assms by auto
  then have i: "i < nat (qm_size m)" "i < MAX_QUEUE_SIZE" using True by linarith+
  have "q_entry (q_of m) i = Inr (qm_proc m i)" using i by (simp add: q_entry_def)
  moreover have "slot_at m (int i) = Inr (qm_proc m i)" using i by (simp add: slot_at_def)
  moreover have loop: "highest_loop h (q_of m) i highest k = rbind (pcb_at h (qm_proc m i)) (\<lambda>b. rbind (pcb_at h highest) (\<lambda>bh.
      if priority b < priority bh then highest_loop h (q_of m) (i + 1) (qm_proc m i) i
      else highest_loop h (q_of m) (i + 1) highest k))"
    using i calculation by (subst highest_loop.simps) simp
  moreover obtain r where r: "highest_loop h (q_of m) i highest k = Inr r" using assms by (auto simp: rbind_Inr_iff)
  moreover obtain b bh where "pcb_at h (qm_proc m i) = Inr b" "pcb_at h highest = Inr bh"
    using r unfolding loop by (auto simp: rbind_Inr_iff)
  ultimately show ?thesis
    using assms f True by (cases "priority b < priority bh") simp_all
next
  case False
  then have "highest_loop h (q_of m) i highest k = Inr (highest, k)" if "0 < qm_size m"
    using that by (subst highest_loop.simps) auto
  then show ?thesis using assms False by auto
qed

lemma rest_shift:
  assumes "queue_rest h (DShift i highest) m = Inr y"
  shows "\<exists>l' m'. queue_micro h (DShift i highest) m = Inr (l', m') \<and> queue_rest h l' m' = Inr y"
proof (cases "int i < qm_size m - 1")
  case True
  then have "i < nat (qm_size m) - 1" "nat (int i + 1) = i + 1" by linarith+
  then show ?thesis
    using assms True
    by (subst (asm) queue_rest.simps, subst (asm) shift_loop.simps) (auto simp: slot_at_def set_slot_def)
next
  case False
  then have "\<not> i < nat (qm_size m) - 1" by linarith
  then show ?thesis
    using assms False by (subst (asm) queue_rest.simps, subst (asm) shift_loop.simps) auto
qed

lemma rest_first:
  assumes "queue_rest h DFirst m = Inr y"
  shows "\<exists>l' m'. queue_micro h DFirst m = Inr (l', m') \<and> queue_rest h l' m' = Inr y"
  using assms by (auto simp: dequeue_def q_entry_def slot_at_def mem_of_def rbind_Inr_iff MAX_QUEUE_SIZE_def split: if_splits)

lemma queue_progress:
  assumes "queue_rest h l m = Inr y" and "\<not> queue_fin l"
  shows "\<exists>l' m'. queue_micro h l m = Inr (l', m') \<and> queue_rest h l' m' = Inr y"
proof (cases l)
  case (EEnter p)
  show ?thesis by (rule rest_enqueue [OF assms(1)]) (simp add: EEnter)
next
  case (EIndex p)
  show ?thesis by (rule rest_enqueue [OF assms(1)]) (simp add: EIndex)
next
  case (EStore p i)
  show ?thesis by (rule rest_enqueue [OF assms(1)]) (simp add: EStore)
next
  case (DScan i highest k)
  show ?thesis unfolding DScan by (rule rest_scan [OF assms(1) [unfolded DScan]])
next
  case (DShift i highest)
  show ?thesis unfolding DShift by (rule rest_shift [OF assms(1) [unfolded DShift]])
next
  case DFirst
  show ?thesis unfolding DFirst by (rule rest_first [OF assms(1) [unfolded DFirst]])
qed (use assms in \<open>auto split: if_splits\<close>)

section \<open>With the lock\<close>

text \<open>A queue of live processes, called by threads whose arguments are live.\<close>

definition sound_mem :: "heap \<Rightarrow> (nat \<Rightarrow> pcb_ptr option) \<Rightarrow> queue_mem \<Rightarrow> bool" where
  "sound_mem h ops m \<longleftrightarrow> (\<exists>q. m = mem_of q \<and> q_wf q \<and> q_live h q) \<and> (\<forall>t p. ops t = Some p \<longrightarrow> h p \<noteq> None)"

lemma rest_of_enqueue: "queue_rest h (EEnter p) (mem_of q) = Inr (EDone, mem_of (enqueue q (Some p)))"
proof -
  have "\<not> qm_size (mem_of q) < 0" by (simp add: mem_of_def)
  then show ?thesis by simp
qed

lemma rest_of_dequeue:
  assumes "q_wf q" and "q_live h q"
  shows "queue_rest h DEnter (mem_of q) = rbind (dequeue h q) (\<lambda>(r, q'). Inr (DDone r, mem_of q'))"
proof (cases "q_size q = 0")
  case False
  then have "0 < qm_size (mem_of q)" "qm_size (mem_of q) \<le> int MAX_QUEUE_SIZE"
    using assms(1) by (auto simp: mem_of_def q_wf_def)
  then show ?thesis by (simp add: filled_def)
qed (simp add: mem_of_def)

lemma dequeue_sound:
  assumes "q_wf q" and "q_live h q"
  shows "\<exists>r q'. dequeue h q = Inr (r, q') \<and> q_wf q' \<and> q_live h q' \<and>
    mset (q_list q) = mset (q_list q') + (case r of None \<Rightarrow> {#} | Some p \<Rightarrow> {#p#})"
proof (cases "q_size q = 0")
  case False
  obtain k q' where k: "dequeue h q = Inr (Some (q_list q ! k), q')" "least_entry h (q_list q) (q_size q) k"
    "q_list q' = take k (q_list q) @ drop (Suc k) (q_list q)"
    using dequeue_ok [OF assms False] by blast
  have "q_list q = take k (q_list q) @ q_list q ! k # drop (Suc k) (q_list q)"
    using k(2) by (intro id_take_nth_drop) (simp add: least_entry_def)
  then have m: "mset (q_list q) = mset (q_list q') + {#q_list q ! k#}"
    unfolding k(3) by (metis add_mset_add_single mset.simps(2) mset_append union_mset_add_mset_right)
  then have "set (q_list q') \<subseteq> set (q_list q)" by (metis mset_subset_eq_add_left set_mset_mono set_mset_mset)
  then show ?thesis using k(1) m q_wf_dequeue [OF assms(1) k(1)] assms(2) by (auto simp: q_live_def)
qed (use assms in simp)

lemma queue_whole:
  assumes "sound_mem h ops m"
  shows "\<exists>l m'. queue_rest h (queue_enter ops t) m = Inr (l, m') \<and> sound_mem h ops m'"
proof -
  obtain q where q: "m = mem_of q" "q_wf q" "q_live h q" using assms by (auto simp: sound_mem_def)
  have live: "\<forall>t p. ops t = Some p \<longrightarrow> h p \<noteq> None" using assms by (simp add: sound_mem_def)
  show ?thesis
  proof (cases "ops t")
    case (Some p)
    have "h p \<noteq> None" using live Some by blast
    then have "q_live h (enqueue q (Some p))" using q(3) by (auto simp: q_live_def q_list_enqueue)
    then have "sound_mem h ops (mem_of (enqueue q (Some p)))"
      unfolding sound_mem_def using q_wf_enqueue [OF q(2)] live by blast
    then show ?thesis using Some rest_of_enqueue [of h p q] by (simp only: queue_enter_def q(1) option.case) blast
  next
    case None
    obtain r q' where "dequeue h q = Inr (r, q')" "q_wf q'" "q_live h q'" using dequeue_sound [OF q(2,3)] by blast
    then show ?thesis
      using None rest_of_dequeue [OF q(2,3)] live by (auto simp: queue_enter_def sound_mem_def q(1))
  qed
qed

interpretation queuec: sequential_call "queue_enter ops" "queue_micro h" queue_fin "sound_mem h ops" "queue_rest h"
  for h ops
proof
  show "\<not> queue_fin (queue_enter ops t)" for t by (simp add: queue_enter_def split: option.split)
  show "queue_fin l \<Longrightarrow> queue_rest h l m = Inr (l, m)" for l m by (cases l) simp_all
qed (use queue_whole queue_progress in blast)+

text \<open>The calls of the threads \<open>ts\<close>, one after the other: what they return and leave.\<close>

fun queue_run :: "heap \<Rightarrow> (nat \<Rightarrow> pcb_ptr option) \<Rightarrow> nat list \<Rightarrow> queue_t \<Rightarrow> (queue_at list \<times> queue_t) outcome" where
  "queue_run h ops [] q = Inr ([], q)"
| "queue_run h ops (t # ts) q =
    (case ops t of
       Some p \<Rightarrow> rbind (queue_run h ops ts (enqueue q (Some p))) (\<lambda>(rs, q'). Inr (EDone # rs, q'))
     | None \<Rightarrow> rbind (dequeue h q) (\<lambda>(r, q1). rbind (queue_run h ops ts q1) (\<lambda>(rs, q'). Inr (DDone r # rs, q'))))"

lemma queue_run_snoc:
  assumes "queue_run h ops ts q = Inr (rs, q1)" and "queue_run h ops [t] q1 = Inr ([r], q2)"
  shows "queue_run h ops (ts @ [t]) q = Inr (rs @ [r], q2)"
  using assms by (induction ts arbitrary: q rs) (auto simp: rbind_Inr_iff split: option.splits)

lemma queue_run_one:
  assumes "queue_rest h (queue_enter ops t) (mem_of q) = Inr (l, m')" and "q_wf q" "q_live h q"
    and "\<forall>t p. ops t = Some p \<longrightarrow> h p \<noteq> None"
  shows "\<exists>q'. m' = mem_of q' \<and> queue_run h ops [t] q = Inr ([l], q') \<and> q_wf q' \<and> q_live h q'"
proof (cases "ops t")
  case (Some p)
  then have "h p \<noteq> None" using assms(4) by blast
  then have "q_live h (enqueue q (Some p))" using assms(3) by (auto simp: q_live_def q_list_enqueue)
  then show ?thesis
    using Some assms(1) rest_of_enqueue [of h p q] q_wf_enqueue [OF assms(2)]
    by (auto simp: queue_enter_def simp del: queue_rest.simps)
next
  case None
  obtain r q' where "dequeue h q = Inr (r, q')" "q_wf q'" "q_live h q'" using dequeue_sound [OF assms(2,3)] by blast
  then show ?thesis
    using None assms(1) rest_of_dequeue [OF assms(2,3)] by (auto simp: queue_enter_def simp del: queue_rest.simps)
qed

lemma calls_queue:
  assumes "calls (\<lambda>t m l m'. queue_rest h (queue_enter ops t) m = Inr (l, m')) L m ts m'" and "m = mem_of q"
    and "q_wf q" "q_live h q" and "\<forall>t p. ops t = Some p \<longrightarrow> h p \<noteq> None"
  shows "\<exists>rs q'. queue_run h ops ts q = Inr (rs, q') \<and> map L ts = map Some rs \<and> m' = mem_of q' \<and> q_wf q' \<and> q_live h q'"
  using assms(1,2)
proof (induction rule: calls.induct)
  case (calls_snoc m ts m1 t l m2)
  then obtain rs q1 where q1: "queue_run h ops ts q = Inr (rs, q1)" "map L ts = map Some rs" "m1 = mem_of q1"
    "q_wf q1" "q_live h q1" by blast
  obtain q2 where "m2 = mem_of q2" "queue_run h ops [t] q1 = Inr ([l], q2)" "q_wf q2" "q_live h q2"
    using queue_run_one [OF _ q1(4,5) assms(5)] calls_snoc.hyps(3) q1(3) by blast
  then show ?case using queue_run_snoc [OF q1(1)] q1(2) calls_snoc.hyps(2) by auto
qed (use assms(3,4) in simp)

text \<open>The processes that calls of \<open>dequeue\<close> returned.\<close>

fun taken :: "queue_at list \<Rightarrow> pcb_ptr multiset" where
  "taken [] = {#}"
| "taken (DDone (Some p) # rs) = add_mset p (taken rs)"
| "taken (_ # rs) = taken rs"

lemma queue_run_conserves:
  assumes "queue_run h ops ts q = Inr (rs, q')" and "q_wf q" "q_live h q" and "\<forall>t p. ops t = Some p \<longrightarrow> h p \<noteq> None"
    and "q_size q + length ts \<le> MAX_QUEUE_SIZE"
  shows "mset (q_list q) + mset (List.map_filter ops ts) = mset (q_list q') + taken rs"
  using assms(1,2,3,5)
proof (induction ts arbitrary: q rs)
  case (Cons t ts)
  show ?case
  proof (cases "ops t")
    case (Some p)
    then obtain rs' where r: "queue_run h ops ts (enqueue q (Some p)) = Inr (rs', q')" "rs = EDone # rs'"
      using Cons.prems(1) by (auto simp: rbind_Inr_iff)
    have "h p \<noteq> None" using assms(4) Some by blast
    then have "q_live h (enqueue q (Some p))" using Cons.prems(3) by (auto simp: q_live_def q_list_enqueue)
    then have "mset (q_list (enqueue q (Some p))) + mset (List.map_filter ops ts) = mset (q_list q') + taken rs'"
      using Cons.prems(2,4) by (intro Cons.IH [OF r(1)]) (auto simp: q_wf_enqueue q_size_enqueue)
    then show ?thesis using Some Cons.prems(4) r(2) by (simp add: q_list_enqueue List.map_filter_simps)
  next
    case None
    then obtain r q1 rs' where r: "dequeue h q = Inr (r, q1)" "queue_run h ops ts q1 = Inr (rs', q')" "rs = DDone r # rs'"
      using Cons.prems(1) by (auto simp: rbind_Inr_iff)
    have s: "q_wf q1" "q_live h q1" "mset (q_list q) = mset (q_list q1) + (case r of None \<Rightarrow> {#} | Some p \<Rightarrow> {#p#})"
      using dequeue_sound [OF Cons.prems(2,3)] r(1) by auto
    then have "size (mset (q_list q1)) \<le> size (mset (q_list q))" by simp
    then have "mset (q_list q1) + mset (List.map_filter ops ts) = mset (q_list q') + taken rs'"
      using Cons.prems(4) s(1,2) by (intro Cons.IH [OF r(2)]) auto
    then show ?thesis using None s(3) r(3) by (cases r) (simp_all add: List.map_filter_simps)
  qed
qed (auto simp: List.map_filter_simps)

section \<open>Without the lock\<close>

text \<open>Two calls of \<open>dequeue\<close> return the same process and leave the fill count -1.\<close>

lemma unlocked_dequeue:
  assumes h: "h p = Some b" and q: "q_size q = 1" "q_proc q 0 = p" and ops: "ops 0 = None" "ops 1 = None"
  shows "\<exists>c. reach (idle (mem_of q)) (queue_step h ops False) c \<and> locals c 0 = Some (DDone (Some p)) \<and>
    locals c 1 = Some (DDone (Some p)) \<and> qm_size (shared c) = - 1"
proof -
  let ?init = "\<lparr>shared = mem_of q, mutex = None, locals = (\<lambda>_. None)\<rparr>" and ?I = "idle (mem_of q)"
  let ?turns = "turns (queue_enter ops) (queue_micro h) queue_fin [0, 1, 0, 1, 0, 1, 0, 1, 0, 1, 0, 0, 1, 1]"
  have "\<exists>c. ?turns ?init = Inr c \<and> locals c 0 = Some (DDone (Some p)) \<and> locals c 1 = Some (DDone (Some p)) \<and>
      qm_size (shared c) = - 1"
    using assms by (simp add: turn_def queue_enter_def mem_of_def slot_at_def MAX_QUEUE_SIZE_def)
  then obtain c where c: "?turns ?init = Inr c" "locals c 0 = Some (DDone (Some p))" "locals c 1 = Some (DDone (Some p))"
    "qm_size (shared c) = - 1" by blast
  have "reach ?I (queue_step h ops False) ?init" by (rule reach_init) (simp add: idle_def)
  then have "reach ?I (queue_step h ops False) c" using turns_reach [OF _ c(1)] by (simp add: queue_step_def)
  then show ?thesis using c by blast
qed

text \<open>Two calls of \<open>enqueue\<close> that both find the last place free: the second stores beyond the array.\<close>

lemma unlocked_enqueue:
  assumes q: "q_size q = 9" and ops: "ops 0 = Some a" "ops 1 = Some b"
  shows "\<exists>c. reach (idle (mem_of q)) (queue_step h ops False) c \<and> locals c 1 = Some (EStore b 10) \<and>
    queue_micro h (EStore b 10) (shared c) = Inl OutOfBounds"
proof -
  let ?init = "\<lparr>shared = mem_of q, mutex = None, locals = (\<lambda>_. None)\<rparr>" and ?I = "idle (mem_of q)"
  let ?turns = "turns (queue_enter ops) (queue_micro h) queue_fin [0, 1, 0, 1, 0, 0, 0, 0, 1]"
  have "\<exists>c. ?turns ?init = Inr c \<and> locals c 1 = Some (EStore b 10)"
    using assms by (simp add: turn_def queue_enter_def mem_of_def set_slot_def MAX_QUEUE_SIZE_def)
  then obtain c where c: "?turns ?init = Inr c" "locals c 1 = Some (EStore b 10)" by blast
  have "reach ?I (queue_step h ops False) ?init" by (rule reach_init) (simp add: idle_def)
  then have "reach ?I (queue_step h ops False) c" using turns_reach [OF _ c(1)] by (simp add: queue_step_def)
  then show ?thesis using c by (auto simp: set_slot_def MAX_QUEUE_SIZE_def)
qed

text \<open>Every interleaving under the lock is a sequence of calls.\<close>

lemma locked_queue:
  assumes r: "reach (idle (mem_of q)) (queue_step h ops True) c"
    and q: "q_wf q" "q_live h q" and live: "\<forall>t p. ops t = Some p \<longrightarrow> h p \<noteq> None"
  shows "\<exists>ts rs q'. distinct ts \<and> set ts = {t. \<exists>l. locals c t = Some l \<and> queue_fin l} \<and>
      queue_run h ops ts q = Inr (rs, q') \<and> map (locals c) ts = map Some rs \<and>
      ((\<forall>t l. locals c t = Some l \<longrightarrow> queue_fin l) \<longrightarrow> shared c = mem_of q')"
    and "locals c t = Some l \<Longrightarrow> \<exists>y. queue_micro h l (shared c) = Inr y"
proof -
  have inv: "sound_mem h ops (mem_of q)" using q live by (auto simp: sound_mem_def)
  note lin = queuec.linearizable [OF r [unfolded queue_step_def] inv]
  show "\<exists>ts rs q'. distinct ts \<and> set ts = {t. \<exists>l. locals c t = Some l \<and> queue_fin l} \<and>
      queue_run h ops ts q = Inr (rs, q') \<and> map (locals c) ts = map Some rs \<and>
      ((\<forall>t l. locals c t = Some l \<longrightarrow> queue_fin l) \<longrightarrow> shared c = mem_of q')"
    using lin(1) calls_queue [OF _ refl q live] by blast
  show "\<exists>y. queue_micro h l (shared c) = Inr y" if l: "locals c t = Some l"
  proof (cases "queue_fin l")
    case True
    then show ?thesis by (cases l) simp_all
  qed (rule lin(2) [OF l])
qed

end
