(* ===== verification/RoundRobin.thy ===== *)
theory RoundRobin
  imports Killall
begin

text \<open>
  One CPU and the scheduler: fetch a process, let it use its time slot, put it back
  (\<open>get_proc\<close> and \<open>put_proc\<close> of \<open>src/sched.c\<close>, as \<open>cpu_routine\<close> of \<open>src/os.c\<close> calls them).
  When the processes of the first level have the same default priority, they take turns.
\<close>

section \<open>Rounds of fetching and putting back\<close>

text \<open>The processes fetched in \<open>n\<close> rounds, and the heap and scheduler then.\<close>

fun rounds :: "nat \<Rightarrow> heap \<Rightarrow> sched_t \<Rightarrow> (pcb_ptr list \<times> heap \<times> sched_t) outcome" where
  "rounds 0 h s = Inr ([], h, s)"
| "rounds (Suc n) h s =
    rbind (get_proc h s) (\<lambda>(po, s).
    case po of
      None \<Rightarrow> Inr ([], h, s)
    | Some p \<Rightarrow>
        rbind (put_proc h s p) (\<lambda>(h, s).
        rbind (rounds n h s) (\<lambda>(ps, h, s). Inr (p # ps, h, s))))"

text \<open>The first level that has any is \<open>k\<close>, and holds \<open>l\<close>, processes of level \<open>k\<close> of equal default priority.\<close>

definition at_level :: "heap \<Rightarrow> sched_t \<Rightarrow> nat \<Rightarrow> pcb_ptr list \<Rightarrow> bool" where
  "at_level h s k l \<longleftrightarrow> sched_wf s \<and> sched_live h s \<and> k < MAX_PRIO \<and> l \<noteq> [] \<and> (\<forall>j < k. level s j = []) \<and> level s k = l \<and>
    uniform h l \<and> (\<forall>p \<in> set l. \<exists>b. h p = Some b \<and> unat (prio b) = k)"

lemma one_round:
  assumes "at_level h s k (p # l)"
  shows "\<exists>s1 h' s'. get_proc h s = Inr (Some p, s1) \<and> put_proc h s1 p = Inr (h', s') \<and> at_level h' s' k (l @ [p]) \<and>
    (\<forall>j. j \<noteq> k \<longrightarrow> level s' j = level s j)"
proof -
  have wf: "sched_wf s" "sched_live h s" and k: "k < MAX_PRIO" "\<And>j. j < k \<Longrightarrow> level s j = []" "level s k = p # l"
    and un: "uniform h (p # l)" and pr: "\<And>q. q \<in> set (p # l) \<Longrightarrow> \<exists>b. h q = Some b \<and> unat (prio b) = k"
    using assms by (auto simp: at_level_def)
  obtain po s1 where g: "get_proc h s = Inr (po, s1)" "po = None \<longleftrightarrow> (\<forall>k < MAX_PRIO. level s k = [])"
    using get_proc_returns [OF wf] by blast
  obtain q where q: "po = Some q" using g(2) k(1,3) by (cases po) auto
  obtain k' pre post where t: "\<forall>j < k'. level s j = []" "level s k' = pre @ q # post" "level s1 k' = pre @ post"
    "\<forall>y \<in> set pre. pcb_key h q < pcb_key h y" "\<forall>j. j \<noteq> k' \<longrightarrow> level s1 j = level s j" "sched_wf s1" "sched_live h s1"
    using get_proc_taken [OF wf g(1) [unfolded q]] by blast
  have "k' = k" using t(1,2) k(2,3) by (metis append_is_Nil_conv list.distinct(1) nat_neq_iff)
  then have e: "p # l = pre @ q # post" using t(2) k(3) by simp
  have "pre = []"
  proof (cases pre)
    case (Cons y ys)
    then have "y \<in> set (p # l)" "q \<in> set (p # l)" using e by auto
    then have "pcb_key h q = pcb_key h y" using un unfolding uniform_def by blast
    then show ?thesis using t(4) Cons by simp
  qed simp
  then have qp: "q = p" and l1: "level s1 k = l" using e t(3) \<open>k' = k\<close> by simp_all
  obtain b where b: "h p = Some b" "unat (prio b) = k" using pr by auto
  let ?h = "h(p \<mapsto> link_queues b)" and ?s = "joined s1 p k"
  have "\<not> queue_lock s1" using t(6) by (simp add: sched_wf_def)
  then have put: "put_proc h s1 p = Inr (?h, ?s)" using put_proc_ok(1) b k(1) by simp
  have "q_wf (mlq_ready_queue s k)" using wf(1) k(1) by (simp add: sched_wf_def)
  then have "length (level s k) \<le> MAX_QUEUE_SIZE" by (simp add: q_wf_def level_def)
  then have "length l < MAX_QUEUE_SIZE" by (simp add: k(3))
  then have lv: "level ?s j = (if j = k then l @ [p] else level s j)" for j
    using l1 t(5) \<open>k' = k\<close> by (simp add: level_joined)
  have "uniform h (l @ [p])" by (rule uniform_sub [OF un]) auto
  moreover have "?h r \<noteq> None" if "h r \<noteq> None" for r using that by simp
  moreover have "pcb_key ?h = pcb_key h" using b(1) by simp
  ultimately have "uniform ?h (l @ [p])" unfolding uniform_def by metis
  moreover have "\<exists>b. ?h r = Some b \<and> unat (prio b) = k" if "r \<in> set (l @ [p])" for r
    using pr [of r] that b by (auto simp: link_queues_def)
  ultimately have "at_level ?h ?s k (l @ [p])"
    using k(1,2) lv sched_wf_joined [OF t(6)] sched_live_joined [of h s1 p b, OF t(7) b(1)] by (simp add: at_level_def)
  then show ?thesis using g(1) q qp put lv by auto
qed

text \<open>Process \<open>i\<close> of the level is the one fetched in rounds \<open>i\<close>, \<open>i + |l|\<close>, \<open>i + 2|l|\<close> and so on.\<close>

lemma rounds_take_turns:
  assumes "at_level h s k l"
  shows "\<exists>h' s'. rounds n h s = Inr (map (\<lambda>i. l ! (i mod length l)) [0..<n], h', s') \<and> at_level h' s' k (rotate n l) \<and>
    (\<forall>j. j \<noteq> k \<longrightarrow> level s' j = level s j)"
  using assms
proof (induction n arbitrary: h s l)
  case (Suc n)
  obtain p l' where l: "l = p # l'" using Suc.prems by (cases l) (auto simp: at_level_def)
  obtain s1 h1 s2 where r: "get_proc h s = Inr (Some p, s1)" "put_proc h s1 p = Inr (h1, s2)"
    "at_level h1 s2 k (rotate1 l)" "\<forall>j. j \<noteq> k \<longrightarrow> level s2 j = level s j"
    using one_round [OF Suc.prems [unfolded l]] l by auto
  obtain h' s' where i: "rounds n h1 s2 = Inr (map (\<lambda>i. rotate1 l ! (i mod length (rotate1 l))) [0..<n], h', s')"
    "at_level h' s' k (rotate n (rotate1 l))" "\<forall>j. j \<noteq> k \<longrightarrow> level s' j = level s2 j"
    using Suc.IH [OF r(3)] by blast
  have "rotate1 l ! (i mod length l) = l ! (Suc i mod length l)" for i
    using l nth_rotate [of "i mod length l" l 1] by (simp add: mod_Suc_eq)
  then have "map (\<lambda>i. rotate1 l ! (i mod length (rotate1 l))) [0..<n] = map ((\<lambda>i. l ! (i mod length l)) \<circ> Suc) [0..<n]"
    by simp
  moreover have "map (\<lambda>i. l ! (i mod length l)) [0..<Suc n] = p # map ((\<lambda>i. l ! (i mod length l)) \<circ> Suc) [0..<n]"
    by (simp add: upt_conv_Cons map_Suc_upt [symmetric] l del: upt_Suc)
  moreover have "rotate n (rotate1 l) = rotate (Suc n) l" by (simp add: rotate1_rotate_swap)
  ultimately show ?case using r i by simp
qed simp

end
