(* ===== verification/MemTest.thy ===== *)
theory MemTest
  imports Programs
begin

text \<open>
  The test program \<open>src/paging.c\<close>: it loads \<open>input/p0\<close> twice, runs the two processes in
  turn and dumps the obsolete memory.  Neither process is initialised for paging or handed
  to a scheduler; what their blocks then hold is part of the junk of the loader.
\<close>

section \<open>The program\<close>

text \<open>The two processes are at the addresses \<open>ld\<close> and \<open>proc\<close>; \<open>i\<close> counts up to the size.\<close>

function paging_loop :: "uninit \<Rightarrow> pcb_ptr \<Rightarrow> pcb_ptr \<Rightarrow> nat \<Rightarrow> kernel \<Rightarrow> kernel outcome" where
  "paging_loop u ld proc i k =
    rbind (pcb_at (k_heap k) proc) (\<lambda>b.
    if i < unat (code_size (pcb_code b)) then
      rbind (run u k proc) (\<lambda>(_, k).
      rbind (run u k ld) (\<lambda>(_, k).
      paging_loop u ld proc (i + 1) k))
    else Inr k)"
  by pat_completeness auto
termination
proof (relation "measure (\<lambda>(u, ld, proc, i, k). 2 ^ 32 - i)")
  fix i and b :: pcb_t
  assume "i < unat (code_size (pcb_code b))"
  moreover have "unat (code_size (pcb_code b)) < 2 ^ 32" using unsigned_less [of "code_size (pcb_code b)"] by simp
  ultimately have "i < 2 ^ 32" by simp
  then show "((u, ld, proc, i + 1, k'), (u, ld, proc, i, k)) \<in> measure (\<lambda>(u, ld, proc, i, k). 2 ^ 32 - i)"
    for u :: uninit and ld proc :: pcb_ptr and k k' :: kernel by simp
qed simp

declare paging_loop.simps [simp del]

definition paging_main :: "uninit \<Rightarrow> load_junk \<Rightarrow> load_junk \<Rightarrow> (string \<Rightarrow> string option) \<Rightarrow> pcb_ptr \<Rightarrow> pcb_ptr \<Rightarrow>
    old_mem \<Rightarrow> kernel \<Rightarrow> (int \<times> ((int \<times> int \<times> mem_stat_t) \<times> (int \<times> u8) list) list \<times> kernel) outcome" where
  "paging_main u j j' fs ld proc m k =
    rbind (load j fs (avail_pid k) ''input/p0'') (\<lambda>(b, n).
    rbind (load j' fs n ''input/p0'') (\<lambda>(b', n').
    rbind (paging_loop u ld proc 0 (k\<lparr>k_heap := (k_heap k)(ld \<mapsto> b, proc \<mapsto> b'), avail_pid := n'\<rparr>)) (\<lambda>k.
    Inr (0, dump m, k))))"

section \<open>It runs both programs to their end\<close>

text \<open>At least \<open>i\<close> instructions of process \<open>p\<close> are done, or all of them.\<close>

definition came_to :: "nat \<Rightarrow> pcb_ptr \<Rightarrow> kernel \<Rightarrow> bool" where
  "came_to i p k \<longleftrightarrow> (\<forall>b. k_heap k p = Some b \<longrightarrow> i \<le> unat (pc b) \<or> pc b = code_size (pcb_code b))"

lemma run_prog_rel:
  assumes run: "run u k p = Inr (x, k')" and wf: "heap_wf (k_heap k)"
  obtains b where "k_heap k p = Some b" "heap_wf (k_heap k')"
    "prog_rel True (if pc b < code_size (pcb_code b) then k\<lparr>k_heap := (k_heap k)(p \<mapsto> b\<lparr>pc := pc b + 1\<rparr>)\<rparr> else k) k'"
proof -
  obtain b where b: "k_heap k p = Some b" using run by (auto simp: run_def rbind_Inr_iff pcb_at_Inr)
  show thesis
  proof (cases "pc b < code_size (pcb_code b)")
    case True
    have "pcb_wf b" using wf b by (simp add: heap_wf_def)
    then have "exec u (k\<lparr>k_heap := (k_heap k)(p \<mapsto> b\<lparr>pc := pc b + 1\<rparr>)\<rparr>) p (code_text (pcb_code b) ! unat (pc b)) = Inr (x, k')"
      using run run_step [OF b True, of u] by (simp add: pcb_wf_def)
    then have "prog_rel (is_killall (code_text (pcb_code b) ! unat (pc b))) (k\<lparr>k_heap := (k_heap k)(p \<mapsto> b\<lparr>pc := pc b + 1\<rparr>)\<rparr>) k'"
      by (rule prog_rel_exec)
    then have "prog_rel True (k\<lparr>k_heap := (k_heap k)(p \<mapsto> b\<lparr>pc := pc b + 1\<rparr>)\<rparr>) k'"
      by (rule prog_rel_mono)
    then show thesis using that [OF b] run_advances [OF wf b run True] True by simp
  next
    case False
    then have "k' = k" using run_finished [OF b, of u] run by simp
    then show thesis using that [OF b] wf False by (simp add: prog_rel_same)
  qed
qed

lemma came_to_run:
  assumes run: "run u k p = Inr (x, k')" and wf: "heap_wf (k_heap k)"
  shows "heap_wf (k_heap k')" and "came_to i p k \<Longrightarrow> came_to (i + 1) p k'" and "came_to i q k \<Longrightarrow> came_to i q k'"
proof -
  obtain b where b: "k_heap k p = Some b" "heap_wf (k_heap k')"
    "prog_rel True (if pc b < code_size (pcb_code b) then k\<lparr>k_heap := (k_heap k)(p \<mapsto> b\<lparr>pc := pc b + 1\<rparr>)\<rparr> else k) k'"
    by (rule run_prog_rel [OF run wf])
  let ?k = "if pc b < code_size (pcb_code b) then k\<lparr>k_heap := (k_heap k)(p \<mapsto> b\<lparr>pc := pc b + 1\<rparr>)\<rparr> else k"
  have wfb: "pc b \<le> code_size (pcb_code b)" using wf b(1) by (auto simp: heap_wf_def pcb_wf_def)
  have rel: "came_to n r k'" if "came_to n r ?k" for n r
    unfolding came_to_def
  proof (intro allI impI)
    fix c' assume "k_heap k' r = Some c'"
    then obtain c where "k_heap ?k r = Some c" "same_prog True c c'" by (rule prog_relD [OF b(3)])
    then show "n \<le> unat (pc c') \<or> pc c' = code_size (pcb_code c')"
      using that by (auto simp: came_to_def same_prog_def)
  qed
  show "heap_wf (k_heap k')" by (rule b(2))
  show "came_to (i + 1) p k'" if "came_to i p k"
    using that b(1) wfb pc_step(2) [of b] by (intro rel) (auto simp: came_to_def)
  show "came_to i q k'" if "came_to i q k"
    using that b(1) pc_step(2) [of b] by (intro rel) (auto simp: came_to_def)
qed

lemma paging_loop_end:
  assumes "paging_loop u ld proc i k = Inr k'" and "heap_wf (k_heap k)"
    and "came_to i ld k" and "came_to i proc k"
  shows "\<exists>n b. k_heap k' proc = Some b \<and> unat (code_size (pcb_code b)) \<le> n \<and> came_to n ld k' \<and> came_to n proc k' \<and>
    heap_wf (k_heap k')"
  using assms
proof (induction u ld proc i k rule: paging_loop.induct)
  case (1 u ld proc i k)
  obtain b where b: "k_heap k proc = Some b"
    using "1.prems"(1) by (subst (asm) paging_loop.simps) (auto simp: rbind_Inr_iff pcb_at_Inr)
  show ?case
  proof (cases "i < unat (code_size (pcb_code b))")
    case True
    obtain x k1 y k2 where r: "run u k proc = Inr (x, k1)" "run u k1 ld = Inr (y, k2)"
      "paging_loop u ld proc (i + 1) k2 = Inr k'"
      using "1.prems"(1) b True by (subst (asm) paging_loop.simps) (auto simp: rbind_Inr_iff)
    note 1 = came_to_run [OF r(1) "1.prems"(2)]
    note 2 = came_to_run [OF r(2) 1(1)]
    have "came_to (i + 1) ld k2" using 2(2) 1(3) "1.prems"(3) by blast
    moreover have "came_to (i + 1) proc k2" using 2(3) 1(2) "1.prems"(4) by blast
    ultimately show ?thesis using "1.IH" b True r 2(1) by simp
  next
    case False
    then have "k' = k" using "1.prems"(1) b by (subst (asm) paging_loop.simps) simp
    then show ?thesis using "1.prems" b False by (intro exI [of _ i] exI [of _ b]) simp
  qed
qed

text \<open>When the program returns, it returns 0, and the second process has run to its end.\<close>

lemma paging_main_runs:
  assumes "paging_main u j j' fs ld proc m k = Inr (r, out, k')" and "k_heap k = (\<lambda>_. None)" and "ld \<noteq> proc"
  shows "r = 0 \<and> out = dump m \<and> (\<exists>b. k_heap k' proc = Some b \<and> pc b = code_size (pcb_code b))"
proof -
  obtain b n b' n' where l: "load j fs (avail_pid k) ''input/p0'' = Inr (b, n)" "load j' fs n ''input/p0'' = Inr (b', n')"
    "paging_loop u ld proc 0 (k\<lparr>k_heap := (k_heap k)(ld \<mapsto> b, proc \<mapsto> b'), avail_pid := n'\<rparr>) = Inr k'"
    "r = 0" "out = dump m"
    using assms(1) by (auto simp: paging_main_def rbind_Inr_iff)
  have "heap_wf ((k_heap k)(ld \<mapsto> b, proc \<mapsto> b'))"
    using load_wf [OF l(1)] load_wf [OF l(2)] assms(2) by (simp add: heap_wf_def)
  then obtain n c where c: "k_heap k' proc = Some c" "unat (code_size (pcb_code c)) \<le> n" "came_to n proc k'" "heap_wf (k_heap k')"
    using paging_loop_end [OF l(3)] by (auto simp: came_to_def)
  have "pc c \<le> code_size (pcb_code c)" using c(1,4) by (auto simp: heap_wf_def pcb_wf_def)
  then have "pc c = code_size (pcb_code c)"
    using c(1-3) by (fastforce simp: came_to_def word_le_nat_alt word_unat_eq_iff)
  then show ?thesis using c(1) l(4,5) by blast
qed

text \<open>Programs that only compute, such as do not need the memory library, never fault.\<close>

definition only_calc :: "kernel \<Rightarrow> pcb_ptr \<Rightarrow> bool" where
  "only_calc k p \<longleftrightarrow> (\<exists>b. k_heap k p = Some b \<and> (\<forall>ins \<in> set (code_text (pcb_code b)). opcode ins = CALC))"

lemma run_only_calc:
  assumes wf: "heap_wf (k_heap k)" and c: "only_calc k p"
  shows "\<exists>x k'. run u k p = Inr (x, k') \<and> heap_wf (k_heap k') \<and> (\<forall>q. only_calc k q \<longrightarrow> only_calc k' q)"
proof -
  obtain b where b: "k_heap k p = Some b" "\<forall>ins \<in> set (code_text (pcb_code b)). opcode ins = CALC"
    using c by (auto simp: only_calc_def)
  have w: "pcb_wf b" using wf b(1) by (simp add: heap_wf_def)
  show ?thesis
  proof (cases "pc b < code_size (pcb_code b)")
    case True
    let ?k = "k\<lparr>k_heap := (k_heap k)(p \<mapsto> b\<lparr>pc := pc b + 1\<rparr>)\<rparr>"
    have "unat (pc b) < length (code_text (pcb_code b))" using True w by (simp add: pcb_wf_def word_less_nat_alt)
    then have "opcode (code_text (pcb_code b) ! unat (pc b)) = CALC" using b(2) by simp
    then have run: "run u k p = Inr (0, ?k)"
      using run_step [OF b(1) True, of u] w by (simp add: exec_def pcb_wf_def)
    then have "heap_wf (k_heap ?k)" using run_advances [OF wf b(1) run True] by blast
    then show ?thesis using run b by (intro exI [of _ 0] exI [of _ ?k]) (auto simp: only_calc_def)
  next
    case False
    then show ?thesis using run_finished [OF b(1), of u] wf by auto
  qed
qed

lemma paging_loop_returns:
  assumes "heap_wf (k_heap k)" and "only_calc k ld" and "only_calc k proc"
  shows "\<exists>k'. paging_loop u ld proc i k = Inr k'"
  using assms
proof (induction u ld proc i k rule: paging_loop.induct)
  case (1 u ld proc i k)
  obtain b where b: "k_heap k proc = Some b" using "1.prems"(3) by (auto simp: only_calc_def)
  show ?case
  proof (cases "i < unat (code_size (pcb_code b))")
    case True
    obtain x k1 where 1: "run u k proc = Inr (x, k1)" "heap_wf (k_heap k1)" "\<forall>q. only_calc k q \<longrightarrow> only_calc k1 q"
      using run_only_calc [OF "1.prems"(1,3)] by blast
    obtain y k2 where 2: "run u k1 ld = Inr (y, k2)" "heap_wf (k_heap k2)" "\<forall>q. only_calc k1 q \<longrightarrow> only_calc k2 q"
      using run_only_calc [OF 1(2)] 1(3) "1.prems"(2) by blast
    have "\<exists>k'. paging_loop u ld proc (i + 1) k2 = Inr k'" using "1.IH" b True 1 2 "1.prems" by simp
    then show ?thesis using b True 1(1) 2(1) by (subst paging_loop.simps) simp
  next
    case False
    then show ?thesis using b by (subst paging_loop.simps) simp
  qed
qed

end
