(* ===== verification/Spec2Isabelle.thy ===== *)
theory Spec2Isabelle
  imports Examples Dump Arrays Sharing Race QueueRace RoundRobin Programs MemTest
begin

text \<open>
  A model of the operating-system simulator in \<open>src/\<close> (C) and its correctness.

  THE PROGRAM.  A configuration file names the CPUs, the memories and the processes
  (\<open>os.c\<close>).  A loader thread reads each process description (\<open>loader.c\<close>) at its start
  time and hands the process to the scheduler (\<open>sched.c\<close> over the queues of \<open>queue.c\<close>).
  Each CPU thread fetches a process, runs one instruction per time slot (\<open>cpu.c\<close>) and
  returns the process when its share is used up.  Instructions call the memory library
  (\<open>libmem.c\<close>), which allocates regions in the process's area (\<open>mm-vm.c\<close>), maps pages to
  frames (\<open>mm.c\<close>) and reads and writes bytes of the devices (\<open>mm-memphy.c\<close>), or make a
  system call (\<open>libstd.c\<close>, \<open>syscall.c\<close>, \<open>sys_mem.c\<close>, \<open>sys_killall.c\<close>,
  \<open>sys_listsyscall.c\<close>).  A timer thread (\<open>timer.c\<close>) keeps CPUs and loader in step.

  THE THEORIES, in the order of their imports.
    Prelude    machine integers, faults as values, the bind of fallible functions.
    Pte        \<open>bitops.h\<close>, the field macros of \<open>mm.h\<close>, the entry functions of \<open>mm.c\<close>.
    Memphy     \<open>mm-memphy.c\<close>; locales \<open>byte_device\<close> and \<open>frame_pool\<close>, interpreted on the
               device and on its list of free frames.
    Vm         \<open>mm.c\<close> and \<open>mm-vm.c\<close>: areas, mapping, growing, copying pages.
    Libmem     \<open>libmem.c\<close>; locale \<open>fifo_queue\<close>, interpreted on the page list.
    Paging     the invariant of a page table (\<open>paging_inv\<close>), byte access and demand paging;
               a process's memory is interpreted as a \<open>byte_device\<close> again (a refinement).
    Regions    the search of the free list and \<open>__alloc\<close> with its effect on the invariant.
    Alloc      sequences of library calls; the first and second allocation of a process.
    Pcb, Queue, Sched    \<open>common.h\<close>, \<open>queue.c\<close>, \<open>sched.c\<close>; locale \<open>bounded_pqueue\<close>,
               interpreted on \<open>enqueue\<close> and \<open>dequeue\<close>.
    Mem        the obsolete \<open>mem.c\<close> and the instructions of \<open>cpu.c\<close> over it.
    Syscall, Killall    the kernel state, the table and dispatcher, \<open>memmap\<close>, \<open>killall\<close>.
    Arrays     sequences of reads and writes: a region refines an array of bytes.
    Threads    the interleaving semantics of threads that call one function, with and without
               a mutex; locales \<open>guarded_call\<close> and \<open>sequential_call\<close>.
    Race, QueueRace    \<open>MEMPHY_get_freefp\<close>, and \<open>enqueue\<close> and \<open>dequeue\<close>, statement by statement
               on several threads; the interpretations of the two locales.
    RoundRobin fetching and putting back: processes of one level take turns.
    Dump       the debugging output of \<open>mm.c\<close> and \<open>mm-memphy.c\<close>.
    Cpu, Loader    one instruction of a process; reading a process description.
    Access     a byte whose page may have to be brought in first.
    Isolation, Sharing   the processes share one RAM and no frame: their bytes are their
               own (locale \<open>private_views\<close>, interpreted on the instructions), except for
               what goes through the swap device.
    Timer      the barrier as a step relation; locale \<open>transition_system\<close>, interpreted on
               the timer and, in Os, on the whole system.
    Ownership  what one instruction may do to the processes the scheduler owns.
    Os         the threads of \<open>os.c\<close>, \<open>main\<close>, the system they form and its invariant.
    Conserve   no process is lost, identifiers are unique.
    Phases     the control state of the threads: the time slot, absence of deadlock, idle CPUs.
    Programs   the trace of executed instructions: every program runs in order.
    MemTest    the test program \<open>paging.c\<close>.
    Config     the configuration reader inverts printing; \<open>main\<close> on such a file.
    Examples   concrete states for the witnesses.

  STATE.  A C struct is a record with the source's field names (prefixed where two structs
  share one); a linked list that nothing else points into is a list; an array is a
  function whose bound is checked at each access; PCBs live in a heap from addresses to
  blocks, and a freed block is absent.  A C function is one definition of the same name
  (\<open>__alloc\<close>, \<open>__free\<close>, \<open>__read\<close>, \<open>__write\<close> of \<open>libmem.c\<close> are \<open>rg_alloc\<close>,
  \<open>rg_free\<close>, \<open>rg_read\<close>, \<open>rg_write\<close>).  Undefined behaviour, a mutex taken twice, an
  endless loop and \<open>exit\<close> are the values \<open>Inl fault\<close>.  Memory that is read before it is
  written is a parameter (\<open>uninit\<close>, \<open>load_junk\<close>, \<open>junk\<close>), and what is proved holds for
  whatever it contains, with one exception: \<open>init_mm\<close> leaves the page table, the page list
  \<open>fifo_pgn\<close> and the tail of the free list as \<open>malloc\<close> returns them, and the theorems
  about a fresh process (\<open>fresh_process\<close> in Alloc) assume that they are zero: no entry is
  present, both lists are empty.  The theorem \<open>empty_alloc_never_returns\<close> assumes a zero
  \<open>vmaid\<close> as well.  Other theorems about memory start from a state that satisfies
  \<open>paging_inv\<close>, as a fresh process in zeroed memory does.  The \<open>int\<close> values of the code are HOL integers, wrapped by
  \<open>i32\<close> wherever they may overflow; unsigned values are words.

  WHAT IS PROVED.  For the system: \<open>main\<close> starts the machine the configuration describes;
  every program runs in order, and completely unless it is killed; in every reachable
  state each process has one owner and is not lost (up to the capacity of a queue),
  scheduling never faults, the threads do not block each other, and no process overruns
  its time slot or is cut short.  In the system the threads interleave at \<open>queue_lock\<close>
  (\<open>put_proc\<close> and \<open>add_proc\<close>, which take it twice, are two steps) and an instruction is
  one step, so these statements are about runs in which no \<open>killall\<close>, which takes no lock,
  overlaps with the scheduler; with such an overlap they are false.  For memory: allocation keeps the paging invariant, a
  region behaves as an array of bytes, processes that stay in their regions never touch
  each other's bytes, what a process writes stays, demand paging preserves the contents
  of every page that is in RAM, the free-list search hands out disjoint regions.  For the
  scheduler: strict priority, turns among equals, nothing lost or duplicated except on a full level.  For shared data:
  under its mutex every interleaving of calls on the free-frame list or on a queue is a
  sequence of calls; without it frames and processes are handed out twice.  For the timer:
  the barrier, absence of deadlock, orderly stop.  Round trips for process descriptions,
  configurations and page-table entries.  Each departure of the code from its purpose that
  the model exposed is a theorem as well (section "Where the code departs").

  LOOPS AND BOUNDS.  Every loop is structural or has a measure; none uses fuel.  The one
  loop of the source that may run forever, in \<open>get_free_vmrg_area\<close>, is a
  \<open>partial_function\<close> whose \<open>None\<close> is the fault \<open>Diverges\<close>, and the theorems about it
  say when it ends.  Sizes in hypotheses (4000000 bytes for a first allocation and the
  like) keep the addresses of the 22-bit address space; beyond them the C code's
  \<open>int\<close> arithmetic wraps.

  NOT MODELLED.  Output other than that of \<open>listsyscall\<close> and the list dumps.  Races inside
  one instruction, other than those of Race and QueueRace: \<open>libread\<close>, \<open>libwrite\<close>,
  \<open>libfree\<close> and \<open>killall\<close> take no lock in the source, and in Os an instruction is one
  step (QueueRace shows what a \<open>killall\<close> that overlaps with the scheduler can do).  The joins at the end of \<open>main\<close> (its \<open>stop_timer\<close> is a step of the timer that
  waits for all devices).  The script \<open>syscalltbl.sh\<close>.  A failing \<open>malloc\<close>.
\<close>

section \<open>The system\<close>

text \<open>
  C1: Programs run in order.  For a machine with at most ten processes, a positive time
  slot and priorities below 140, in every interleaving of the threads in which an
  instruction is executed as one atomic step: the instructions executed for a process are
  the first ones of the program that its description holds, in order, none left out and
  none repeated.  As long
  as nobody has called \<open>killall\<close> a process that is still there has executed exactly the
  instructions before its program counter, and one that is gone has executed its whole
  program.  No more instructions are executed than the programs have together: the work
  of the machine ends.  Not covered is a \<open>killall\<close> that overlaps with another thread's use
  of the queues: it takes no \<open>queue_lock\<close>, and two CPUs may then run the same process
  (\<open>queues_need_the_lock\<close>).
\<close>

lemma programs_run_in_order:
  assumes "traced u j fs cfg es s" and "cfg_ok cfg" and "length (ld_path cfg) \<le> MAX_QUEUE_SIZE"
  shows "(\<forall>i. prefix (ran_by es i) (program j fs cfg i)) \<and>
    (\<not> killed_in es \<longrightarrow>
      (\<forall>p b. k_heap (sys_k s) p = Some b \<longrightarrow> ran_by es (pid b) = take (unat (pc b)) (program j fs cfg (pid b))) \<and>
      (\<forall>i. 1 \<le> unat i \<and> unat i \<le> loaded s \<and> (\<forall>p b. k_heap (sys_k s) p = Some b \<longrightarrow> pid b \<noteq> i) \<longrightarrow>
        ran_by es i = program j fs cfg i)) \<and>
    length es \<le> (\<Sum>i = 1..loaded s. length (program j fs cfg (of_nat i)))"
proof -
  have ok: "progs_ok (program j fs cfg) (loaded s) (sys_k s) es" by (rule traced_progs [OF assms])
  show ?thesis using progs_okD(2,4,5) [OF ok] progs_ok_length [OF ok] by blast
qed

lemma programs_run_in_order_witness:
  "\<exists>es s ins. traced ex_u ex_junk ex_fs ex_cfg (es @ [(1, ins)]) s \<and>
    prefix (ran_by (es @ [(1, ins)]) 1) (program ex_junk ex_fs ex_cfg 1)"
proof -
  obtain es s ins where e: "traced ex_u ex_junk ex_fs ex_cfg (es @ [(1, ins)]) s" using ex_ran by blast
  have "length (ld_path ex_cfg) \<le> MAX_QUEUE_SIZE" by (simp add: ex_cfg_def MAX_QUEUE_SIZE_def)
  from programs_run_in_order [OF e ex_cfg_ok this] show ?thesis using e by blast
qed

text \<open>
  C2: One owner, as long as instructions are atomic.  For a positive time slot and
  priorities below 140, in every state that the threads reach when each instruction, a
  \<open>killall\<close> in particular, is executed as one step, a process that a CPU or the loader
  holds is allocated, stands in no ready queue and is held by nobody else: in these states
  no process is run by two CPUs and no running process can be scheduled a second time.
  The code does not make \<open>killall\<close> atomic (it takes no \<open>queue_lock\<close>); one that overlaps
  with \<open>get_proc\<close> can break this (\<open>queues_need_the_lock\<close>) and is not covered.
\<close>

lemma one_owner:
  assumes "reach (sinit cfg) (sstep u j fs cfg) s" and "cfg_ok cfg"
    and "i \<le> num_cpus cfg" and "holders cfg s i = Some p"
  shows "k_heap (sys_k s) p \<noteq> None \<and> p \<notin># ready (k_sched (sys_k s)) \<and>
    (\<forall>l \<le> num_cpus cfg. l \<noteq> i \<longrightarrow> holders cfg s l \<noteq> Some p)"
proof -
  have o: "own (sys_k s) (num_cpus cfg) (holders cfg s)"
    using sys_inv_reach [OF assms(1,2)] by (simp add: sys_inv_def)
  show ?thesis using ownD [OF o assms(3,4)] by auto
qed

lemma one_owner_witness:
  "\<exists>s :: system. k_heap (sys_k s) 1 \<noteq> None \<and> 1 \<notin># ready (k_sched (sys_k s)) \<and> c_proc (sys_cpu s 0) = Some 1 \<and>
    c_proc (sys_cpu s 1) \<noteq> Some 1"
proof -
  obtain s where s: "reach (sinit ex_cfg) (sstep ex_u ex_junk ex_fs ex_cfg) s" "c_proc (sys_cpu s 0) = Some 1"
    using ex_held by fastforce
  then have "holders ex_cfg s 0 = Some 1" by (simp add: holders_def ex_cfg_def)
  from one_owner [OF s(1) ex_cfg_ok _ this] show ?thesis
    using s(2) by - (rule exI [of _ s], auto simp: holders_def ex_cfg_def dest: spec [of _ 1])
qed

text \<open>
  C3: No process is lost, as long as instructions are atomic.  When the configuration names
  no more processes than a ready queue has places, a positive time slot and priorities
  below 140, then in every state that the threads reach when each instruction, a \<open>killall\<close>
  in particular, is executed as one step, every PCB that was loaded and not freed waits in
  a ready queue or is held by a CPU or the loader, no two PCBs have the same process
  identifier, and there are no more PCBs than were loaded.  A \<open>killall\<close> that overlaps with
  \<open>get_proc\<close> or \<open>put_proc\<close>, which the code allows, is not covered: it can lose or
  duplicate queue entries (\<open>queues_need_the_lock\<close>).
\<close>

lemma no_process_lost:
  assumes "reach (sinit cfg) (sstep u j fs cfg) s" and "cfg_ok cfg" and "length (ld_path cfg) \<le> MAX_QUEUE_SIZE"
  shows "(\<forall>p. k_heap (sys_k s) p \<noteq> None \<longrightarrow>
      p \<in># ready (k_sched (sys_k s)) \<or> (\<exists>i \<le> num_cpus cfg. holders cfg s i = Some p)) \<and>
    (\<forall>p q b b'. k_heap (sys_k s) p = Some b \<and> k_heap (sys_k s) q = Some b' \<and> p \<noteq> q \<longrightarrow> pid b \<noteq> pid b') \<and>
    card (dom (k_heap (sys_k s))) \<le> loaded s"
proof -
  have c: "conserved cfg s" by (rule conserved_reach [OF assms])
  then have "inj_on (pids (sys_k s)) (dom (k_heap (sys_k s)))" by (simp add: conserved_def ids_ok_def)
  then have "pid b \<noteq> pid b'" if "k_heap (sys_k s) p = Some b" "k_heap (sys_k s) q = Some b'" "p \<noteq> q" for p q b b'
    using that inj_onD [of "pids (sys_k s)" "dom (k_heap (sys_k s))" p q] by (auto simp: pids_def)
  then show ?thesis using c by (auto simp: conserved_def held_def ids_ok_def)
qed

lemma no_process_lost_witness:
  "\<exists>s :: system. k_heap (sys_k s) 1 \<noteq> None \<and>
    (1 \<in># ready (k_sched (sys_k s)) \<or> (\<exists>i \<le> 2. holders ex_cfg s i = Some 1))"
proof -
  obtain s where s: "reach (sinit ex_cfg) (sstep ex_u ex_junk ex_fs ex_cfg) s" "k_heap (sys_k s) 1 \<noteq> None"
    using ex_held by blast
  have "length (ld_path ex_cfg) \<le> MAX_QUEUE_SIZE" by (simp add: ex_cfg_def MAX_QUEUE_SIZE_def)
  from no_process_lost [OF s(1) ex_cfg_ok this] show ?thesis
    using s(2) by (intro exI [of _ s]) (simp add: ex_cfg_def)
qed

text \<open>
  C4: The scheduler does not fault, as long as instructions are atomic.  For a positive time
  slot and priorities below 140, in every state that the threads reach when each
  instruction, a \<open>killall\<close> in particular, is executed as one step, the scheduling part of
  a CPU's loop (fetching a process, releasing a finished one, putting an expired one back
  in its two lock sections, starting a time slot) runs to its end: it reads no freed block,
  leaves no array and takes no lock twice.  A \<open>killall\<close> that overlaps with \<open>get_proc\<close> or
  \<open>put_proc\<close>, which the code allows, is not covered: it may free a process that a CPU
  holds, or make the queues overflow (\<open>queues_need_the_lock\<close>).
\<close>

lemma scheduling_never_faults:
  assumes "reach (sinit cfg) (sstep u j fs cfg) s" and "cfg_ok cfg"
    and "i < num_cpus cfg" and "c_at (sys_cpu s i) \<in> {AtTop, AtPut, AtGet, AtCheck}"
  shows "\<exists>k c. cpu_step u' (time_slot cfg) (sys_done s) (sys_k s) (sys_cpu s i) = Inr (k, c)"
  by (rule scheduler_part_returns [OF sys_inv_reach [OF assms(1,2)] assms(3,4)])

lemma scheduling_never_faults_witness:
  "\<exists>(s :: system) k c. c_proc (sys_cpu s 0) = Some 1 \<and> cpu_step ex_u 2 (sys_done s) (sys_k s) (sys_cpu s 0) = Inr (k, c)"
proof -
  obtain s where s: "reach (sinit ex_cfg) (sstep ex_u ex_junk ex_fs ex_cfg) s"
    "sys_cpu s 0 = \<lparr>c_proc = Some 1, time_left = 0, c_at = AtCheck\<rparr>"
    using ex_held by blast
  have "\<exists>k c. cpu_step ex_u (time_slot ex_cfg) (sys_done s) (sys_k s) (sys_cpu s 0) = Inr (k, c)"
    by (rule scheduling_never_faults [OF s(1) ex_cfg_ok]) (simp_all add: s(2) ex_cfg_def)
  then show ?thesis using s(2) by - (rule exI [of _ s], auto simp: ex_cfg_def)
qed

text \<open>
  C5: The threads never block each other for good.  In every reachable state, all threads
  have ended, or some thread can take a step, or a CPU's instruction or the loading of a
  description runs into undefined behaviour (given that \<open>malloc\<close> finds a block).
\<close>

lemma threads_never_block:
  assumes "reach (sinit cfg) (sstep u j fs cfg) s" and "cfg_ok cfg" and "k_heap (sys_k s) q = None"
  shows "(\<forall>i \<le> num_cpus cfg. d_pc (sys_timer s) i = DExit) \<or> (\<exists>t. sstep u j fs cfg s t) \<or>
    (\<exists>i < num_cpus cfg. cpu_faults u s i) \<or> load_faults j fs cfg s"
proof (cases "t_pc (sys_timer s) = TStopped")
  case True
  have inv: "sys_inv cfg s" by (rule sys_inv_reach [OF assms(1,2)])
  then have tm: "reach (tinit [0..<num_cpus cfg + 1]) tstep (sys_timer s)"
    "dev_list (sys_timer s) = rev [0..<num_cpus cfg + 1]"
    by (simp_all add: sys_inv_def)
  have "d_pc (sys_timer s) i = DExit" if "i \<le> num_cpus cfg" for i
  proof -
    have "i \<in> set (dev_list (sys_timer s))" using that by (auto simp: tm(2))
    then show ?thesis using timer_stops_last [OF tm(1) True] by blast
  qed
  then show ?thesis by blast
next
  case False
  then show ?thesis
    using someone_can_go_on [OF sys_inv_reach [OF assms(1,2)] phases.inv_reach [OF assms(1)] _ assms(3)] by blast
qed

lemma threads_never_block_witness:
  "\<exists>t. sstep ex_u ex_junk ex_fs ex_cfg ex_system t"
proof -
  have "\<not> (\<forall>i \<le> num_cpus ex_cfg. d_pc (sys_timer ex_system) i = DExit)"
    by (auto simp: ex_timer0 no_timer_def)
  moreover have "\<not> cpu_faults ex_u ex_system i" for i by (simp add: cpu_faults_def ex_system_def)
  moreover obtain b where "load ex_junk ex_fs 1 ''input/proc/p1'' = Inr (b, 2)" by (rule ex_loaded)
  then have "\<not> load_faults ex_junk ex_fs ex_cfg ex_system"
    by (simp add: load_faults_def ex_system_def ex_cfg_def)
  ultimately show ?thesis
    using threads_never_block [OF ex_reach ex_cfg_ok ex_parts(2), of ex_u ex_junk ex_fs] by blast
qed

text \<open>
  C6: In every reachable state the time a CPU has left is between 0 and the configured time
  slot, it is 0 while the CPU is idle, and a CPU that is about to run an instruction holds
  a process and has time left.  In every step of the system, a CPU that runs an instruction
  keeps its process and has one unit less, a dispatched process starts with a full slot
  unless its last one goes on, and a CPU gives its process up only when the slot is used up
  or the process has run to its end: no process overruns its slot and none is cut short.
\<close>

lemma time_slot_is_respected:
  assumes "reach (sinit cfg) (sstep u j fs cfg) s" and "cfg_ok cfg" and "i < num_cpus cfg"
    and "sstep u j fs cfg s t"
  shows "0 \<le> time_left (sys_cpu s i) \<and> time_left (sys_cpu s i) \<le> time_slot cfg \<and>
    (c_proc (sys_cpu s i) = None \<longrightarrow> time_left (sys_cpu s i) = 0) \<and>
    (c_at (sys_cpu s i) = AtRun \<longrightarrow> c_proc (sys_cpu s i) \<noteq> None \<and> 0 < time_left (sys_cpu s i)) \<and>
    (c_at (sys_cpu s i) = AtRun \<and> c_at (sys_cpu t i) \<noteq> AtRun \<longrightarrow>
       c_proc (sys_cpu t i) = c_proc (sys_cpu s i) \<and> time_left (sys_cpu t i) = time_left (sys_cpu s i) - 1) \<and>
    (c_at (sys_cpu s i) \<noteq> AtRun \<and> c_at (sys_cpu t i) = AtRun \<longrightarrow> time_left (sys_cpu t i) =
       (if time_left (sys_cpu s i) = 0 then time_slot cfg else time_left (sys_cpu s i))) \<and>
    (\<forall>p. c_proc (sys_cpu s i) = Some p \<and> c_proc (sys_cpu t i) \<noteq> Some p \<longrightarrow>
       time_left (sys_cpu s i) = 0 \<or> at_end (sys_k s) p)"
proof -
  have "cpu_inv cfg (sys_cpu s i)"
    using sys_inv_reach [OF assms(1,2)] assms(3) by (simp add: sys_inv_def)
  then show ?thesis
    using slot_step_sys [OF _ assms(2) phases.inv_reach [OF assms(1)] assms(4), of i] by (simp add: slot_step_def cpu_inv_def)
qed

lemma time_slot_is_respected_witness:
  "\<exists>(s :: system) t. sstep ex_u ex_junk ex_fs ex_cfg s t \<and> c_proc (sys_cpu s 0) = Some 1 \<and>
    time_left (sys_cpu s 0) \<le> 2"
proof -
  obtain s t where s: "reach (sinit ex_cfg) (sstep ex_u ex_junk ex_fs ex_cfg) s" "c_proc (sys_cpu s 0) = Some 1"
    "sstep ex_u ex_junk ex_fs ex_cfg s t"
    using ex_held_step by fastforce
  have "time_left (sys_cpu s 0) \<le> 2"
    using time_slot_is_respected [OF s(1) ex_cfg_ok _ s(3), of 0] by (simp add: ex_cfg_def)
  then show ?thesis using s(2,3) by blast
qed

section \<open>The memory of a process\<close>

text \<open>
  C7: The first region of a process refines an array of bytes, when RAM has the frames for
  it.  In a fresh process (what \<open>init_mm\<close> makes in zeroed memory), for a symbol below 30,
  \<open>0 < n \<le> 4000000\<close> and at least \<open>pages_of n\<close> free frames in RAM: \<open>liballoc\<close> of \<open>n\<close>
  bytes succeeds, and after it any sequence of \<open>libread\<close> and \<open>libwrite\<close> at offsets inside the
  region succeeds and returns exactly what the same sequence returns on a list of \<open>n\<close>
  bytes.
\<close>

lemma region_refines_array:
  assumes fresh: "fresh_process u c" and r: "sym_ok (int_of_u32 r)"
    and n: "0 < int_of_u32 n" "int_of_u32 n \<le> 4000000"
    and frames: "pages_of (int_of_u32 n) \<le> int (length (free_fp_list (c_mram c)))"
    and accs: "\<forall>a \<in> set accs. acc_off a < nat (int_of_u32 n)"
  shows "\<exists>c1 m c2. liballoc u c n r = Inr (0, c1) \<and> length m = nat (int_of_u32 n) \<and>
    run_accesses u r accs c1 = Inr (array_accesses accs m, c2)"
proof -
  obtain m where m: "length m = nat (int_of_u32 n)"
    "holds_array u (after_first u c (int_of_u32 r) (int_of_u32 n)) r m"
    using first_region_array [OF fresh r n frames] by blast
  then show ?thesis
    using run_accesses_refine [OF m(2)] accs liballoc_first [OF fresh r n] by auto
qed

lemma region_refines_array_witness:
  "\<exists>c1 c2. liballoc ex_u ex_ctx 300 2 = Inr (0, c1) \<and>
    run_accesses ex_u 2 [Store 20 7, Store 299 (-2), Load 20, Store 20 8, Load 299, Load 20] c1 =
      Inr ([(0, None), (0, None), (0, Some 7), (0, None), (0, Some (-2)), (0, Some 8)], c2)"
proof -
  let ?accs = "[Store 20 7, Store 299 (-2), Load 20, Store 20 8, Load 299, Load 20]"
  have i: "int_of_u32 300 = 300" "int_of_u32 2 = 2" by (simp_all add: int_of_u32_def)
  obtain c1 m c2 where *: "liballoc ex_u ex_ctx 300 2 = Inr (0, c1)" "length m = 300"
    "run_accesses ex_u 2 ?accs c1 = Inr (array_accesses ?accs m, c2)"
    using region_refines_array [OF ex_fresh, of 2 300 ?accs] ex_sym(1) ex_pages by (auto simp: i)
  moreover have "array_accesses ?accs m = [(0, None), (0, None), (0, Some 7), (0, None), (0, Some (-2)), (0, Some 8)]"
    using *(2) by (simp add: u32_of_byte_def)
  ultimately show ?thesis by auto
qed

text \<open>
  C8: The memory of a process is its own.  While no two processes map the same frame, any
  sequence of instructions of any processes, each of which stays within the regions of its
  process (an allocation that its address space has room for, a release, a read or write of
  a byte whose page is in RAM or can be brought in, a calculation), is executed to its end,
  and leaves every byte of every process that takes no part in it as it is; afterwards,
  too, no two processes map the same frame, and each process's memory is sound.
\<close>

lemma memory_is_private:
  assumes "mem_ok k" and "admitted (exec_on u) may_exec todo k"
  shows "\<exists>k'. run_seq (exec_on u) todo k = Inr k' \<and> mem_ok k' \<and>
    (\<forall>q. q \<notin> fst ` set todo \<longrightarrow> k_heap k' q = k_heap k q \<and> bytes_of k' q = bytes_of k q)"
  using procs.run_private [OF assms] by (simp add: own_view_def)

lemma memory_is_private_witness:
  "\<exists>k'. run_seq (exec_on ex_u) [(2, ex_inst ALLOC 300 3 0 0)] ex_kernel1 = Inr k' \<and> mem_ok k' \<and>
    bytes_of ex_kernel1 1 0 \<noteq> None \<and> bytes_of k' 1 0 = bytes_of ex_kernel1 1 0"
  using memory_is_private [OF ex_kernel1_ok ex_kernel1_alloc] ex_kernel1_byte by fastforce

text \<open>
  C9: A byte written stays.  After a process wrote a byte of RAM through a region, and
  other processes executed any instructions within their own regions, the process reads
  through any region the byte it wrote, if the address is the same, and otherwise the byte
  that stood there before.
\<close>

lemma written_byte_stays:
  assumes "mem_ok k" and "k_heap k p = Some b" and "opcode ins = WRITE"
    and "admitted (exec_on u) may_exec ((p, ins) # others) k" and "p \<notin> fst ` set others"
    and "va_ok (ctx_of k b) (reg_byte (ctx_of k b) (arg_1 ins) (arg_2 ins))"
    and "sym_ok (int_of_u32 r)" and "va_ok (ctx_of k b) (reg_byte (ctx_of k b) r off)"
  shows "\<exists>k' y. run_seq (exec_on u) ((p, ins) # others) k = Inr k' \<and> k_heap k' p = Some b \<and>
    libread u (ctx_of k b) r off = Inr (0, y, ctx_of k b) \<and>
    libread u (ctx_of k' b) r off = Inr (0,
      if reg_byte (ctx_of k b) r off = reg_byte (ctx_of k b) (arg_1 ins) (arg_2 ins)
      then u32_of_byte (byte_of_u32 (arg_0 ins)) else y, ctx_of k' b)"
  using write_survives [OF assms] read_before_write [OF assms(2-4,7,8)] by (simp add: if_distrib)

lemma written_byte_stays_witness:
  "\<exists>k' b. run_seq (exec_on ex_u) [(1, ex_inst WRITE 100 2 20 0), (2, ex_inst ALLOC 300 3 0 0)] ex_kernel1 = Inr k' \<and>
    k_heap k' 1 = Some b \<and> libread ex_u (ctx_of k' b) 2 20 = Inr (0, 100, ctx_of k' b)"
proof -
  have "sym_ok (int_of_u32 2)" by (simp add: sym_ok_def int_of_u32_def)
  moreover have "u32_of_byte (byte_of_u32 100) = 100" by (simp add: u32_of_byte_def byte_of_u32_def)
  ultimately show ?thesis
    using written_byte_stays [OF ex_kernel1_ok ex_kernel1_heap(4) _ ex_kernel1_write(2) _ _ _ ex_kernel1_write(1)]
      ex_kernel1_write(1) by (simp add: ex_inst_def) blast
qed

text \<open>
  C10: An allocation that the address space has room for is always served, releases the
  mutex and keeps the process's memory sound: no two pages share a frame, no mapped frame
  is in the free pool, the page list holds exactly the resident pages, no frame comes from
  outside the process and the pool, and the swap device is untouched.
\<close>

lemma alloc_keeps_memory_sound:
  assumes "\<not> c_lock c" and "sym_ok i" and "can_alloc c v s"
  shows "\<exists>a c'. rg_alloc u c 0 i s = Inr (0, a, c') \<and> \<not> c_lock c' \<and> paging_inv c' \<and>
    (\<exists>v'. area_wf (c_mm c') v') \<and> frames_reach c' \<subseteq> frames_reach c \<and> c_mswp c' = c_mswp c"
  using rg_alloc_serves [OF assms, of u] by (auto simp: area_safe_def)

lemma alloc_keeps_memory_sound_witness:
  "\<exists>a c'. rg_alloc ex_u ex_ctx 0 2 300 = Inr (0, a, c') \<and> paging_inv c'"
proof -
  from alloc_keeps_memory_sound [OF fresh_processD(3) [OF ex_fresh] ex_sym(1) ex_can_alloc, of ex_u]
  show ?thesis by blast
qed

text \<open>
  C11: Demand paging.  When the paging invariant holds, the page (below 16384) is not
  present, there are victims, the swap device allows random access and has a first free
  frame, this frame and the page's swap offset lie inside the device, and the
  two are different (otherwise the page would get back the victim's own bytes), \<open>pg_getpage\<close>
  evicts the oldest page of the list, gives its frame to the page and keeps the paging
  invariant; the page then holds what the swap device held at its swap offset, the
  victim's bytes are saved in the first free swap frame, and every other page keeps its
  frame and its bytes.
\<close>

lemma demand_paging:
  assumes inv: "paging_inv c" and fifo: "fifo_pgn (c_mm c) \<noteq> []"
    and p: "0 \<le> p" "p < 16384" "\<not> PAGING_PAGE_PRESENT (pgd (c_mm c) p)"
    and swp: "rdmflg (c_mswp c) \<noteq> 0" "free_fp_list (c_mswp c) = s # ss" "page_in (c_mswp c) s"
      "page_in (c_mswp c) (PAGING_PTE_SWP (pgd (c_mm c) p))" "PAGING_PTE_SWP (pgd (c_mm c) p) \<noteq> s"
  defines "v \<equiv> last (fifo_pgn (c_mm c))"
  shows "\<exists>c'. pg_getpage u p f c = Inr (0, frame_of (c_mm c) v, c') \<and> paging_inv c' \<and>
    (\<forall>q. resident (c_mm c') q \<longleftrightarrow> q = p \<or> resident (c_mm c) q \<and> q \<noteq> v) \<and>
    frame_of (c_mm c') p = frame_of (c_mm c) v \<and>
    (\<forall>i \<in> {0..<256}.
       ram_page (c_mram c') (frame_of (c_mm c) v) i = ram_page (c_mswp c) (PAGING_PTE_SWP (pgd (c_mm c) p)) i \<and>
       ram_page (c_mswp c') s i = ram_page (c_mram c) (frame_of (c_mm c) v) i) \<and>
    (\<forall>q. resident (c_mm c) q \<and> q \<noteq> v \<longrightarrow> frame_of (c_mm c') q = frame_of (c_mm c) q \<and>
       (\<forall>i \<in> {0..<256}. ram_page (c_mram c') (frame_of (c_mm c) q) i = ram_page (c_mram c) (frame_of (c_mm c) q) i))"
proof -
  let ?c = "swapped_in p v s ss c"
  have v: "resident (c_mm c) v" using inv fifo by (auto simp: paging_inv_def v_def)
  then have pv: "p \<noteq> v" "\<not> resident (c_mm c) p" using p by (auto simp: resident_def)
  have other: "frame_of (c_mm c) q \<noteq> frame_of (c_mm c) v" if "resident (c_mm c) q" "q \<noteq> v" for q
    using inv v that by (auto simp: paging_inv_def inj_on_def)
  have inv': "paging_inv ?c" using paging_inv_swapped_in [OF inv fifo p] by (simp add: v_def)
  have fr: "frame_of (c_mm ?c) p = frame_of (c_mm c) v" by (simp add: frame_of_swapped_in [OF pv(1)])
  have "pg_swapin u p c = Inr (0, ?c)"
    unfolding v_def by (rule pg_swapin_eq [OF inv fifo p(3) swp(1-4)])
  then have "pg_getpage u p f c = Inr (0, frame_of (c_mm c) v, ?c)"
    using p fr by (simp add: pg_getpage_def frame_of_def)
  moreover have "ram_page (c_mram ?c) (frame_of (c_mm c) v) i = ram_page (c_mswp c) (PAGING_PTE_SWP (pgd (c_mm c) p)) i"
    "ram_page (c_mswp ?c) s i = ram_page (c_mram c) (frame_of (c_mm c) v) i"
    "resident (c_mm c) q \<Longrightarrow> q \<noteq> v \<Longrightarrow>
      ram_page (c_mram ?c) (frame_of (c_mm c) q) i = ram_page (c_mram c) (frame_of (c_mm c) q) i"
    if "i \<in> {0..<256}" for i q
    using that swp(5) other by (simp_all add: swapped_in_def Let_def ram_page_put_page ram_page_def [of "c_mswp c\<lparr>free_fp_list := ss\<rparr>"] ram_page_def [of "c_mswp c"])
  ultimately show ?thesis
    using inv' fr resident_swapped_in [OF p(1,2) pv(1)] frame_of_swapped_in [OF pv(1)] pv
    by (intro exI [of _ ?c]) auto
qed

lemma demand_paging_witness:
  "\<exists>c'. pg_getpage ex_u 5 0 ex_ctx1 = Inr (0, frame_of (c_mm ex_ctx1) 0, c') \<and> paging_inv c' \<and>
    resident (c_mm c') 5 \<and> \<not> resident (c_mm c') 0"
proof -
  have fifo: "fifo_pgn (c_mm ex_ctx1) = [1, 0]"
    by (simp add: ex_ctx1_def after_first_def ex_pages map_new_def Let_def ex_ctx_def ex_dev_def
        init_mm_def ex_mm0_def numeral_2_eq_2)
  have pg: "pgd (c_mm ex_ctx1) 5 = 0"
    by (simp add: ex_ctx1_def after_first_def ex_pages map_new_def Let_def ex_ctx_def ex_dev_def
        init_mm_def ex_mm0_def mapped_pgd_def)
  have swp: "c_mswp ex_ctx1 = ex_dev [3, 4]"
    by (simp add: ex_ctx1_def after_first_def map_new_def Let_def ex_ctx_def)
  have "\<exists>c'. pg_getpage ex_u 5 0 ex_ctx1 = Inr (0, frame_of (c_mm ex_ctx1) (last (fifo_pgn (c_mm ex_ctx1))), c') \<and>
    paging_inv c' \<and> (\<forall>q. resident (c_mm c') q \<longleftrightarrow> q = 5 \<or> resident (c_mm ex_ctx1) q \<and> q \<noteq> last (fifo_pgn (c_mm ex_ctx1)))"
    using demand_paging [where c = ex_ctx1 and p = 5 and s = 3 and ss = "[4]" and u = ex_u and f = 0]
      ex_ctx1_ok(1) fifo pg swp ex_pgd by (simp add: ex_dev_def page_in_def) blast
  then show ?thesis using fifo by auto
qed

text \<open>
  C12: Growing the area by \<open>q\<close> pages, when its break is past its end (or it is empty) and
  RAM has the frames, maps exactly the next \<open>q\<close> pages, to the first \<open>q\<close> free frames in
  reverse order, removes those from the pool, moves the area's end and break by that many
  bytes and keeps the paging invariant.
\<close>

lemma area_growth_maps_next_pages:
  assumes v: "one_vma (c_mm c) v" and q: "0 < q" "uint (vm_end v) + q * 256 \<le> 4194304"
    and "uint (vm_end v) mod 256 = 0" and "uint (sbrk v) + q * 256 < 2147483648"
    and brk: "vm_end v = 0 \<or> vm_end v < sbrk v"
    and can: "can_map c (uint (vm_end v) div 256) (nat q)"
  defines "e \<equiv> uint (vm_end v) div 256" and "free \<equiv> free_fp_list (c_mram c)"
  shows "\<exists>c'. inc_vma_limit u c 0 (q * 256) = Inr (0, c') \<and> paging_inv c' \<and>
    (\<forall>p. resident (c_mm c') p \<longleftrightarrow> resident (c_mm c) p \<or> e \<le> p \<and> p < e + q) \<and>
    (\<forall>i. 0 \<le> i \<and> i < q \<longrightarrow> frame_of (c_mm c') (e + i) = rev (take (nat q) free) ! nat i) \<and>
    free_fp_list (c_mram c') = drop (nat q) free \<and>
    (\<exists>v'. mmap (c_mm c') = [v'] \<and> uint (vm_end v') = uint (vm_end v) + q * 256 \<and>
       sbrk v' = sbrk v + u64_of_int (q * 256))"
proof -
  let ?c = "put_area (grown_vma v (q * 256)) (map_new c e (nat q))"
  have enough: "\<not> int (length free) < q" "\<not> (uint (vm_end v) \<noteq> 0 \<and> uint (sbrk v) \<le> uint (vm_end v))"
    using can q(1) brk by (auto simp: can_map_def free_def word_less_def uint_0_iff)
  have "inc_vma_limit u c 0 (q * 256) = Inr (0, ?c)"
    using inc_vma_limit_one [OF assms(1-5), of u] enough
    by (simp add: map_new_def Let_def put_area_def e_def free_def)
  moreover have "paging_inv ?c"
    using paging_inv_map_new [OF can] paging_inv_cong [of ?c "map_new c e (nat q)"] by (simp add: e_def)
  moreover have "resident (c_mm ?c) = resident (c_mm (map_new c e (nat q)))"
    "frame_of (c_mm ?c) = frame_of (c_mm (map_new c e (nat q)))"
    by (rule resident_cong frame_of_cong; simp)+
  ultimately show ?thesis
    using resident_map_new [OF can] frame_of_map_new [OF can] q(1)
    uint_grown [of v "q * 256"] q
    by - (rule exI [of _ ?c], auto simp: e_def free_def map_new_def Let_def grown_vma_def)
qed

lemma area_growth_maps_next_pages_witness:
  "\<exists>c'. inc_vma_limit ex_u ex_ctx 0 512 = Inr (0, c') \<and> frame_of (c_mm c') 0 = 1 \<and> frame_of (c_mm c') 1 = 0 \<and>
    free_fp_list (c_mram c') = [2, 3, 4, 5, 6, 7]"
proof -
  have "can_map ex_ctx (uint (vm_end (area0 ex_u)) div 256) (nat 2)"
    using fresh_can_map [OF ex_fresh, of 300] ex_pages by (simp add: area0_def)
  then have "\<exists>c'. inc_vma_limit ex_u ex_ctx 0 (2 * 256) = Inr (0, c') \<and>
      (\<forall>i. 0 \<le> i \<and> i < 2 \<longrightarrow> frame_of (c_mm c') (0 + i) = rev (take (nat 2) (free_fp_list (c_mram ex_ctx))) ! nat i) \<and>
      free_fp_list (c_mram c') = drop (nat 2) (free_fp_list (c_mram ex_ctx))"
    using area_growth_maps_next_pages [OF fresh_process_wf(1) [OF ex_fresh], of 2 ex_u] by (auto simp: area0_def)
  then obtain c' where c': "inc_vma_limit ex_u ex_ctx 0 512 = Inr (0, c')"
    "\<forall>i. 0 \<le> i \<and> i < 2 \<longrightarrow> frame_of (c_mm c') i = [1, 0] ! nat i" "free_fp_list (c_mram c') = [2, 3, 4, 5, 6, 7]"
    by (auto simp: ex_ctx_def ex_dev_def numeral_2_eq_2)
  then show ?thesis using c'(2) [rule_format, of 0] c'(2) [rule_format, of 1] by auto
qed

section \<open>The scheduler and its queues\<close>

text \<open>
  C13: \<open>get_proc\<close> obeys strict priority: the process it hands out is of the first level
  that has any, has the least default priority there and is the first of those that
  share it; exactly that process leaves the ready queues, the order of the others stays,
  and no other level changes.  \<open>get_proc\<close> always returns, and it returns no process exactly
  when no level has any.
\<close>

lemma get_proc_strict_priority:
  assumes "sched_wf s" and "sched_live h s"
  shows "(\<exists>p s'. get_proc h s = Inr (p, s') \<and> (p = None \<longleftrightarrow> (\<forall>k < MAX_PRIO. level s k = []))) \<and>
    (\<forall>p s'. get_proc h s = Inr (Some p, s') \<longrightarrow> (\<exists>k pre post. k < MAX_PRIO \<and> (\<forall>j < k. level s j = []) \<and>
    level s k = pre @ p # post \<and> level s' k = pre @ post \<and>
    (\<forall>y \<in> set pre. pcb_key h p < pcb_key h y) \<and> (\<forall>y \<in> set post. pcb_key h p \<le> pcb_key h y) \<and>
    (\<forall>j. j \<noteq> k \<longrightarrow> level s' j = level s j) \<and> ready s = add_mset p (ready s') \<and>
    sched_wf s' \<and> sched_live h s'))"
proof (intro conjI [OF get_proc_returns [OF assms]] allI impI)
  fix p s' assume g: "get_proc h s = Inr (Some p, s')"
  show "\<exists>k pre post. k < MAX_PRIO \<and> (\<forall>j < k. level s j = []) \<and>
    level s k = pre @ p # post \<and> level s' k = pre @ post \<and>
    (\<forall>y \<in> set pre. pcb_key h p < pcb_key h y) \<and> (\<forall>y \<in> set post. pcb_key h p \<le> pcb_key h y) \<and>
    (\<forall>j. j \<noteq> k \<longrightarrow> level s' j = level s j) \<and> ready s = add_mset p (ready s') \<and>
    sched_wf s' \<and> sched_live h s'"
    using get_proc_taken [OF assms g] by blast
qed

lemma ex_get:
  "\<exists>p s'. get_proc (ex_heap 7 5 7) (ex_sched [1, 2, 3] []) = Inr (Some p, s')"
proof -
  have "0 < MAX_PRIO \<and> level (ex_sched [1, 2, 3] []) 0 \<noteq> []" by (simp add: ex_level MAX_PRIO_def)
  then have "\<not> (\<forall>k < MAX_PRIO. level (ex_sched [1, 2, 3] []) k = [])" by blast
  then show ?thesis
    using get_proc_returns [OF ex_sched_wf(1) ex_sched_wf(2), of "[1, 2, 3]" "[]" 7 5 7] by auto
qed

lemma get_proc_strict_priority_witness:
  "\<exists>s'. get_proc (ex_heap 7 5 7) (ex_sched [1, 2, 3] []) = Inr (Some 2, s') \<and> level s' 0 = [1, 3]"
proof -
  obtain p s' where g: "get_proc (ex_heap 7 5 7) (ex_sched [1, 2, 3] []) = Inr (Some p, s')"
    using ex_get by blast
  obtain k pre post where k: "level (ex_sched [1, 2, 3] []) k = pre @ p # post" "level s' k = pre @ post"
    "\<forall>y \<in> set pre. pcb_key (ex_heap 7 5 7) p < pcb_key (ex_heap 7 5 7) y"
    "\<forall>y \<in> set post. pcb_key (ex_heap 7 5 7) p \<le> pcb_key (ex_heap 7 5 7) y"
    using conjunct2 [OF get_proc_strict_priority [OF ex_sched_wf(1) ex_sched_wf(2)], rule_format, OF _ _ _ _ _ _ g]
    by fastforce
  then have "k = 0" "pre @ p # post = [1, 2, 3]" by (auto simp: ex_level split: if_splits)
  then have "pre = [1] \<and> p = 2 \<and> post = [3]" using k(3,4)
    by (auto simp: append_eq_Cons_conv Cons_eq_append_conv)
  then show ?thesis using g k(2) \<open>k = 0\<close> by auto
qed

text \<open>
  C14: \<open>put_proc\<close> of a live process of a valid level never fails and keeps the scheduler
  well-formed; the process joins the end of its level, unless that level is full: then it
  is in no ready queue more often than before, that is, it is lost to the scheduler.
\<close>

lemma put_proc_joins_level:
  assumes "sched_wf s" and "sched_live h s" and "h p = Some b" and "unat (prio b) < MAX_PRIO"
  shows "\<exists>h' s'. put_proc h s p = Inr (h', s') \<and> sched_wf s' \<and> sched_live h' s' \<and>
    (\<forall>j. level s' j = (if j = unat (prio b) \<and> length (level s j) < MAX_QUEUE_SIZE
                       then level s j @ [p] else level s j)) \<and>
    ready s' = (if length (level s (unat (prio b))) < MAX_QUEUE_SIZE then add_mset p (ready s) else ready s)"
  using assms put_proc_ok(1) [of s h p b] sched_wf_joined [OF assms(1), of p "unat (prio b)"]
    sched_live_joined [OF assms(2,3)] ready_joined [OF assms(4), of s p] level_joined [of s p "unat (prio b)"]
  by (auto simp: sched_wf_def)

lemma put_proc_joins_level_witness:
  "\<exists>h' s'. put_proc (ex_heap 7 5 7) (ex_sched [1, 2] []) 3 = Inr (h', s') \<and> level s' 0 = [1, 2, 3]"
  using put_proc_joins_level [OF ex_sched_wf(1) ex_sched_wf(2) [where a = 7 and b = 5 and c = 7] ex_heap_simps(4),
      of "[1, 2]" "[]"]
  by (auto simp: ex_level ex_pcb_def MAX_PRIO_def MAX_QUEUE_SIZE_def)

text \<open>
  C15: Processes that arrive at a queue leave it sorted by their default priority, in the
  order of arrival where that is equal; arrivals beyond the ten places are refused.
\<close>

lemma queue_sorts_arrivals:
  assumes "q_size q = 0" and "\<forall>p \<in> set ps. h p \<noteq> None"
  shows "dequeue_all (length (take MAX_QUEUE_SIZE ps)) h (enqueue_all q ps) =
    sort_key (pcb_key h) (take MAX_QUEUE_SIZE ps)"
proof -
  have "q_wf q" "q_live h q" using assms(1) by (simp_all add: q_wf_def q_live_def q_list_def)
  note e = enqueue_all_ok [OF this assms(2)]
  then have l: "q_list (enqueue_all q ps) = take MAX_QUEUE_SIZE ps"
    using assms(1) by (simp add: q_list_def)
  have "fst (pq.drain h (length (q_list (enqueue_all q ps))) (enqueue_all q ps)) =
      sort_key (pcb_key h) (q_list (enqueue_all q ps))"
    using e by (intro pq.drain_sorts) blast
  then show ?thesis unfolding l by (simp only: dequeue_all_drain)
qed

lemma queue_sorts_arrivals_witness:
  "dequeue_all (Suc (Suc (Suc 0))) (ex_heap 7 5 7) (enqueue_all (ex_queue []) [1, 2, 3]) = [2, 1, 3]"
proof -
  let ?ps = "[1, 2, 3] :: pcb_ptr list"
  have "dequeue_all (length (take MAX_QUEUE_SIZE ?ps)) (ex_heap 7 5 7) (enqueue_all (ex_queue []) ?ps) =
      sort_key (pcb_key (ex_heap 7 5 7)) (take MAX_QUEUE_SIZE ?ps)"
    by (rule queue_sorts_arrivals) simp_all
  then show ?thesis
    by (simp add: MAX_QUEUE_SIZE_def del: dequeue_all.simps enqueue_all.simps)
qed

text \<open>
  C16: Round robin.  When the processes of the first level that has any share their
  default priority, a CPU that fetches a process, and puts it back at the end of its time
  slot, again and again gets them in turn: in any number of rounds, process \<open>i\<close> of the
  level in rounds \<open>i\<close>, \<open>i + |l|\<close> and so on, so that each runs once in every \<open>|l|\<close> rounds.
  No level but this one changes.
\<close>

lemma processes_take_turns:
  assumes "at_level h s k l"
  shows "\<exists>h' s'. rounds n h s = Inr (map (\<lambda>i. l ! (i mod length l)) [0..<n], h', s') \<and>
    level s' k = rotate n l \<and> (\<forall>j. j \<noteq> k \<longrightarrow> level s' j = level s j)"
  using rounds_take_turns [OF assms, of n] by (auto simp: at_level_def)

lemma processes_take_turns_witness:
  "\<exists>h' s'. rounds 4 (ex_heap 7 7 7) (ex_sched [1, 2, 3] []) = Inr ([1, 2, 3, 1], h', s') \<and> level s' 0 = [2, 3, 1]"
proof -
  have "uniform (ex_heap 7 7 7) [1, 2, 3]" by (simp add: uniform_def)
  then have "at_level (ex_heap 7 7 7) (ex_sched [1, 2, 3] []) 0 [1, 2, 3]"
    using ex_sched_wf(1) [of "[1, 2, 3]" "[]"] ex_sched_wf(2) [of "[1, 2, 3]" "[]" 7 7 7] by (simp add: at_level_def ex_level MAX_PRIO_def ex_pcb_def)
  moreover have "map (\<lambda>i. [1, 2, 3 :: nat] ! (i mod length [1, 2, 3 :: nat])) [0..<4] = [1, 2, 3, 1]" by code_simp
  moreover have "rotate 4 [1, 2, 3 :: nat] = [2, 3, 1]" by code_simp
  ultimately show ?thesis using processes_take_turns [of "ex_heap 7 7 7" "ex_sched [1, 2, 3] []" 0 "[1, 2, 3]" 4] by metis
qed

text \<open>
  C17: The slot quota of a level and the slot counters have no influence on the process that
  \<open>get_proc\<close> hands out or on the queues it leaves.
\<close>

lemma slots_do_not_matter:
  assumes "sched_wf s" and "sched_live h s" and "\<forall>k < MAX_PRIO. 0 < sl k"
    and "get_proc h s = Inr (p, s1)"
    and "get_proc h (s\<lparr>slot := sl, curr_prio := cp, curr_slot := cs\<rparr>) = Inr (p', s2)"
  shows "p' = p \<and> mlq_ready_queue s2 = mlq_ready_queue s1"
  by (rule get_proc_slots_irrelevant [OF assms])

lemma slots_do_not_matter_witness:
  "\<exists>p s1 s2. get_proc (ex_heap 7 5 7) (ex_sched [1, 2] []) = Inr (p, s1) \<and>
    get_proc (ex_heap 7 5 7) ((ex_sched [1, 2] [])\<lparr>slot := \<lambda>_. 1, curr_prio := 3, curr_slot := 9\<rparr>) = Inr (p, s2) \<and>
    mlq_ready_queue s2 = mlq_ready_queue s1"
proof -
  let ?s = "ex_sched [1, 2] []" and ?h = "ex_heap 7 5 7"
  let ?t = "?s\<lparr>slot := \<lambda>_. 1, curr_prio := 3, curr_slot := 9\<rparr>"
  have w: "sched_wf ?s" "sched_live ?h ?s" by (rule ex_sched_wf; simp)+
  then have "sched_wf ?t" "sched_live ?h ?t" by (simp_all add: sched_wf_def sched_live_def)
  then obtain p s1 p' s2 where g: "get_proc ?h ?s = Inr (p, s1)" "get_proc ?h ?t = Inr (p', s2)"
    using get_proc_returns w by meson
  have "p' = p \<and> mlq_ready_queue s2 = mlq_ready_queue s1"
    by (rule slots_do_not_matter [OF w _ g]) simp
  then show ?thesis using g by blast
qed

text \<open>
  C18: The process queues need their mutex.  When threads call \<open>enqueue\<close> and \<open>dequeue\<close>
  under the lock, as the scheduler does, then in every interleaving, for any number of
  threads, those that have returned behave as calls one after the other; no thread
  accesses the array out of bounds; and while the places suffice, the processes in the
  queue and those handed out are exactly those that were there or were put.  Without the
  lock, as \<open>killall\<close> calls them, two threads can get the same process and leave a
  fill count of -1, and \<open>enqueue\<close> can store beyond the array.
\<close>

lemma queues_need_the_lock:
  assumes "q_wf q" and "q_live h q" and "\<forall>t p. ops t = Some p \<longrightarrow> h p \<noteq> None"
  shows "(\<forall>c. reach (idle (mem_of q)) (queue_step h ops True) c \<longrightarrow>
      (\<exists>ts rs q'. distinct ts \<and> set ts = {t. \<exists>l. locals c t = Some l \<and> queue_fin l} \<and>
        queue_run h ops ts q = Inr (rs, q') \<and> map (locals c) ts = map Some rs \<and>
        ((\<forall>t l. locals c t = Some l \<longrightarrow> queue_fin l) \<longrightarrow> shared c = mem_of q') \<and>
        (q_size q + length ts \<le> MAX_QUEUE_SIZE \<longrightarrow>
          mset (q_list q) + mset (List.map_filter ops ts) = mset (q_list q') + taken rs)) \<and>
      (\<forall>t l. locals c t = Some l \<longrightarrow> (\<exists>y. queue_micro h l (shared c) = Inr y))) \<and>
    (\<forall>p. q_list q = [p] \<and> ops 0 = None \<and> ops 1 = None \<longrightarrow>
      (\<exists>c. reach (idle (mem_of q)) (queue_step h ops False) c \<and> locals c 0 = Some (DDone (Some p)) \<and>
        locals c 1 = Some (DDone (Some p)) \<and> qm_size (shared c) = - 1)) \<and>
    (\<forall>a b. q_size q = 9 \<and> ops 0 = Some a \<and> ops 1 = Some b \<longrightarrow>
      (\<exists>c. reach (idle (mem_of q)) (queue_step h ops False) c \<and> locals c 1 = Some (EStore b 10) \<and>
        queue_micro h (EStore b 10) (shared c) = Inl OutOfBounds))"
proof (intro conjI allI impI; (elim conjE)?)
  fix c assume r: "reach (idle (mem_of q)) (queue_step h ops True) c"
  note lq = locked_queue [OF r assms]
  show "\<exists>ts rs q'. distinct ts \<and> set ts = {t. \<exists>l. locals c t = Some l \<and> queue_fin l} \<and>
      queue_run h ops ts q = Inr (rs, q') \<and> map (locals c) ts = map Some rs \<and>
      ((\<forall>t l. locals c t = Some l \<longrightarrow> queue_fin l) \<longrightarrow> shared c = mem_of q') \<and>
      (q_size q + length ts \<le> MAX_QUEUE_SIZE \<longrightarrow>
        mset (q_list q) + mset (List.map_filter ops ts) = mset (q_list q') + taken rs)"
    using lq(1) queue_run_conserves [OF _ assms] by blast
  show "\<exists>y. queue_micro h l (shared c) = Inr y" if "locals c t = Some l" for t l by (rule lq(2) [OF that])
next
  fix p assume o: "q_list q = [p]" "ops 0 = None" "ops 1 = None"
  have "q_size q = 1" "q_proc q 0 = p" using o(1) length_q_list [of q] nth_q_list [of 0 q] by auto
  moreover have "h p \<noteq> None" using assms(2) o(1) by (simp add: q_live_def)
  ultimately show "\<exists>c. reach (idle (mem_of q)) (queue_step h ops False) c \<and> locals c 0 = Some (DDone (Some p)) \<and>
      locals c 1 = Some (DDone (Some p)) \<and> qm_size (shared c) = - 1"
    using o(2,3) unlocked_dequeue by blast
qed (rule unlocked_enqueue)

lemma queues_need_the_lock_witness:
  "\<exists>c. reach (idle (mem_of \<lparr>q_proc = (\<lambda>_. 1), q_size = 1\<rparr>)) (queue_step (ex_heap 7 5 7) (\<lambda>_. None) False) c \<and>
    locals c 0 = Some (DDone (Some 1)) \<and> locals c 1 = Some (DDone (Some 1)) \<and> qm_size (shared c) = - 1"
proof -
  have "q_wf \<lparr>q_proc = (\<lambda>_. 1), q_size = 1\<rparr>" by (simp add: q_wf_def MAX_QUEUE_SIZE_def)
  moreover have "q_list \<lparr>q_proc = (\<lambda>_. 1), q_size = 1\<rparr> = [1]" by (simp add: q_list_def)
  moreover have "q_live (ex_heap 7 5 7) \<lparr>q_proc = (\<lambda>_. 1), q_size = 1\<rparr>" by (simp add: q_live_def q_list_def ex_heap_simps)
  ultimately show ?thesis
    using queues_need_the_lock [of "\<lparr>q_proc = (\<lambda>_. 1), q_size = 1\<rparr>" "ex_heap 7 5 7" "\<lambda>_. None"] by blast
qed

section \<open>The timer\<close>

text \<open>
  C19: The barrier: in every reachable state, a device that works in the current slot has
  finished exactly as many slots as the timer has counted, and two devices that have not
  finished are never more than one slot apart.
\<close>

lemma timer_keeps_step:
  assumes "reach (tinit devs) tstep s" and "i \<in> set (dev_list s)" and "l \<in> set (dev_list s)"
    and "\<not> t_fsh s i" and "\<not> t_fsh s l"
  shows "(d_pc s i = DWork \<longrightarrow> t_work s i = t_ticks s) \<and> t_work s i \<le> t_work s l + 1"
  using timer_sync [OF assms(1,2)] timer_barrier [OF assms] by blast

lemma ex_timer_eq: "start_timer (attach_all [0..<3] no_timer) = no_timer\<lparr>dev_list := [2, 1, 0], timer_started := True\<rparr>"
  using ex_timer0 by (simp add: ex_system_def)

lemma timer_keeps_step_witness:
  "\<exists>s :: timer_sys. reach (tinit [0..<3]) tstep s \<and> t_work s 0 = 1 \<and> t_work s 0 \<le> t_work s 1 + 1"
proof -
  let ?s0 = "no_timer\<lparr>dev_list := [2, 1, 0], timer_started := True\<rparr>"
  have "reach (tinit [0..<3]) tstep ?s0" using ex_timer by (simp only: ex_timer_eq)
  then have r: "reach (tinit [0..<3]) tstep (next_slot_enter 0 ?s0)"
    by (rule reach_step, intro tstep.enter) (simp_all add: no_timer_def)
  from timer_keeps_step [OF r, of 0 1] r show ?thesis
    by - (rule exI [of _ "next_slot_enter 0 ?s0"], simp add: no_timer_def next_slot_enter_def)
qed

text \<open>
  C20: The timer never deadlocks and stops last: in every reachable state some thread can
  take a step, or the timer has stopped and then every device has detached.
\<close>

lemma timer_progress:
  assumes "reach (tinit devs) tstep s"
  shows "if t_pc s = TStopped then \<forall>i \<in> set (dev_list s). t_fsh s i \<and> d_pc s i = DExit
    else \<exists>t. tstep s t"
  using timer_no_deadlock [OF assms] timer_stops_last [OF assms] by simp

lemma timer_progress_witness:
  "\<exists>s :: timer_sys. reach (tinit [0]) tstep s \<and> t_pc s = TStopped \<and> d_pc s 0 = DExit"
proof -
  let ?s0 = "no_timer\<lparr>dev_list := [0], timer_started := True\<rparr>"
  let ?s1 = "detach_event 0 ?s0"
  let ?s2 = "stop_timer ?s1"
  let ?s3 = "timer_loop ?s2"
  have "reach (tinit [0]) tstep ?s0" by (rule reach_init) (simp add: tinit_eq)
  then have "reach (tinit [0]) tstep ?s1"
    by (rule reach_step, intro tstep.detach) (simp_all add: no_timer_def)
  then have "reach (tinit [0]) tstep ?s2"
    by (rule reach_step, intro tstep.stop) (simp add: no_timer_def detach_event_def)
  then have r: "reach (tinit [0]) tstep ?s3"
    by (rule reach_step, intro tstep.head) (simp add: no_timer_def detach_event_def stop_timer_def)
  moreover have "t_pc ?s3 = TStopped" "0 \<in> set (dev_list ?s3)"
    by (simp_all add: no_timer_def detach_event_def stop_timer_def timer_loop_def)
  ultimately show ?thesis using timer_progress [OF r] by auto
qed

section \<open>Loading and running\<close>

text \<open>
  C21: The loader is the inverse of printing: a description printed with its priority, its
  length and one instruction per line is loaded as a process with the next pid, that
  priority, program counter 0 and the same instructions, each with the arguments its
  opcode takes.
\<close>

lemma load_inverts_print:
  assumes "fs pth = Some (print_prog pr tx)" and "length tx < 4294967296"
  shows "\<exists>b. load j fs n pth = Inr (b, n + 1) \<and> pid b = n \<and> priority b = pr \<and> pc b = 0 \<and>
    path b = take 16 pth \<and> unat (code_size (pcb_code b)) = length tx \<and>
    list_all2 same_inst (code_text (pcb_code b)) tx"
  using assms by (rule load_print)

lemma load_inverts_print_witness:
  "\<exists>b. load ex_junk ex_fs 7 ''input/proc/p1'' = Inr (b, 8) \<and> priority b = 3 \<and>
    list_all2 same_inst (code_text (pcb_code b)) ex_prog"
  using load_inverts_print [where fs = ex_fs and pth = "''input/proc/p1''" and pr = 3 and tx = ex_prog
      and j = ex_junk and n = 7]
  by (auto simp: ex_fs_def ex_prog_def)

text \<open>
  C22: \<open>main\<close> starts the machine the configuration describes: for a file in the documented
  format (time slot, CPUs and number of processes; RAM and four swap sizes; a line of
  start time, name and priority per process) the reader is the inverse of printing, with
  the directory before each name, and the threads start in the initial state of the system
  with that configuration.
\<close>

lemma main_boots_the_configuration:
  assumes "fs (''input/'' @ a) = Some (print_config ts cpus ram swps ps)" and "length swps = PAGING_MAX_MMSWP"
    and "length ps < 2147483648" and "\<forall>q \<in> set ps. proc_name_ok (fst (snd q))"
    and "length a < 94" and "q_size (running_list q) = 0"
  defines "cfg \<equiv> \<lparr>time_slot = int_of_u32 ts, num_cpus = nat (int_of_u32 cpus),
    memramsz = int_of_u32 ram, memswpsz = map int_of_u32 swps,
    ld_path = map (\<lambda>q. ''input/proc/'' @ fst (snd q)) ps, ld_start = map fst ps, ld_prio = map (snd \<circ> snd) ps\<rparr>"
  shows "\<exists>s. os_main cj junk mp q fs [prog, a] = Inr (Inr (cfg, s)) \<and> sinit cfg s"
  using os_main_ok [OF read_config_print [where fs = fs and pth = "''input/'' @ a", OF assms(1-4)] assms(5)] boot_sinit [OF assms(6)] unfolding cfg_def by blast

lemma main_boots_the_configuration_witness:
  "\<exists>s. os_main (\<lambda>_. (0, 0)) [] (ex_dev []) (ex_sched [] [])
      (\<lambda>_. Some (print_config 2 4 1048576 [16777216, 0, 0, 0] [(1, ''p0s'', 130), (2, ''s3'', 39)])) [''os'', ''os_1''] =
    Inr (Inr (\<lparr>time_slot = 2, num_cpus = 4, memramsz = 1048576, memswpsz = [16777216, 0, 0, 0],
      ld_path = [''input/proc/p0s'', ''input/proc/s3''], ld_start = [1, 2], ld_prio = [130, 39]\<rparr>, s))"
proof -
  let ?ps = "[(1, ''p0s'', 130), (2, ''s3'', 39)] :: (u64 \<times> string \<times> u64) list"
  let ?fs = "\<lambda>_ :: string. Some (print_config 2 4 1048576 [16777216, 0, 0, 0] ?ps)"
  have "\<exists>s. os_main (\<lambda>_. (0, 0)) [] (ex_dev []) (ex_sched [] []) ?fs [''os'', ''os_1''] =
    Inr (Inr (\<lparr>time_slot = int_of_u32 2, num_cpus = nat (int_of_u32 4),
    memramsz = int_of_u32 1048576, memswpsz = map int_of_u32 [16777216, 0, 0, 0],
    ld_path = map (\<lambda>q. ''input/proc/'' @ fst (snd q)) ?ps, ld_start = map fst ?ps, ld_prio = map (snd \<circ> snd) ?ps\<rparr>, s))"
    using main_boots_the_configuration [where fs = ?fs and a = "''os_1''" and ps = ?ps and swps = "[16777216, 0, 0, 0]"
        and ts = 2 and cpus = 4 and ram = 1048576 and q = "ex_sched [] []" and prog = "''os''" and junk = "[]"
        and mp = "ex_dev []" and cj = "\<lambda>_. (0, 0)"]
    by (simp add: PAGING_MAX_MMSWP_def proc_name_ok_def is_space_def ex_sched_def) blast
  then show ?thesis by (simp add: int_of_u32_def)
qed

text \<open>
  C23: \<open>run\<close> of an unfinished process executes one instruction: the program counter
  advances by exactly one, whatever the instruction is and does; the process keeps its
  code, registers and queue links; the program counter of every process stays within its
  code; and every instruction but a system call leaves the scheduler and every other
  process as they are.
\<close>

lemma run_one_instruction:
  assumes "heap_wf (k_heap k)" and "k_heap k p = Some b" and "run u k p = Inr (x, k')"
    and "pc b < code_size (pcb_code b)"
  shows "heap_wf (k_heap k') \<and> (\<exists>m. k_heap k' p = Some (b\<lparr>pc := pc b + 1, mm := m\<rparr>)) \<and>
    unat (pc b + 1) = unat (pc b) + 1 \<and>
    (opcode (code_text (pcb_code b) ! unat (pc b)) \<noteq> SYSCALL \<longrightarrow>
      k_sched k' = k_sched k \<and> (\<forall>q. q \<noteq> p \<longrightarrow> k_heap k' q = k_heap k q))"
  using run_advances [OF assms] pc_step(2) [OF assms(4)] run_isolated [OF assms] by blast

lemma run_one_instruction_witness:
  "\<exists>x k' b'. run ex_u (ex_kernel (ex_heap 7 5 7) (ex_sched [2, 3] [])) 1 = Inr (x, k') \<and>
    k_heap k' 1 = Some b' \<and> pc b' = 1"
proof -
  let ?k = "ex_kernel (ex_heap 7 5 7) (ex_sched [2, 3] [])"
  let ?b = "ex_pcb 1 7 ''input/proc/p1'' (c_mm ex_ctx)"
  have h: "heap_wf (k_heap ?k)" "k_heap ?k 1 = Some ?b"
    using ex_heap_wf by (simp_all add: ex_kernel_def)
  have "run ex_u ?k 1 = Inr (0, ?k\<lparr>k_heap := (k_heap ?k)(1 \<mapsto> ?b\<lparr>pc := 1\<rparr>)\<rparr>)"
    using h(2) by (simp add: run_def fetch_def exec_def ex_pcb_def ex_inst_def)
  from run_one_instruction [OF h this] this show ?thesis
    by (fastforce simp: ex_pcb_def)
qed

section \<open>System calls\<close>

text \<open>
  C24: \<open>killall\<close>, when the processes of the running list and those of the ready queue
  share one default priority: it reads the name in the region up to the mark, takes from
  the running list and from level 0 exactly the entries with that path (never the caller),
  moves the first to the end of their code and frees the second, keeps the order of the
  others and all other levels, and returns the number of entries it took.
\<close>

lemma killall_kills_the_named:
  assumes "k_heap k p = Some b" and "p_running_list b = Some RunningList" and "p_mlq_ready_queue b = Some MlqReadyQueue"
    and "holds_bytes u (ctx_of k b) r (bs @ [-1])" and "length bs < 100" and "-1 \<notin> set bs" and "full_name bs = Inr nm"
    and "q_wf (running_list (k_sched k))" and "uniform (k_heap k) (q_list (running_list (k_sched k)))"
    and "q_wf (mlq_ready_queue (k_sched k) 0)" and "uniform (k_heap k) (level (k_sched k) 0)"
    and "distinct (level (k_sched k) 0)" and "\<forall>q \<in> set (level (k_sched k) 0). can_free (k_heap k) q"
  defines "T \<equiv> is_target (k_heap k) p nm" and "rl \<equiv> q_list (running_list (k_sched k))"
    and "l0 \<equiv> level (k_sched k) 0"
  shows "\<exists>k'. sys_killall u k p \<lparr>sc_a1 = r, sc_a2 = x, sc_a3 = y\<rparr> =
      Inr (int (length (filter T rl)) + int (length (filter T l0)), k') \<and>
    q_list (running_list (k_sched k')) = filter (\<lambda>q. \<not> T q) rl \<and>
    level (k_sched k') 0 = filter (\<lambda>q. \<not> T q) l0 \<and>
    (\<forall>j. j \<noteq> 0 \<longrightarrow> level (k_sched k') j = level (k_sched k) j) \<and>
    (\<forall>q. q \<noteq> p \<longrightarrow> k_heap k' q =
       free_all (set (filter T l0)) (finish_all (set (filter T rl)) (k_heap k)) q)"
  unfolding T_def rl_def l0_def by (rule sys_killall_uniform [OF assms(1-13)])

lemma killall_kills_the_named_witness:
  "\<exists>k'. sys_killall ex_u (ex_killer 7) 1 \<lparr>sc_a1 = 2, sc_a2 = 0, sc_a3 = 0\<rparr> = Inr (3, k') \<and>
    q_list (running_list (k_sched k')) = [1] \<and> level (k_sched k') 0 = [] \<and> k_heap k' 3 = None"
proof -
  let ?b = "ex_pcb 1 7 ''input/proc/p1'' (c_mm ex_ctx1)"
  have nm: "full_name [112, 50] = Inr ''input/proc/p2''"
    by (simp add: full_name_def c_string_def char_of_def bit_Suc_0_iff)
  have "holds_bytes ex_u (ctx_of (ex_killer 7) ?b) 2 ([112, 50] @ [-1])"
    using ex_named_holds by (simp add: ex_killer_caller)
  moreover have "\<forall>q \<in> set (level (k_sched (ex_killer 7)) 0). can_free (k_heap (ex_killer 7)) q"
    using ex_can_free [of 7 7 7 3] by (simp add: ex_killer_queues ex_killer_heap can_free_def ex_heap_simps)
  ultimately have "\<exists>k'. sys_killall ex_u (ex_killer 7) 1 \<lparr>sc_a1 = 2, sc_a2 = 0, sc_a3 = 0\<rparr> =
      Inr (int (length (filter (is_target (k_heap (ex_killer 7)) 1 ''input/proc/p2'') (q_list (running_list (k_sched (ex_killer 7))))))
        + int (length (filter (is_target (k_heap (ex_killer 7)) 1 ''input/proc/p2'') (level (k_sched (ex_killer 7)) 0))), k') \<and>
    q_list (running_list (k_sched k')) =
      filter (\<lambda>q. \<not> is_target (k_heap (ex_killer 7)) 1 ''input/proc/p2'' q) (q_list (running_list (k_sched (ex_killer 7)))) \<and>
    level (k_sched k') 0 = filter (\<lambda>q. \<not> is_target (k_heap (ex_killer 7)) 1 ''input/proc/p2'' q) (level (k_sched (ex_killer 7)) 0) \<and>
    (\<forall>q. q \<noteq> 1 \<longrightarrow> k_heap k' q =
       free_all (set (filter (is_target (k_heap (ex_killer 7)) 1 ''input/proc/p2'') (level (k_sched (ex_killer 7)) 0)))
        (finish_all (set (filter (is_target (k_heap (ex_killer 7)) 1 ''input/proc/p2'') (q_list (running_list (k_sched (ex_killer 7))))))
          (k_heap (ex_killer 7))) q)"
    using killall_kills_the_named [OF ex_killer_caller(1) [where a = 7], where u = ex_u and r = 2 and bs = "[112, 50]"
        and nm = "''input/proc/p2''" and x = 0 and y = 0] nm
    by (auto simp: ex_killer_queues ex_killer_heap ex_killer_caller uniform_def q_wf_def MAX_QUEUE_SIZE_def ex_pcb_def)
  then show ?thesis
    by (auto simp: ex_killer_queues is_target_def ex_killer_heap ex_killer_caller ex_pcb_def free_all_def)
qed

text \<open>
  C25: A byte that \<open>memmap\<close> writes to RAM is read back by \<open>memmap\<close>, sign-extended; the
  read changes nothing in the kernel.
\<close>

lemma memmap_io_round_trip:
  assumes "rdmflg (k_mram k) \<noteq> 0" and "in_storage (k_mram k) (int_of_u32 a)"
  shows "\<exists>k'. sys_memmap u k p \<lparr>sc_a1 = 5, sc_a2 = a, sc_a3 = v\<rparr> = Inr (0, \<lparr>sc_a1 = 5, sc_a2 = a, sc_a3 = v\<rparr>, k') \<and>
    sys_memmap u k' p \<lparr>sc_a1 = 4, sc_a2 = a, sc_a3 = w\<rparr> =
      Inr (0, \<lparr>sc_a1 = 4, sc_a2 = a, sc_a3 = u32_of_byte (byte_of_u32 v)\<rparr>, k')"
  by (rule memmap_write_read [OF assms])

lemma memmap_io_round_trip_witness:
  "\<exists>k'. sys_memmap ex_u (ex_kernel (ex_heap 7 7 7) (ex_sched [] [])) 1 \<lparr>sc_a1 = 5, sc_a2 = 9, sc_a3 = 255\<rparr> =
      Inr (0, \<lparr>sc_a1 = 5, sc_a2 = 9, sc_a3 = 255\<rparr>, k') \<and>
    sys_memmap ex_u k' 1 \<lparr>sc_a1 = 4, sc_a2 = 9, sc_a3 = 0\<rparr> = Inr (0, \<lparr>sc_a1 = 4, sc_a2 = 9, sc_a3 = -1\<rparr>, k')"
proof -
  let ?k = "ex_kernel (ex_heap 7 7 7) (ex_sched [] [])"
  have m: "rdmflg (k_mram ?k) \<noteq> 0" "in_storage (k_mram ?k) (int_of_u32 9)"
    by (simp_all add: ex_kernel_def ex_ctx_def ex_dev_def in_storage_def int_of_u32_def)
  show ?thesis
    using memmap_io_round_trip [OF m, of ex_u 1 255 0]
    by (auto simp: u32_of_byte_def byte_of_u32_def)
qed

section \<open>Regions\<close>

text \<open>
  C26: The search of the free list.  For a positive size below 2^31 and the list of
  disjoint regions of a single area, none so high that adding the size wraps around, it ends; either it reports that nothing fits, leaves the list as it is, and no region before
  the first one of another area (where the search ends) has the bytes, or it returns a
  region of exactly the requested size that was free and no longer is; what remains is
  again a list of disjoint regions, of addresses that were free.
\<close>

lemma free_region_search:
  assumes "one_vma (c_mm c) v" and "0 < s" and "s < 2147483648"
    and "below (u64_of_int s) (vm_freerg_list v)" and "disjoint_rgs (vm_freerg_list v)"
  shows "\<exists>ret rg l. get_free_vmrg_area c 0 s new =
      Inr (ret, rg, c\<lparr>c_mm := (c_mm c)\<lparr>mmap := [v\<lparr>vm_freerg_list := l\<rparr>]\<rparr>\<rparr>) \<and>
    disjoint_rgs l \<and> cells_of l \<subseteq> cells_of (vm_freerg_list v) \<and>
    (ret = -1 \<and> l = vm_freerg_list v \<and>
       (\<forall>rg \<in> set (reached 0 (vm_freerg_list v)). uint (rg_end rg) < uint (rg_start rg) + s) \<or>
     ret = 0 \<and> uint (rg_end rg) = uint (rg_start rg) + s \<and>
       cells rg \<subseteq> cells_of (vm_freerg_list v) \<and> cells rg \<inter> cells_of l = {})"
proof (rule get_free_vmrg_area_outcome [OF assms, of new])
  fix ret rg l
  assume "get_free_vmrg_area c 0 s new = Inr (ret, rg, c\<lparr>c_mm := (c_mm c)\<lparr>mmap := [v\<lparr>vm_freerg_list := l\<rparr>]\<rparr>\<rparr>)"
    "disjoint_rgs l" "cells_of l \<subseteq> cells_of (vm_freerg_list v)"
    "ret = -1 \<and> l = vm_freerg_list v \<and>
        (\<forall>rg \<in> set (reached 0 (vm_freerg_list v)). uint (rg_end rg) < uint (rg_start rg) + s) \<or>
      ret = 0 \<and> rg_vmaid rg = rg_vmaid new \<and>
      uint (rg_end rg) = uint (rg_start rg) + s \<and> cells rg \<subseteq> cells_of (vm_freerg_list v) \<and> cells rg \<inter> cells_of l = {}"
  then show ?thesis by blast
qed

definition ex_area :: vm_area_struct where
  "ex_area = \<lparr>vm_id = 0, vm_start = 0, vm_end = 1024, sbrk = 1024,
     vm_freerg_list = [\<lparr>rg_vmaid = 0, rg_start = 0, rg_end = 100\<rparr>, \<lparr>rg_vmaid = 0, rg_start = 300, rg_end = 700\<rparr>]\<rparr>"

definition ex_free_ctx :: vmctx where
  "ex_free_ctx = ex_ctx\<lparr>c_mm := (c_mm ex_ctx)\<lparr>mmap := [ex_area],
     symrgtbl := (\<lambda>_. \<lparr>rg_vmaid = 0, rg_start = 100, rg_end = 300\<rparr>)\<rparr>\<rparr>"

lemma ex_free_area: "one_vma (c_mm ex_free_ctx) ex_area" "\<not> c_lock ex_free_ctx"
  by (simp_all add: one_vma_def ex_free_ctx_def ex_area_def ex_ctx_def)

lemma free_region_search_witness:
  "\<exists>ret rg c'. get_free_vmrg_area ex_free_ctx 0 200 (u_rg ex_u) = Inr (ret, rg, c') \<and>
    (ret = 0 \<longrightarrow> uint (rg_end rg) = uint (rg_start rg) + 200)"
proof -
  have "below (u64_of_int 200) (vm_freerg_list ex_area)" "disjoint_rgs (vm_freerg_list ex_area)"
    by (auto simp: below_def ex_area_def uint_u64_of_int cells_def)
  from free_region_search [OF ex_free_area(1) _ _ this, of "u_rg ex_u"] show ?thesis by fastforce
qed

text \<open>
  C27: A region that was released is the first candidate of the next allocation: a
  request that is smaller than it is served from its start.  It is released only once: a
  second \<open>__free\<close> of it fails and changes nothing.
\<close>

lemma freed_region_is_reused:
  assumes "sym_ok i" and "sym_ok j" and "one_vma (c_mm c) v" and "\<not> c_lock c"
    and "rg_vmaid (symrgtbl (c_mm c) i) = 0"
    and "rg_start (symrgtbl (c_mm c) i) + u64_of_int s < rg_end (symrgtbl (c_mm c) i)"
    and "rg_start (symrgtbl (c_mm c) i) < rg_end (symrgtbl (c_mm c) i)"
    and "rg_free c 0 i = Inr (0, c1)"
  shows "(\<exists>c2. rg_alloc u c1 0 j s = Inr (0, int_of_u64 (rg_start (symrgtbl (c_mm c) i)), c2) \<and>
    symrgtbl (c_mm c2) j = \<lparr>rg_vmaid = 0, rg_start = rg_start (symrgtbl (c_mm c) i),
      rg_end = rg_start (symrgtbl (c_mm c) i) + u64_of_int s\<rparr>) \<and>
    rg_free c1 0 i = Inr (-1, c1)"
  by (rule conjI, rule alloc_after_free [OF assms], rule rg_free_again [OF assms(1) one_vma_mmap [OF assms(3)] assms(8)])

lemma freed_region_is_reused_witness:
  "\<exists>c1 c2. rg_free ex_free_ctx 0 2 = Inr (0, c1) \<and> rg_alloc ex_u c1 0 3 50 = Inr (0, 100, c2) \<and>
    rg_free c1 0 2 = Inr (-1, c1)"
proof -
  have rg: "symrgtbl (c_mm ex_free_ctx) 2 = \<lparr>rg_vmaid = 0, rg_start = 100, rg_end = 300\<rparr>"
    by (simp add: ex_free_ctx_def)
  have "\<exists>c1. rg_free ex_free_ctx 0 2 = Inr (0, c1)"
    using rg_free_ok [OF ex_sym(1) one_vma_mmap [OF ex_free_area(1)], of 0] rg by simp
  then obtain c1 where c1: "rg_free ex_free_ctx 0 2 = Inr (0, c1)" by blast
  from freed_region_is_reused [OF ex_sym ex_free_area _ _ _ c1, of 50 ex_u] c1 rg show ?thesis
    by (auto simp: u64_of_int_def int_of_u64_def)
qed

text \<open>
  C28: The mutex of the memory library is free again after every library call that
  returns, so the next call does not block.
\<close>

lemma library_calls_release_mutex:
  assumes "\<not> c_lock c"
  shows "(\<forall>x c'. liballoc u c n r = Inr (x, c') \<longrightarrow> \<not> c_lock c') \<and>
    (\<forall>x c'. libfree c r = Inr (x, c') \<longrightarrow> \<not> c_lock c') \<and>
    (\<forall>x d c'. libread u c r off = Inr (x, d, c') \<longrightarrow> \<not> c_lock c') \<and>
    (\<forall>x c'. libwrite u c b r off = Inr (x, c') \<longrightarrow> \<not> c_lock c')"
  using assms by (auto dest: lib_calls_unlock)

lemma library_calls_release_mutex_witness:
  "\<exists>c'. liballoc ex_u ex_ctx 300 2 = Inr (0, c') \<and> \<not> c_lock c'"
proof -
  have "rg_alloc ex_u ex_ctx 0 2 300 = Inr (0, -1, ex_ctx1)"
    unfolding ex_ctx1_def by (rule fresh_alloc [OF ex_fresh ex_sym(1)]) simp_all
  moreover obtain d where "io_dump (c_mm ex_ctx1) (mmap_end (c_mm ex_ctx1)) = Inr d"
    using io_dump_returns(2) [OF ex_ctx1_ok(2)] by blast
  ultimately have l: "liballoc ex_u ex_ctx 300 2 = Inr (0, ex_ctx1)"
    by (simp add: liballoc_def int_of_u32_def)
  show ?thesis
    using library_calls_release_mutex [OF fresh_processD(3) [OF ex_fresh], of ex_u 300 2] l by blast
qed

text \<open>
  C29: Victims leave in the order in which their pages were mapped: first in, first out.
\<close>

lemma victims_first_in_first_out:
  assumes "fifo_pgn m = []" and "n \<le> length ps"
  shows "victims_of n (enlist_pages m ps) = take n ps"
  unfolding victims_of_drain enlist_pages_enq by (rule victims.first_in_first_out [OF assms])

lemma victims_first_in_first_out_witness: "victims_of 2 (enlist_pages ex_mm0 [7, 3, 5]) = [7, 3]"
proof -
  have "victims_of 2 (enlist_pages ex_mm0 [7, 3, 5]) = take 2 [7, 3, 5]"
    by (rule victims_first_in_first_out) (simp_all add: ex_mm0_def)
  then show ?thesis by simp
qed

section \<open>Devices and entries\<close>

text \<open>
  C30: The list of free frames needs the mutex.  When each thread calls
  \<open>MEMPHY_get_freefp\<close> under the lock, as \<open>__alloc\<close> does, then in every interleaving, for
  any number of threads, those that have returned did so in some order in which the first
  got the first frame of the list, the second the second, and those beyond the length of
  the list -1; and no thread touches a freed node.  When the calls are made without the
  lock, as \<open>pg_getpage\<close> does for the swap device, two threads can get the first free
  frame, and the second of them frees a freed node.
\<close>

lemma free_frames_need_the_lock:
  assumes "holds_list s (f # fs)"
  shows "(\<forall>c. reach (idle s) (get_step True) c \<longrightarrow>
      (\<exists>ts. distinct ts \<and> set ts = {t. \<exists>l. locals c t = Some l \<and> get_fin l} \<and>
        (\<forall>i < length ts. locals c (ts ! i) = Some (if i < length (f # fs) then GDone ((f # fs) ! i) else GFail))) \<and>
      (\<forall>t l. locals c t = Some l \<longrightarrow> (\<exists>y. get_micro l (shared c) = Inr y))) \<and>
    (\<exists>c a. reach (idle s) (get_step False) c \<and> locals c 0 = Some (GDone f) \<and> locals c 1 = Some (GMoved a f) \<and>
      get_micro (GMoved a f) (shared c) = Inl UseAfterFree)"
proof (rule conjI [OF _ unlocked_race [OF assms]], intro allI impI conjI)
  fix c assume "reach (idle s) (get_step True) c"
  then have r: "reach (idle s) (cstep (\<lambda>_. GEnter) get_micro get_fin True) c" by (simp add: get_step_def)
  have inv: "\<exists>fs. holds_list s fs" using assms by blast
  note lin = freefp.linearizable [OF r inv]
  show "\<exists>ts. distinct ts \<and> set ts = {t. \<exists>l. locals c t = Some l \<and> get_fin l} \<and>
      (\<forall>i < length ts. locals c (ts ! i) = Some (if i < length (f # fs) then GDone ((f # fs) ! i) else GFail))"
    using lin(1) calls_get [OF _ assms] by blast
  show "\<exists>y. get_micro l (shared c) = Inr y" if "locals c t = Some l" for t l
    using lin(2) [OF that] get_micro_fin [of l] by blast
qed

lemma free_frames_need_the_lock_witness:
  "\<exists>s c a. holds_list s [3, 4] \<and> reach (idle s) (get_step False) c \<and> locals c 0 = Some (GDone 3) \<and>
    locals c 1 = Some (GMoved a 3) \<and> get_micro (GMoved a 3) (shared c) = Inl UseAfterFree"
proof -
  let ?s = "\<lparr>fl_nodes = [0 \<mapsto> \<lparr>fr_fpn = 3, fr_next = Some 1\<rparr>, 1 \<mapsto> \<lparr>fr_fpn = 4, fr_next = None\<rparr>], fl_head = Some 0\<rparr>"
  have "holds_list ?s [3, 4]" by (auto simp: holds_list_def intro!: exI [of _ "[(0, 3), (1, 4)]"])
  then show ?thesis using free_frames_need_the_lock by blast
qed

text \<open>
  C31: A formatted device has exactly the frames of its storage free, in ascending order,
  when it is a whole page or more (for one page only if the uninitialised link is null).
\<close>

lemma format_frees_all_frames:
  assumes "256 \<le> maxsz mp" and "junk = [] \<or> 512 \<le> maxsz mp"
  shows "free_fp_list (snd (MEMPHY_format junk mp 256)) = map int [0..<nat (maxsz mp div 256)]"
  by (rule MEMPHY_format_frames [OF assms])

lemma format_frees_all_frames_witness: "free_fp_list (snd (MEMPHY_format [9] (ex_dev []) 256)) = [0, 1, 2, 3, 4, 5, 6, 7]"
proof -
  have "free_fp_list (snd (MEMPHY_format [9] (ex_dev []) 256)) = map int [0..<nat (maxsz (ex_dev []) div 256)]"
    by (rule format_frees_all_frames) (simp_all add: ex_dev_def)
  then show ?thesis by (simp add: ex_dev_def upt_rec)
qed

text \<open>
  C32: Page-table entries: \<open>pte_set_fpn\<close> makes a present entry that is not swapped and
  gives its frame back; \<open>pte_set_swap\<close> gives its swap offset back, but leaves the entry
  present and overwrites the frame field with the swap type and offset.
\<close>

lemma entry_fields:
  assumes "0 \<le> f" and "f < 8192" and "0 \<le> off" and "off < 2097152"
  shows "PAGING_PAGE_PRESENT (pte_set_fpn e f) \<and> \<not> PAGING_PAGE_SWAPPED (pte_set_fpn e f) \<and>
    PAGING_FPN (pte_set_fpn e f) = f \<and>
    PAGING_PAGE_PRESENT (pte_set_swap e t off) \<and> PAGING_PAGE_SWAPPED (pte_set_swap e t off) \<and>
    PAGING_PTE_SWP (pte_set_swap e t off) = off \<and>
    PAGING_FPN (pte_set_swap e t off) = t mod 32 + 32 * (off mod 256)"
  using assms by (simp add: PAGING_FPN_set_fpn PAGING_PTE_SWP_set_swap PAGING_FPN_set_swap)

lemma entry_fields_witness: "PAGING_FPN (pte_set_fpn 7 100) = 100 \<and> PAGING_FPN (pte_set_swap 7 0 3) = 96"
  using entry_fields [of 100 3 7 0] by simp

section \<open>Where the code departs from what it means to do\<close>

text \<open>
  C33: An idle CPU never leaves its loop.  Once the loader has ended and no process is left,
  a CPU that is at the head of its loop without a process (or in the slot it spends there)
  never exits, since the first test of the loop goes on without looking at \<open>done\<close>; so the
  timer never stops and the simulator never ends, whatever the other threads do.
\<close>

lemma idle_cpu_never_stops:
  assumes "reach (sinit cfg) (sstep u j fs cfg) s" and "cfg_ok cfg" and "i < num_cpus cfg"
    and "nothing_left cfg i s" and "(sstep u j fs cfg)\<^sup>*\<^sup>* s t"
  shows "c_at (sys_cpu t i) \<noteq> AtExit \<and> d_pc (sys_timer t) i \<noteq> DExit \<and>
    t_pc (sys_timer t) \<noteq> TStopped \<and> \<not> timer_stop (sys_timer t)"
  using assms by (intro idle_cpu_runs_on)

lemma idle_cpu_never_stops_witness:
  "\<exists>s. reach (sinit ex_cfg0) (sstep ex_u ex_junk ex_fs ex_cfg0) s \<and>
    (\<forall>t. (sstep ex_u ex_junk ex_fs ex_cfg0)\<^sup>*\<^sup>* s t \<longrightarrow> t_pc (sys_timer t) \<noteq> TStopped)"
proof -
  obtain s where s: "reach (sinit ex_cfg0) (sstep ex_u ex_junk ex_fs ex_cfg0) s" "nothing_left ex_cfg0 0 s"
    using ex_idle by blast
  have "0 < num_cpus ex_cfg0" by (simp add: ex_cfg0_def ex_cfg_def)
  then show ?thesis
    using idle_cpu_never_stops [OF s(1) ex_cfg0_ok _ s(2)] s(1) by blast
qed

text \<open>
  C34: A page that was swapped out is never swapped in again.  After \<open>pg_getpage\<close> has
  evicted page \<open>v\<close> to swap frame \<open>s\<close>, \<open>pg_getpage\<close> of \<open>v\<close> reports success at once,
  without bringing the page back, and names the frame \<open>32 * (s mod 256)\<close>: the entry
  keeps the PRESENT flag and its frame field holds bits of the swap offset.  A byte written
  to the page lands in that frame of RAM, whoever it belongs to.
\<close>

lemma swapped_page_stays_out:
  assumes inv: "paging_inv c" and fifo: "fifo_pgn (c_mm c) \<noteq> []"
    and p: "0 \<le> p" "p < 16384" "\<not> PAGING_PAGE_PRESENT (pgd (c_mm c) p)"
    and swp: "rdmflg (c_mswp c) \<noteq> 0" "free_fp_list (c_mswp c) = s # ss" "page_in (c_mswp c) s"
      "page_in (c_mswp c) (PAGING_PTE_SWP (pgd (c_mm c) p))"
  defines "v \<equiv> last (fifo_pgn (c_mm c))" and "g \<equiv> 32 * (s mod 256)"
  shows "\<exists>c'. pg_getpage u p f c = Inr (0, frame_of (c_mm c) v, c') \<and>
    pg_getpage u v f c' = Inr (0, g, c') \<and>
    (page_in (c_mram c) g \<longrightarrow> (\<forall>i \<in> {0..<256}. \<forall>x. pg_setval u (v * 256 + i) x c' =
      Inr (0, c'\<lparr>c_mram := (c_mram c')\<lparr>storage := (storage (c_mram c'))(g * 256 + i := x)\<rparr>\<rparr>)))"
proof -
  have v: "resident (c_mm c) v" unfolding v_def by (rule last_fifo_resident [OF inv fifo])
  then have pv: "p \<noteq> v" "0 \<le> v" "v < 16384" using p by (auto simp: resident_def)
  have "pg_getpage u p f c = Inr (0, frame_of (c_mm c) v, swapped_in p v s ss c)"
    using p pg_swapin_eq [OF inv fifo p(3) swp, of u] frame_of_swapped_in [OF pv(1), of s ss c p]
    by (simp add: pg_getpage_def frame_of_def v_def)
  moreover have "rdmflg (c_mram c) \<noteq> 0" using inv by (simp add: paging_inv_def)
  ultimately show ?thesis
    using victim_is_not_swapped_back [OF pv(2,3,1)] write_to_swapped_page [OF pv(2,3,1)]
    by (intro exI [of _ "swapped_in p v s ss c"]) (simp add: g_def)
qed

lemma swapped_page_stays_out_witness:
  "\<exists>f c'. pg_getpage ex_u 5 0 ex_ctx1 = Inr (0, f, c') \<and> pg_getpage ex_u 0 0 c' = Inr (0, 96, c')"
  using swapped_page_stays_out [where c = ex_ctx1 and p = 5 and s = 3 and ss = "[4]" and u = ex_u and f = 0]
    ex_ctx1_ok(1) ex_ctx1_more ex_pgd by (simp add: ex_dev_def page_in_def) blast

text \<open>
  C35: The swap device carries bytes from one process to another.  When a read of process
  \<open>p\<close> has to bring a page in, its victim goes to the first free swap frame; if a process
  \<open>q\<close> then reads from a page of its own whose entry names that swap frame (an entry that
  is zero names frame 0), it is given a page that holds, byte for byte, what
  \<open>p\<close> had in the page that was evicted.
\<close>

lemma evicted_page_leaks:
  assumes "mem_ok k" and "k_heap k p = Some b" and "k_heap k q = Some c" and "p \<noteq> q"
    and "reads_absent (ctx_of k b) ins x" and "reads_absent (ctx_of k c) ins' y"
    and "free_fp_list (k_mswp k) = s # s' # ss" and "s \<noteq> s'" and "page_in (k_mswp k) s'"
    and "PAGING_PTE_SWP (pgd (mm c) y) = s"
  shows "\<exists>k1 k2. exec u k p ins = Inr (0, k1) \<and> exec u k1 q ins' = Inr (0, k2) \<and>
    (\<forall>i \<in> {0..<256}. bytes_of k2 q (y * 256 + i) = bytes_of k p (last (fifo_pgn (mm b)) * 256 + i) \<and>
      bytes_of k2 q (y * 256 + i) \<noteq> None)"
  by (rule eviction_leaks [OF assms])

lemma evicted_page_leaks_witness:
  "\<exists>k1 k2. exec ex_u ex_leak 1 (ex_inst READ 2 1280 0 0) = Inr (0, k1) \<and>
    exec ex_u k1 2 (ex_inst READ 3 1280 0 0) = Inr (0, k2) \<and>
    bytes_of ex_leak 1 20 = Some 1 \<and> bytes_of k2 2 1300 = Some 1"
proof -
  have "PAGING_PTE_SWP (pgd (c_mm ex_ctx2) 5) = 0" using ex_ctx2_more ex_pgd by simp
  then obtain k1 k2 where "exec ex_u ex_leak 1 (ex_inst READ 2 1280 0 0) = Inr (0, k1)"
      "exec ex_u k1 2 (ex_inst READ 3 1280 0 0) = Inr (0, k2)"
    and all: "\<forall>i \<in> {0..<256}. bytes_of k2 2 (5 * 256 + i) = bytes_of ex_leak 1 (0 * 256 + i)"
    using evicted_page_leaks [OF ex_leak_ok ex_leak_heap(1,2) _ ex_leak_reads, of 0 1 "[]" ex_u] ex_ctx1_more(4)
    by (auto simp: ex_leak_heap ex_dev_def page_in_def)
  moreover have "bytes_of k2 2 1300 = bytes_of ex_leak 1 20" using all [THEN bspec, of 20] by simp
  ultimately show ?thesis using ex_leak_byte by auto
qed

text \<open>
  C36: The second allocation of a process starts beyond the pages that were mapped for it.
  In a fresh process (what \<open>init_mm\<close> makes in zeroed memory), for sizes from 1 to 1000000
  and with at least \<open>pages_of s + pages_of r\<close> free frames in RAM:
  after allocations of \<open>s\<close> and \<open>r\<close> bytes the resident pages are exactly the first
  \<open>pages_of s + pages_of r\<close>, but the second region begins \<open>s\<close> bytes after the end of the
  first allocation's pages, because the break is advanced by the aligned and by the
  requested size.
\<close>

lemma second_region_is_displaced:
  assumes "fresh_process u c" and "sym_ok i" and "sym_ok j"
    and "0 < s" and "s \<le> 1000000" and "0 < r" and "r \<le> 1000000"
    and "pages_of s + pages_of r \<le> int (length (free_fp_list (c_mram c)))"
  shows "\<exists>c1 c2. rg_alloc u c 0 i s = Inr (0, -1, c1) \<and> rg_alloc u c1 0 j r = Inr (0, -1, c2) \<and>
    symrgtbl (c_mm c2) j = \<lparr>rg_vmaid = 0, rg_start = u64_of_int (pages_of s * 256 + s),
      rg_end = u64_of_int (pages_of s * 256 + s + r)\<rparr> \<and>
    (\<forall>p. resident (c_mm c2) p \<longleftrightarrow> 0 \<le> p \<and> p < pages_of s + pages_of r)"
  using fresh_alloc [OF assms(1,2,4)] assms(5) second_alloc [OF assms] by fastforce

lemma second_region_is_displaced_witness:
  "\<exists>c1 c2. rg_alloc ex_u ex_ctx 0 2 300 = Inr (0, -1, c1) \<and> rg_alloc ex_u c1 0 3 300 = Inr (0, -1, c2) \<and>
    rg_start (symrgtbl (c_mm c2) 3) = u64_of_int 812 \<and> \<not> resident (c_mm c2) 4 \<and>
    rg_end (symrgtbl (c_mm c2) 3) = u64_of_int 1112"
  using second_region_is_displaced [OF ex_fresh ex_sym, where s = 300 and r = 300] ex_pages by fastforce

text \<open>
  C37: The first allocation of a fresh process (what \<open>init_mm\<close> makes in zeroed memory), of
  1 to 4000000 bytes, for which RAM has too few free frames, reports success: it takes
  every free frame, maps none of them, and the region it records has no resident page.
\<close>

lemma exhausted_alloc_reports_success:
  assumes "fresh_process u c" and "sym_ok i" and "0 < s" and "s \<le> 4000000"
    and "int (length (free_fp_list (c_mram c))) < pages_of s"
  shows "\<exists>c1. rg_alloc u c 0 i s = Inr (0, -1, c1) \<and> free_fp_list (c_mram c1) = [] \<and>
    (\<forall>p. \<not> resident (c_mm c1) p) \<and> uint (rg_end (symrgtbl (c_mm c1) i)) = s"
proof -
  have "\<not> resident (c_mm (after_first u c i s)) p" for p
    using resident_after_first [OF assms(1,3,4), of i p] assms(5) by simp
  then show ?thesis
    using fresh_alloc [OF assms(1-4)] assms(3-5)
    by (auto simp: after_first_def brk_region_def area0_def uint_u64_of_int)
qed

lemma exhausted_alloc_reports_success_witness:
  "\<exists>c1. rg_alloc ex_u ex_ctx 0 2 3000 = Inr (0, -1, c1) \<and> free_fp_list (c_mram c1) = []"
  using exhausted_alloc_reports_success [OF ex_fresh ex_sym(1), of 3000] ex_pages(2)
  by (fastforce simp: pages_of_def)

text \<open>
  C38: In zeroed memory the first allocation of a process, when it asks for no bytes, never
  returns: the search for a free region stays at the empty region that \<open>init_mm\<close> made,
  with the mutex held.  The conditions are a fresh process (no page present, an empty page
  list) and that the field \<open>vmaid\<close> of this region, which \<open>init_vm_rg\<close> never sets, happens
  to hold 0; with another value the search passes over the region.
\<close>

lemma empty_alloc_never_returns:
  assumes "fresh_process u c" and "rg_vmaid (u_rg u) = 0" and "sym_ok i"
  shows "rg_alloc u c 0 i 0 = Inl Diverges"
  by (rule alloc_nothing_diverges [OF assms])

lemma empty_alloc_never_returns_witness: "rg_alloc ex_u ex_ctx 0 2 0 = Inl Diverges"
  by (rule empty_alloc_never_returns [OF ex_fresh _ ex_sym(1)]) (simp add: ex_u_def)

text \<open>
  C39: When the caller has the least default priority of the running list, \<open>killall\<close>
  looks at no other entry of that list: each round of its scan takes the caller again, and
  nothing is killed, whatever the name.
\<close>

lemma killall_scan_starves:
  assumes "q_wf (get_queue r k)" and "q_live (k_heap k) (get_queue r k)"
    and "q_list (get_queue r k) = pre @ caller # post"
    and "\<forall>p \<in> set (pre @ post). pcb_key (k_heap k) caller < pcb_key (k_heap k) p"
  shows "\<exists>q'. kill_running n r caller name m k = Inr (m, put_queue r q' k) \<and>
    mset (q_list q') = mset (q_list (get_queue r k))"
  by (rule kill_running_starved [OF assms])

lemma killall_scan_starves_witness:
  "\<exists>q'. kill_running 3 RunningList 1 ''input/proc/p2'' 0 (ex_killer 5) = Inr (0, put_queue RunningList q' (ex_killer 5)) \<and>
    mset (q_list q') = {# 1, 2, 3 #}"
  using killall_scan_starves [of RunningList "ex_killer 5" "[]" 1 "[2, 3]" 3 "''input/proc/p2''" 0]
  by (simp add: get_queue_def ex_killer_queues ex_killer_heap ex_killer_caller q_wf_def q_live_def MAX_QUEUE_SIZE_def)

text \<open>
  C40: The name buffer of \<open>killall\<close> overflows: when the region holds more than 100 bytes
  without the end mark, the loop that reads the name writes past its buffer.
\<close>

lemma killall_name_overflows:
  assumes "holds_bytes u c r bs" and "length bs = 101" and "-1 \<notin> set bs"
  shows "name_loop u r 0 [] c = Inl OutOfBounds"
  by (rule name_loop_overflow [OF assms]) simp

lemma killall_name_overflows_witness: "name_loop ex_u 2 0 [] ex_ctx1 = Inl OutOfBounds"
proof -
  have two: "int_of_u32 2 = 2" by (simp add: int_of_u32_def)
  have mem: "va_load ex_u ex_ctx1 k = 0" if "0 \<le> k" "k < 300" for k
    using ex_va_ok [OF that]
    by (simp add: va_load_eq va_view_def va_ok_def)
      (simp add: ex_ctx1_def after_first_def ex_pages map_new_def Let_def ex_ctx_def ex_dev_def)
  have "byte_addr ex_ctx1 2 i = int i" if "i < 101" for i
    using that ex_byte(2) [of "int i"] by (simp add: byte_addr_def two)
  then have "holds_bytes ex_u ex_ctx1 2 (replicate 101 0)"
    using ex_ctx1_ok(2) ex_sym(1) mem ex_va_ok by (auto simp: holds_bytes_def two)
  then show ?thesis by (rule killall_name_overflows) simp_all
qed

end
